(* ===== verification/Prelude.thy ===== *)
theory Prelude
  imports Main "HOL-Library.Word"
begin

text \<open>
  The vocabulary every component shares: bytes and machine words, the big-endian
  codecs of Go's \<open>encoding/binary\<close>, in-place slice writes, the readers and writers
  that stand for \<open>net.Conn\<close>, and the generic lemmas on lists and sums the component
  proofs use. Nothing here is specific to mxtr; it models the part of the Go language
  and its standard library the sources rely on.

  Go's \<open>string\<close> is a sequence of bytes, and so is HOL's \<open>string\<close> (a \<open>char\<close> is
  an 8-bit value), so Go strings are HOL strings and \<open>[]byte(s)\<close>, \<open>string(b)\<close> are
  the conversions \<open>bytes_of\<close>, \<open>string_of\<close>.
\<close>

section \<open>Types\<close>

type_synonym byte = "8 word"
type_synonym bytes = "8 word list"
type_synonym u16 = "16 word"
type_synonym u32 = "32 word"
type_synonym u64 = "64 word"

named_theorems codec_simps \<open>round trips and lengths of the wire codecs\<close>
named_theorems io_simps \<open>evaluation of readers and writers\<close>

declare add_2_eq_Suc [simp del] add_2_eq_Suc' [simp del]

section \<open>Bytes and strings\<close>

definition bytes_of :: "string \<Rightarrow> bytes" where
  "bytes_of s = map (\<lambda>c. word_of_nat (of_char c)) s"

definition string_of :: "bytes \<Rightarrow> string" where
  "string_of bs = map (\<lambda>b. char_of (unat b)) bs"

lemma unat_byte_less [simp]: "unat (b :: byte) < 256"
  using unsigned_less [of b] by simp

lemma unat_byte_le [simp]: "unat (b :: byte) \<le> 255"
  using unat_byte_less [of b] by linarith

lemma unat_of_nat_byte: "unat (word_of_nat n :: byte) = n mod 256"
  by (simp add: unat_of_nat)

lemma string_of_bytes_of [simp]: "string_of (bytes_of s) = s"
proof -
  have "(\<lambda>c. char_of (unat (word_of_nat (of_char c) :: byte))) = (id :: char \<Rightarrow> char)"
    by (rule ext) (simp add: unat_of_nat_byte)
  then show ?thesis
    unfolding string_of_def bytes_of_def by (simp add: o_def)
qed

lemma bytes_of_string_of [simp]: "bytes_of (string_of bs) = bs"
proof -
  have "(\<lambda>b. word_of_nat (of_char (char_of (unat b) :: char)) :: byte) = id"
    by (rule ext) (simp add: of_char_of)
  then show ?thesis
    unfolding string_of_def bytes_of_def by (simp add: o_def)
qed

lemma length_bytes_of [simp]: "length (bytes_of s) = length s"
  by (simp add: bytes_of_def)

lemma length_string_of [simp]: "length (string_of bs) = length bs"
  by (simp add: string_of_def)

lemma bytes_of_append [simp]: "bytes_of (s @ t) = bytes_of s @ bytes_of t"
  by (simp add: bytes_of_def)

lemma bytes_of_inject [simp]: "bytes_of s = bytes_of t \<longleftrightarrow> s = t"
  by (metis string_of_bytes_of)

section \<open>Big-endian integers\<close>

text \<open>
  \<open>putBE k n\<close> is what \<open>binary.BigEndian.PutUint16/32/64\<close> writes (\<open>k\<close> = 2, 4, 8)
  for the integer \<open>n\<close> after the conversion \<open>uint16(n)\<close> etc., which keeps the low
  \<open>8 * k\<close> bits; \<open>getBE\<close> is \<open>BigEndian.Uint16/32/64\<close>.
\<close>

fun putBE :: "nat \<Rightarrow> nat \<Rightarrow> bytes" where
  "putBE 0 n = []"
| "putBE (Suc k) n = putBE k (n div 256) @ [word_of_nat n]"

definition getBE :: "bytes \<Rightarrow> nat" where
  "getBE bs = foldl (\<lambda>acc b. acc * 256 + unat b) 0 bs"

lemma putBE_numeral:
  "putBE (numeral k) n = putBE (pred_numeral k) (n div 256) @ [word_of_nat n]"
  by (simp only: numeral_eq_Suc [of k] putBE.simps)

lemma length_putBE [simp, codec_simps]: "length (putBE k n) = k"
  by (induction k arbitrary: n) auto

lemma getBE_Nil [simp]: "getBE [] = 0"
  by (simp add: getBE_def)

lemma getBE_snoc [simp]: "getBE (bs @ [b]) = getBE bs * 256 + unat b"
  by (simp add: getBE_def)

lemma getBE_single [simp]: "getBE [b] = unat b"
  by (simp add: getBE_def)

lemma getBE_putBE: "getBE (putBE k n) = n mod 256 ^ k"
proof (induction k arbitrary: n)
  case 0
  then show ?case by simp
next
  case (Suc k)
  have "n mod (256 * 256 ^ k) = 256 * (n div 256 mod 256 ^ k) + n mod 256"
    by (rule mod_mult2_eq)
  with Suc show ?case by (simp add: unat_of_nat_byte)
qed

lemma getBE_putBE_small [codec_simps]: "n < 256 ^ k \<Longrightarrow> getBE (putBE k n) = n"
  by (simp add: getBE_putBE)

lemma putBE_getBE: "putBE (length bs) (getBE bs) = bs"
proof (induction bs rule: rev_induct)
  case Nil
  then show ?case by simp
next
  case (snoc b bs)
  have "(getBE bs * 256 + unat b) div 256 = getBE bs" by simp
  moreover have "word_of_nat (getBE bs * 256 + unat b) = b"
  proof (rule word_unat_eq_iff [THEN iffD2])
    have "unat (word_of_nat (getBE bs * 256 + unat b) :: byte) = (getBE bs * 256 + unat b) mod 256"
      by (rule unat_of_nat_byte)
    also have "\<dots> = unat b" by simp
    finally show "unat (word_of_nat (getBE bs * 256 + unat b) :: byte) = unat b" .
  qed
  ultimately show ?case using snoc by simp
qed

lemma putBE_getBE_eq: "length bs = k \<Longrightarrow> putBE k (getBE bs) = bs"
  using putBE_getBE by blast

lemma getBE_less: "getBE bs < 256 ^ length bs"
proof (induction bs rule: rev_induct)
  case Nil
  then show ?case by simp
next
  case (snoc b bs)
  then have "getBE bs + 1 \<le> 256 ^ length bs" by simp
  then have "(getBE bs + 1) * 256 \<le> 256 ^ length bs * 256" by (rule mult_right_mono) simp
  moreover have "unat b < 256" by (rule unat_byte_less)
  ultimately have "getBE bs * 256 + unat b < 256 ^ length bs * 256"
    unfolding add_mult_distrib by linarith
  then show ?case by (simp add: mult.commute)
qed

lemma putBE_inj: "m < 256 ^ k \<Longrightarrow> n < 256 ^ k \<Longrightarrow> putBE k m = putBE k n \<Longrightarrow> m = n"
  by (metis getBE_putBE_small)

section \<open>Slices\<close>

text \<open>
  \<open>copy(buf[off:], data)\<close>: the bytes of \<open>data\<close> replace those of \<open>buf\<close> from
  \<open>off\<close> on; what does not fit is dropped and the length of \<open>buf\<close> never changes.
\<close>

definition copyAt :: "nat \<Rightarrow> bytes \<Rightarrow> bytes \<Rightarrow> bytes" where
  "copyAt off data buf =
     take off buf @ take (length buf - off) data @ drop (off + length data) buf"

lemma length_copyAt [simp]: "length (copyAt off data buf) = length buf"
  by (simp add: copyAt_def min_def)

lemma copyAt_exact:
  "length buf = length pre + length data + length post \<Longrightarrow> take (length pre) buf = pre \<Longrightarrow>
   drop (length pre + length data) buf = post \<Longrightarrow>
   copyAt (length pre) data buf = pre @ data @ post"
  by (simp add: copyAt_def)

section \<open>Readers and writers\<close>

text \<open>
  The read side of a \<open>net.Conn\<close> is the sequence of bytes the peer is still going to
  deliver, and the error \<open>Read\<close> reports after them. \<open>readFull\<close> is \<open>io.ReadFull\<close>:
  it fills a fresh zeroed buffer of \<open>n\<close> bytes, or returns the partly filled buffer with
  the error (\<open>EOF\<close> becomes \<open>ErrUnexpectedEOF\<close> once a byte has been read).
\<close>

datatype io_error = EOF | ErrUnexpectedEOF | ErrOther string

record reader =
  inbuf :: bytes
  rend :: io_error

definition readFull :: "nat \<Rightarrow> reader \<Rightarrow> (io_error option \<times> bytes \<times> reader)" where
  "readFull n r =
     (if n \<le> length (inbuf r)
      then (None, take n (inbuf r), r\<lparr>inbuf := drop n (inbuf r)\<rparr>)
      else (Some (if rend r = EOF \<and> inbuf r \<noteq> [] then ErrUnexpectedEOF else rend r),
            inbuf r @ replicate (n - length (inbuf r)) 0, r\<lparr>inbuf := []\<rparr>))"

text \<open>
  The write side: the bytes the kernel accepted so far, and after how many more the
  connection breaks (\<open>None\<close>: never). A broken connection accepts nothing more.
\<close>

record writer =
  wout :: bytes
  wbreak :: "nat option"

definition writeConn :: "writer \<Rightarrow> bytes \<Rightarrow> (bool \<times> writer)" where
  "writeConn w bs =
     (case wbreak w of
        None \<Rightarrow> (True, w\<lparr>wout := wout w @ bs\<rparr>)
      | Some k \<Rightarrow>
          if length bs \<le> k
          then (True, w\<lparr>wout := wout w @ bs, wbreak := Some (k - length bs)\<rparr>)
          else (False, w\<lparr>wout := wout w @ take k bs, wbreak := Some 0\<rparr>))"

lemma readFull_ok [io_simps]:
  "length bs = n \<Longrightarrow> readFull n \<lparr>inbuf = bs @ rest, rend = e\<rparr> = (None, bs, \<lparr>inbuf = rest, rend = e\<rparr>)"
  by (simp add: readFull_def)

lemma readFull_None_iff [io_simps]:
  "readFull n r = (None, bs, r') \<longleftrightarrow>
     length bs = n \<and> inbuf r = bs @ inbuf r' \<and> rend r' = rend r"
proof
  assume "readFull n r = (None, bs, r')"
  then show "length bs = n \<and> inbuf r = bs @ inbuf r' \<and> rend r' = rend r"
    by (auto simp: readFull_def split: if_splits)
next
  assume a: "length bs = n \<and> inbuf r = bs @ inbuf r' \<and> rend r' = rend r"
  then have "r = \<lparr>inbuf = bs @ inbuf r', rend = rend r'\<rparr>" by (cases r) simp
  with a show "readFull n r = (None, bs, r')" by (cases r') (simp add: readFull_def)
qed

lemma readFull_fails_iff: "(\<exists>e b r'. readFull n r = (Some e, b, r')) \<longleftrightarrow> length (inbuf r) < n"
  by (auto simp: readFull_def)

lemma readFull_length: "readFull n r = (e, bs, r') \<Longrightarrow> length bs = n"
  by (auto simp: readFull_def split: if_splits)

lemma readFull_total: "readFull n r = (None, take n (inbuf r), r\<lparr>inbuf := drop n (inbuf r)\<rparr>)
   \<or> (\<exists>e b r'. readFull n r = (Some e, b, r'))"
  by (auto simp: readFull_def)

lemma writeConn_unbroken [io_simps]:
  "wbreak w = None \<Longrightarrow> writeConn w bs = (True, w\<lparr>wout := wout w @ bs\<rparr>)"
  by (simp add: writeConn_def)

lemma writeConn_ok: "writeConn w bs = (True, w') \<Longrightarrow> wout w' = wout w @ bs"
  by (auto simp: writeConn_def split: option.splits if_splits)

lemma writeConn_prefix: "writeConn w bs = (ok, w') \<Longrightarrow> \<exists>k. wout w' = wout w @ take k bs"
  by (fastforce simp: writeConn_def split: option.splits if_splits intro: exI [of _ "length bs"])

section \<open>Lists and sums\<close>

lemma sum_list_update_int:
  fixes f :: "'a \<Rightarrow> int"
  shows "i < length xs \<Longrightarrow>
    sum_list (map f (xs[i := y])) = sum_list (map f xs) - f (xs ! i) + f y"
proof (induction xs arbitrary: i)
  case Nil
  then show ?case by simp
next
  case (Cons x xs)
  then show ?case by (cases i) auto
qed

lemma sum_list_nonneg_int: "(\<And>x. x \<in> set xs \<Longrightarrow> 0 \<le> f x) \<Longrightarrow> 0 \<le> sum_list (map f xs :: int list)"
  by (induction xs) auto

lemma member_le_sum_list_int:
  fixes f :: "'a \<Rightarrow> int"
  shows "(\<And>x. x \<in> set xs \<Longrightarrow> 0 \<le> f x) \<Longrightarrow> i < length xs \<Longrightarrow> f (xs ! i) \<le> sum_list (map f xs)"
proof (induction xs arbitrary: i)
  case Nil
  then show ?case by simp
next
  case (Cons x xs)
  show ?case
  proof (cases i)
    case 0
    with Cons.prems show ?thesis using sum_list_nonneg_int [of xs f] by simp
  next
    case (Suc j)
    with Cons.prems have "f (xs ! j) \<le> sum_list (map f xs)" by (intro Cons.IH) auto
    with Suc Cons.prems(1) [of x] show ?thesis by simp
  qed
qed

lemma take_append_nth: "length xs = Suc n \<Longrightarrow> take n xs @ [xs ! n] = xs"
  by (metis lessI take_Suc_conv_app_nth take_all order_refl)

lemma find_Some_least:
  "sorted xs \<Longrightarrow> find (\<lambda>s. n \<le> s) xs = Some s \<Longrightarrow> s \<in> set xs \<and> n \<le> s \<and> (\<forall>t\<in>set xs. n \<le> t \<longrightarrow> s \<le> t)"
  by (induction xs) (auto split: if_splits)

end
