(* ===== verification/Crypto.thy ===== *)
theory Crypto
  imports Prelude
begin

text \<open>
  The cryptographic primitives the program calls and does not implement: HMAC-SHA256,
  HKDF-SHA256 (\<open>golang.org/x/crypto/hkdf\<close>) and ChaCha20-Poly1305
  (\<open>golang.org/x/crypto/chacha20poly1305\<close>). They are parameters of the model, the
  fields of a record every definition that needs them takes as an argument. What the
  program relies on is stated by the predicates \<open>hmac_ok\<close>, \<open>hkdf_ok\<close>,
  \<open>aead_ok\<close> and \<open>aead_binds_nonce\<close>; theorems that need one take it as a
  hypothesis, and \<open>demo_crypto\<close> is a concrete record that satisfies them all.
\<close>

record crypto =
  hmac_sha256 :: "bytes \<Rightarrow> bytes \<Rightarrow> bytes"
  hkdf_sha256 :: "bytes \<Rightarrow> bytes \<Rightarrow> bytes \<Rightarrow> nat \<Rightarrow> bytes option"
  aead_seal :: "bytes \<Rightarrow> bytes \<Rightarrow> bytes \<Rightarrow> bytes"
  aead_open :: "bytes \<Rightarrow> bytes \<Rightarrow> bytes \<Rightarrow> bytes option"

text \<open>An HMAC-SHA256 tag has 32 bytes.\<close>

definition hmac_ok :: "crypto \<Rightarrow> bool" where
  "hmac_ok C \<longleftrightarrow> (\<forall>k m. length (hmac_sha256 C k m) = 32)"

text \<open>The HKDF reader delivers any request of up to 255 hash blocks in full (RFC 5869).\<close>

definition hkdf_ok :: "crypto \<Rightarrow> bool" where
  "hkdf_ok C \<longleftrightarrow> (\<forall>ikm salt info n. n \<le> 255 * 32 \<longrightarrow>
     (\<exists>out. hkdf_sha256 C ikm salt info n = Some out \<and> length out = n))"

text \<open>
  The AEAD contract: a sealed plaintext is 16 bytes longer, opens to itself, and nothing
  but the sealing of a plaintext under the same key and nonce opens to it (the cipher is
  deterministic in key, nonce and plaintext, and the tag is recomputed on open).
\<close>

definition aead_ok :: "crypto \<Rightarrow> bool" where
  "aead_ok C \<longleftrightarrow>
     (\<forall>k n p. length (aead_seal C k n p) = length p + 16) \<and>
     (\<forall>k n c p. aead_open C k n c = Some p \<longleftrightarrow> c = aead_seal C k n p)"

text \<open>
  The idealised authenticity of the AEAD with respect to the nonce: a box sealed under
  one 12-byte nonce does not open under another.
\<close>

definition aead_binds_nonce :: "crypto \<Rightarrow> bool" where
  "aead_binds_nonce C \<longleftrightarrow>
     (\<forall>k n n' p. length n = 12 \<longrightarrow> length n' = 12 \<longrightarrow> n \<noteq> n' \<longrightarrow>
        aead_open C k n' (aead_seal C k n p) = None)"

lemma hmac_ok_length: "hmac_ok C \<Longrightarrow> length (hmac_sha256 C k m) = 32"
  by (simp add: hmac_ok_def)

lemma hkdf_okD:
  "hkdf_ok C \<Longrightarrow> n \<le> 8160 \<Longrightarrow> \<exists>out. hkdf_sha256 C ikm salt info n = Some out \<and> length out = n"
  by (simp add: hkdf_ok_def)

lemma aead_seal_length: "aead_ok C \<Longrightarrow> length (aead_seal C k n p) = length p + 16"
  by (simp add: aead_ok_def)

lemma aead_open_iff: "aead_ok C \<Longrightarrow> aead_open C k n c = Some p \<longleftrightarrow> c = aead_seal C k n p"
  by (simp add: aead_ok_def)

lemma aead_open_seal: "aead_ok C \<Longrightarrow> aead_open C k n (aead_seal C k n p) = Some p"
  by (simp add: aead_open_iff)

section \<open>A concrete instance\<close>

definition demo_tag :: "bytes \<Rightarrow> bytes" where
  "demo_tag n = take 16 (n @ replicate 16 0)"

definition demo_crypto :: crypto where
  "demo_crypto =
     \<lparr>hmac_sha256 = (\<lambda>k m. take 32 (rev m @ k @ replicate 32 0)),
      hkdf_sha256 = (\<lambda>ikm salt info n. Some (take n (rev info @ salt @ ikm @ replicate n 0))),
      aead_seal = (\<lambda>k n p. p @ demo_tag n),
      aead_open = (\<lambda>k n c. if 16 \<le> length c \<and> drop (length c - 16) c = demo_tag n
                           then Some (take (length c - 16) c) else None)\<rparr>"

lemma length_demo_tag [simp]: "length (demo_tag n) = 16"
  by (simp add: demo_tag_def)

lemma demo_hmac_ok: "hmac_ok demo_crypto"
  by (auto simp: hmac_ok_def demo_crypto_def min_def)

lemma demo_hkdf_ok: "hkdf_ok demo_crypto"
  by (auto simp: hkdf_ok_def demo_crypto_def min_def)

lemma demo_aead_ok: "aead_ok demo_crypto"
  by (auto simp: aead_ok_def demo_crypto_def) (metis append_take_drop_id)

lemma demo_aead_binds_nonce: "aead_binds_nonce demo_crypto"
  by (auto simp: aead_binds_nonce_def demo_crypto_def demo_tag_def)

end
