(* ===== verification/Frame.thy ===== *)
theory Frame
  imports Crypto
begin

text \<open>
  The frame layer of the server, \<open>cmd/mxtr-server/main.go\<close> lines 48 to 290: the padding
  ladder and the choice of a rung, the buffer pools, and \<open>writeFrame\<close> /
  \<open>readFrame\<close>, which carry one plaintext per AEAD frame
  \<open>[2-byte length][ciphertext and tag]\<close>. Random choices (\<open>math/rand\<close>,
  \<open>crypto/rand\<close>, which pooled buffer \<open>sync.Pool\<close> hands out) are arguments.
\<close>

section \<open>Constants\<close>

definition nonceLen :: nat where "nonceLen = 16"
definition macLen :: nat where "macLen = 16"
definition maxPlaintextSize :: nat where "maxPlaintextSize = 16384 - 2"
definition maxPaddedSize :: nat where "maxPaddedSize = 16384"
definition maxCiphertextLen :: nat where "maxCiphertextLen = maxPaddedSize + 16"

lemmas frame_consts = nonceLen_def macLen_def maxPlaintextSize_def maxPaddedSize_def
  maxCiphertextLen_def

section \<open>The padding ladder\<close>

definition padSizes :: "nat list" where
  "padSizes = [256, 384, 512, 768, 1024, 1536, 2048, 3072, 4096, 6144, 8192, 12288, 16384]"

definition nextPadSize :: "nat \<Rightarrow> nat" where
  "nextPadSize n =
     (case find (\<lambda>s. n \<le> s) padSizes of Some s \<Rightarrow> s | None \<Rightarrow> padSizes ! (length padSizes - 1))"

definition bumpProbability :: "nat \<Rightarrow> nat" where
  "bumpProbability minSize =
     (if minSize < 1024 then 30 else if minSize < 4096 then 18 else 8)"

text \<open>The loop of \<open>pickPadRung\<close>: the rung after \<open>base\<close>, or \<open>base\<close> at the top.\<close>

fun rungAfter :: "nat \<Rightarrow> nat list \<Rightarrow> nat" where
  "rungAfter base (s # t # rest) = (if s = base then t else rungAfter base (t # rest))"
| "rungAfter base _ = base"

text \<open>\<open>roll\<close> is the value of \<open>mrand.IntN(100)\<close>.\<close>

definition pickPadRung :: "nat \<Rightarrow> nat \<Rightarrow> nat" where
  "pickPadRung roll minSize =
     (let base = nextPadSize minSize
      in if bumpProbability minSize \<le> roll then base else rungAfter base padSizes)"

lemma sorted_padSizes: "sorted padSizes"
  by (simp add: padSizes_def)

lemma padSizes_bounds: "s \<in> set padSizes \<Longrightarrow> 256 \<le> s \<and> s \<le> maxPaddedSize"
  by (auto simp: padSizes_def maxPaddedSize_def)

lemma nextPadSize_cases:
  assumes "n \<le> maxPaddedSize"
  shows "nextPadSize n \<in> set padSizes \<and> n \<le> nextPadSize n \<and>
         (\<forall>t\<in>set padSizes. n \<le> t \<longrightarrow> nextPadSize n \<le> t)"
proof -
  have "\<exists>s. find (\<lambda>s. n \<le> s) padSizes = Some s"
    using assms by (simp add: padSizes_def maxPaddedSize_def)
  then obtain s where s: "find (\<lambda>s. n \<le> s) padSizes = Some s" ..
  then show ?thesis
    using find_Some_least [OF sorted_padSizes s] by (simp add: nextPadSize_def)
qed

lemma nextPadSize_mem: "nextPadSize n \<in> set padSizes"
proof (cases "find (\<lambda>s. n \<le> s) padSizes")
  case None
  then show ?thesis by (simp add: nextPadSize_def padSizes_def)
next
  case (Some s)
  then show ?thesis
    using find_Some_least [OF sorted_padSizes Some] by (simp add: nextPadSize_def)
qed

lemma rungAfter_ladder: "b \<in> set xs \<Longrightarrow> rungAfter b xs \<in> set xs"
  by (induction b xs rule: rungAfter.induct) auto

lemma rungAfter_ge: "sorted xs \<Longrightarrow> b \<le> rungAfter b xs"
  by (induction b xs rule: rungAfter.induct) auto

lemma pickPadRung_mem: "pickPadRung roll n \<in> set padSizes"
  by (simp add: pickPadRung_def Let_def nextPadSize_mem rungAfter_ladder)

lemma pickPadRung_ge: "n \<le> maxPaddedSize \<Longrightarrow> n \<le> pickPadRung roll n"
  using nextPadSize_cases [of n] rungAfter_ge [OF sorted_padSizes, of "nextPadSize n"]
  by (auto simp: pickPadRung_def Let_def)

section \<open>Buffer pools\<close>

text \<open>
  \<open>innerPools\<close> and \<open>ctPools\<close> hold free buffers, one pool per ladder rung (plus 16
  for the ciphertexts). \<open>sync.Pool.Get\<close> may hand out any pooled buffer or a new zeroed
  one: \<open>pick\<close> is its choice. A size outside the ladder is always freshly allocated.
\<close>

type_synonym pool = "nat \<Rightarrow> bytes list"

record bufpools =
  innerPools :: pool
  ctPools :: pool

definition poolGet :: "nat set \<Rightarrow> nat \<Rightarrow> nat \<Rightarrow> pool \<Rightarrow> bytes \<times> pool" where
  "poolGet rungs pick sz p =
     (if sz \<in> rungs \<and> pick < length (p sz)
      then (p sz ! pick, p(sz := take pick (p sz) @ drop (Suc pick) (p sz)))
      else (replicate sz 0, p))"

definition poolPut :: "nat set \<Rightarrow> bytes \<Rightarrow> pool \<Rightarrow> pool" where
  "poolPut rungs buf p =
     (if length buf \<in> rungs then p(length buf := buf # p (length buf)) else p)"

definition getInnerBuf :: "nat \<Rightarrow> nat \<Rightarrow> bufpools \<Rightarrow> bytes \<times> bufpools" where
  "getInnerBuf pick sz ps =
     (let (b, p) = poolGet (set padSizes) pick sz (innerPools ps) in (b, ps\<lparr>innerPools := p\<rparr>))"

definition putInnerBuf :: "bytes \<Rightarrow> bufpools \<Rightarrow> bufpools" where
  "putInnerBuf buf ps = ps\<lparr>innerPools := poolPut (set padSizes) buf (innerPools ps)\<rparr>"

definition getCtBuf :: "nat \<Rightarrow> nat \<Rightarrow> bufpools \<Rightarrow> bytes \<times> bufpools" where
  "getCtBuf pick sz ps =
     (let (b, p) = poolGet ((\<lambda>s. s + 16) ` set padSizes) pick sz (ctPools ps)
      in (b, ps\<lparr>ctPools := p\<rparr>))"

definition putCtBuf :: "bytes \<Rightarrow> bufpools \<Rightarrow> bufpools" where
  "putCtBuf buf ps =
     ps\<lparr>ctPools := poolPut ((\<lambda>s. s + 16) ` set padSizes) buf (ctPools ps)\<rparr>"

text \<open>Every pooled buffer has exactly the size of its pool.\<close>

definition pool_ok :: "pool \<Rightarrow> bool" where
  "pool_ok p \<longleftrightarrow> (\<forall>s. \<forall>b\<in>set (p s). length b = s)"

definition pools_ok :: "bufpools \<Rightarrow> bool" where
  "pools_ok ps \<longleftrightarrow> pool_ok (innerPools ps) \<and> pool_ok (ctPools ps)"

definition empty_pools :: bufpools where
  "empty_pools = \<lparr>innerPools = (\<lambda>_. []), ctPools = (\<lambda>_. [])\<rparr>"

lemma pools_ok_empty [simp]: "pools_ok empty_pools"
  by (simp add: pools_ok_def pool_ok_def empty_pools_def)

lemma pool_okD: "pool_ok p \<Longrightarrow> b \<in> set (p s) \<Longrightarrow> length b = s"
  by (simp add: pool_ok_def)

lemma pool_ok_upd:
  "pool_ok p \<Longrightarrow> (\<And>b. b \<in> set bs \<Longrightarrow> length b = s) \<Longrightarrow> pool_ok (p(s := bs))"
  by (simp add: pool_ok_def)

lemma poolGet_sound:
  assumes "pool_ok p" and "poolGet rungs pick sz p = (b, p')"
  shows "length b = sz \<and> pool_ok p'"
proof (cases "sz \<in> rungs \<and> pick < length (p sz)")
  case True
  have "pool_ok (p(sz := take pick (p sz) @ drop (Suc pick) (p sz)))"
    using assms(1) by (rule pool_ok_upd)
      (use pool_okD [OF assms(1)] in \<open>auto dest: in_set_takeD in_set_dropD\<close>)
  moreover have "length (p sz ! pick) = sz"
    using True pool_okD [OF assms(1)] nth_mem by blast
  ultimately show ?thesis using True assms(2) by (auto simp: poolGet_def)
next
  case False
  then show ?thesis using assms by (auto simp: poolGet_def)
qed

lemma poolPut_sound: "pool_ok p \<Longrightarrow> pool_ok (poolPut rungs buf p)"
  by (auto simp: poolPut_def intro!: pool_ok_upd dest: pool_okD)

lemma getInnerBuf_sound:
  "pools_ok ps \<Longrightarrow> getInnerBuf pick sz ps = (b, ps') \<Longrightarrow> length b = sz \<and> pools_ok ps'"
  by (auto simp: getInnerBuf_def pools_ok_def split: prod.splits dest: poolGet_sound)

lemma getCtBuf_sound:
  "pools_ok ps \<Longrightarrow> getCtBuf pick sz ps = (b, ps') \<Longrightarrow> length b = sz \<and> pools_ok ps'"
  by (auto simp: getCtBuf_def pools_ok_def split: prod.splits dest: poolGet_sound)

lemma putInnerBuf_sound: "pools_ok ps \<Longrightarrow> pools_ok (putInnerBuf buf ps)"
  by (simp add: putInnerBuf_def pools_ok_def poolPut_sound)

lemma putCtBuf_sound: "pools_ok ps \<Longrightarrow> pools_ok (putCtBuf buf ps)"
  by (simp add: putCtBuf_def pools_ok_def poolPut_sound)

section \<open>Frames\<close>

datatype frame_error =
    PlaintextTooLarge nat
  | RandFailed
  | WriteFailed
  | ReadFailed io_error
  | InvalidCiphertextLength nat
  | DecryptFailed u64
  | MissingLengthPrefix
  | RealLenExceeds nat nat

definition frameNonce :: "u64 \<Rightarrow> bytes" where
  "frameNonce seq = copyAt 4 (putBE 8 (unat seq)) (replicate 12 0)"

text \<open>
  What one call of \<open>writeFrame\<close> draws: the rung roll, the pooled buffers it is given,
  and the padding bytes (\<open>None\<close>: \<open>rand.Read\<close> failed).
\<close>

record wrand =
  roll :: nat
  innerPick :: nat
  ctPick :: nat
  padding :: "(nat \<Rightarrow> byte) option"

definition writeFrame ::
  "crypto \<Rightarrow> wrand \<Rightarrow> writer \<Rightarrow> bytes \<Rightarrow> u64 \<Rightarrow> bytes \<Rightarrow> bufpools
     \<Rightarrow> frame_error option \<times> writer \<times> bufpools" where
  "writeFrame C R w key seq pt ps =
     (if maxPlaintextSize < length pt then (Some (PlaintextTooLarge (length pt)), w, ps)
      else
        let innerSize = pickPadRung (roll R) (length pt + 2);
            (inner0, ps1) = getInnerBuf (innerPick R) innerSize ps;
            inner1 = copyAt 0 (putBE 2 (length pt)) inner0;
            inner2 = copyAt 2 pt inner1
        in case padding R of
             None \<Rightarrow> (Some RandFailed, w, putInnerBuf inner2 ps1)
           | Some rnd \<Rightarrow>
               let inner = copyAt (2 + length pt) (map rnd [0..<innerSize - (2 + length pt)]) inner2;
                   nonce = frameNonce seq;
                   (ctBuf, ps2) = getCtBuf (ctPick R) (innerSize + 16) ps1;
                   ct = aead_seal C key nonce inner;
                   ps3 = putInnerBuf inner (putCtBuf (copyAt 0 ct ctBuf) ps2);
                   lenBuf = putBE 2 (length ct);
                   (ok1, w1) = writeConn w lenBuf
               in if \<not> ok1 then (Some WriteFailed, w1, ps3)
                  else let (ok2, w2) = writeConn w1 ct
                       in (if ok2 then None else Some WriteFailed, w2, ps3))"

definition readFrame ::
  "crypto \<Rightarrow> reader \<Rightarrow> bytes \<Rightarrow> u64 \<Rightarrow> (frame_error + bytes) \<times> reader" where
  "readFrame C r key seq =
     (case readFull 2 r of
        (Some e, _, r1) \<Rightarrow> (Inl (ReadFailed e), r1)
      | (None, lenBuf, r1) \<Rightarrow>
          let clen = getBE lenBuf
          in if clen = 0 \<or> maxCiphertextLen < clen then (Inl (InvalidCiphertextLength clen), r1)
             else case readFull clen r1 of
                    (Some e, _, r2) \<Rightarrow> (Inl (ReadFailed e), r2)
                  | (None, ct, r2) \<Rightarrow>
                      (case aead_open C key (frameNonce seq) ct of
                         None \<Rightarrow> (Inl (DecryptFailed seq), r2)
                       | Some inner \<Rightarrow>
                           if length inner < 2 then (Inl MissingLengthPrefix, r2)
                           else let realLen = getBE (take 2 inner)
                                in if length inner - 2 < realLen
                                   then (Inl (RealLenExceeds realLen (length inner - 2)), r2)
                                   else (Inr (take realLen (drop 2 inner)), r2)))"

section \<open>The bytes a frame puts on the wire\<close>

text \<open>
  The specification of a frame, free of buffers and pools: the inner plaintext is the
  2-byte real length, the payload and random padding up to the rung.
\<close>

definition innerFrame :: "nat \<Rightarrow> (nat \<Rightarrow> byte) \<Rightarrow> bytes \<Rightarrow> bytes" where
  "innerFrame rung rnd pt =
     putBE 2 (length pt) @ pt @ map rnd [0..<rung - (2 + length pt)]"

definition frameBytes :: "crypto \<Rightarrow> nat \<Rightarrow> (nat \<Rightarrow> byte) \<Rightarrow> bytes \<Rightarrow> u64 \<Rightarrow> bytes \<Rightarrow> bytes" where
  "frameBytes C r rnd key seq pt =
     (let ct = aead_seal C key (frameNonce seq) (innerFrame (pickPadRung r (length pt + 2)) rnd pt)
      in putBE 2 (length ct) @ ct)"

lemma frameNonce_eq: "frameNonce seq = replicate 4 0 @ putBE 8 (unat seq)"
  by (simp only: frameNonce_def copyAt_def length_putBE length_replicate take_replicate
      drop_replicate) simp

lemma length_frameNonce [simp]: "length (frameNonce seq) = 12"
  by (simp add: frameNonce_def)

lemma frameNonce_inj: "frameNonce a = frameNonce b \<Longrightarrow> a = b"
proof -
  have b: "unat (x :: u64) < 256 ^ 8" for x
    using unsigned_less [of x] by simp
  assume "frameNonce a = frameNonce b"
  then have "putBE 8 (unat a) = putBE 8 (unat b)"
    by (simp only: frameNonce_eq same_append_eq)
  then have "unat a = unat b" using putBE_inj [OF b b] by blast
  then show ?thesis by (simp add: word_unat_eq_iff)
qed

lemma filled_buffer:
  assumes "length buf = rung" and "2 + length pt \<le> rung"
  shows "copyAt (2 + length pt) (map rnd [0..<rung - (2 + length pt)])
           (copyAt 2 pt (copyAt 0 (putBE 2 (length pt)) buf)) = innerFrame rung rnd pt"
  using assms by (simp add: copyAt_def innerFrame_def min_def)

lemma length_innerFrame [simp]:
  "2 + length pt \<le> rung \<Longrightarrow> length (innerFrame rung rnd pt) = rung"
  by (simp add: innerFrame_def)

lemma rung_fits: "length pt \<le> maxPlaintextSize \<Longrightarrow> 2 + length pt \<le> pickPadRung r (length pt + 2)"
  using pickPadRung_ge [of "length pt + 2" r] by (simp add: frame_consts)

lemma rung_max: "pickPadRung r n \<le> 16384"
  using padSizes_bounds [OF pickPadRung_mem] by (simp add: maxPaddedSize_def)

lemma frameBytes_shape:
  assumes "aead_ok C" and "length pt \<le> maxPlaintextSize"
  shows "length (aead_seal C key n (innerFrame (pickPadRung r (length pt + 2)) rnd pt))
           = pickPadRung r (length pt + 2) + 16"
  using assms by (simp add: aead_seal_length rung_fits)

text \<open>On any connection it appends a prefix of it, and the whole of it when it reports success.\<close>

definition writeTwo :: "writer \<Rightarrow> bytes \<Rightarrow> bytes \<Rightarrow> bool \<times> writer" where
  "writeTwo w a b = (let (ok1, w1) = writeConn w a in if ok1 then writeConn w1 b else (False, w1))"

lemma writeTwo_outcome:
  assumes "writeTwo w a b = (ok, w')"
  shows "if ok then wout w' = wout w @ a @ b else \<exists>k. wout w' = wout w @ take k (a @ b)"
proof -
  obtain ok1 w1 where w1: "writeConn w a = (ok1, w1)" by fastforce
  show ?thesis
  proof (cases ok1)
    case True
    with assms w1 have w2: "writeConn w1 b = (ok, w')" by (simp add: writeTwo_def)
    from True w1 have o1: "wout w1 = wout w @ a" using writeConn_ok by simp
    show ?thesis
    proof (cases ok)
      case True
      with w2 o1 show ?thesis using writeConn_ok by simp
    next
      case False
      from writeConn_prefix [OF w2] obtain k where "wout w' = wout w1 @ take k b" ..
      then have "\<exists>k. wout w' = wout w @ take k (a @ b)"
        using o1 by (intro exI [of _ "length a + k"]) simp
      with False show ?thesis by (simp only: if_False)
    qed
  next
    case False
    with assms w1 have "\<not> ok" and w': "w' = w1" by (auto simp: writeTwo_def)
    from writeConn_prefix [OF w1] obtain k where "wout w1 = wout w @ take k a" ..
    then have "\<exists>k. wout w1 = wout w @ take k (a @ b)"
      by (intro exI [of _ "min k (length a)"]) (simp add: min_def)
    with \<open>\<not> ok\<close> w' show ?thesis by (simp only: if_False)
  qed
qed

lemma writeFrame_eq:
  fixes C key seq
  assumes "pools_ok ps" and "length pt \<le> maxPlaintextSize" and "padding R = Some rnd"
  defines "ct \<equiv> aead_seal C key (frameNonce seq)
                  (innerFrame (pickPadRung (roll R) (length pt + 2)) rnd pt)"
  shows "\<exists>ps'. pools_ok ps' \<and> writeFrame C R w key seq pt ps =
           (let (ok, w') = writeTwo w (putBE 2 (length ct)) ct
            in (if ok then None else Some WriteFailed, w', ps'))"
proof -
  let ?rung = "pickPadRung (roll R) (length pt + 2)"
  obtain b ps1 where g: "getInnerBuf (innerPick R) ?rung ps = (b, ps1)" by fastforce
  obtain c ps2 where h: "getCtBuf (ctPick R) (?rung + 16) ps1 = (c, ps2)" by fastforce
  from getInnerBuf_sound [OF assms(1) g] have b: "length b = ?rung" and p1: "pools_ok ps1"
    by auto
  from getCtBuf_sound [OF p1 h] have p2: "pools_ok ps2" by blast
  note fill = filled_buffer [OF b rung_fits [OF assms(2)], of rnd]
  let ?ps = "putInnerBuf (innerFrame ?rung rnd pt) (putCtBuf (copyAt 0 ct c) ps2)"
  have "writeFrame C R w key seq pt ps =
          (let (ok, w') = writeTwo w (putBE 2 (length ct)) ct
           in (if ok then None else Some WriteFailed, w', ?ps))"
    using assms(2,3)
    by (simp add: writeFrame_def Let_def g h fill writeTwo_def ct_def split: prod.splits)
  moreover have "pools_ok ?ps" using p2 by (simp add: putInnerBuf_sound putCtBuf_sound)
  ultimately show ?thesis by blast
qed

lemma writeFrame_outcome:
  assumes "pools_ok ps" and "length pt \<le> maxPlaintextSize" and "padding R = Some rnd"
    and wf: "writeFrame C R w key seq pt ps = (e, w', ps')"
  shows "pools_ok ps'"
    and "e = None \<Longrightarrow> wout w' = wout w @ frameBytes C (roll R) rnd key seq pt"
    and "e \<noteq> None \<Longrightarrow> e = Some WriteFailed \<and>
           (\<exists>k. wout w' = wout w @ take k (frameBytes C (roll R) rnd key seq pt))"
proof -
  let ?ct = "aead_seal C key (frameNonce seq)
               (innerFrame (pickPadRung (roll R) (length pt + 2)) rnd pt)"
  obtain ok v where v: "writeTwo w (putBE 2 (length ?ct)) ?ct = (ok, v)" by fastforce
  from writeFrame_eq [OF assms(1-3), of C w key seq] wf v
  have r: "pools_ok ps'" "w' = v" "e = (if ok then None else Some WriteFailed)" by auto
  have fb: "frameBytes C (roll R) rnd key seq pt = putBE 2 (length ?ct) @ ?ct"
    by (simp add: frameBytes_def Let_def)
  show "pools_ok ps'" by (rule r)
  show "wout w' = wout w @ frameBytes C (roll R) rnd key seq pt" if "e = None"
    using writeTwo_outcome [OF v] that r fb by (simp split: if_splits)
  show "e = Some WriteFailed \<and>
      (\<exists>k. wout w' = wout w @ take k (frameBytes C (roll R) rnd key seq pt))" if "e \<noteq> None"
    using writeTwo_outcome [OF v] that r fb by (simp split: if_splits)
qed

lemma writeFrame_unbroken:
  assumes "pools_ok ps" and "length pt \<le> maxPlaintextSize" and "padding R = Some rnd"
    and "wbreak w = None"
  shows "\<exists>ps'. pools_ok ps' \<and> writeFrame C R w key seq pt ps =
           (None, w\<lparr>wout := wout w @ frameBytes C (roll R) rnd key seq pt\<rparr>, ps')"
  using writeFrame_eq [OF assms(1-3), of C w key seq] assms(4)
  by (auto simp: writeTwo_def writeConn_unbroken frameBytes_def Let_def)

section \<open>Reading back what was written\<close>

lemma readFrame_frameBytes:
  assumes "aead_ok C" and "length pt \<le> maxPlaintextSize"
  shows "readFrame C \<lparr>inbuf = frameBytes C r rnd key seq pt @ rest, rend = e\<rparr> key seq
           = (Inr pt, \<lparr>inbuf = rest, rend = e\<rparr>)"
proof -
  let ?rung = "pickPadRung r (length pt + 2)"
  let ?inner = "innerFrame ?rung rnd pt"
  let ?ct = "aead_seal C key (frameNonce seq) ?inner"
  have len: "length ?ct = ?rung + 16" using assms by (rule frameBytes_shape)
  have clen: "getBE (putBE 2 (length ?ct)) = ?rung + 16"
    using rung_max [of r "length pt + 2"] by (simp only: len) (rule getBE_putBE_small, simp)
  have "length pt < 256 ^ 2" using assms(2) by (simp add: frame_consts)
  then have real: "getBE (take 2 ?inner) = length pt"
    by (simp add: innerFrame_def getBE_putBE_small)
  have body: "take (length pt) (drop 2 ?inner) = pt" by (simp add: innerFrame_def)
  have li: "length ?inner = ?rung" using rung_fits [OF assms(2)] by simp
  have "inbuf \<lparr>inbuf = frameBytes C r rnd key seq pt @ rest, rend = e\<rparr>
          = putBE 2 (length ?ct) @ (?ct @ rest)"
    by (simp add: frameBytes_def Let_def)
  then have r1: "readFull 2 \<lparr>inbuf = frameBytes C r rnd key seq pt @ rest, rend = e\<rparr>
      = (None, putBE 2 (length ?ct), \<lparr>inbuf = ?ct @ rest, rend = e\<rparr>)"
    by (simp add: readFull_None_iff)
  have r2: "readFull (?rung + 16) \<lparr>inbuf = ?ct @ rest, rend = e\<rparr> = (None, ?ct, \<lparr>inbuf = rest, rend = e\<rparr>)"
    using len by (simp add: readFull_None_iff)
  show ?thesis
    using rung_max [of r "length pt + 2"] rung_fits [OF assms(2), of r]
    by (simp add: readFrame_def r1 clen r2 aead_open_seal [OF assms(1)] li real body
        maxCiphertextLen_def maxPaddedSize_def Let_def)
qed


text \<open>Whatever \<open>readFrame\<close> returns was sealed under this key and this sequence number.\<close>

lemma readFrame_authentic:
  assumes "aead_ok C" and rf: "readFrame C r key seq = (Inr pt, r')"
  shows "\<exists>junk ct. ct = aead_seal C key (frameNonce seq) (putBE 2 (length pt) @ pt @ junk) \<and>
           inbuf r = putBE 2 (length ct) @ ct @ inbuf r' \<and> rend r' = rend r"
proof -
  obtain e1 lb r1 where rd1: "readFull 2 r = (e1, lb, r1)" by (metis prod_cases3)
  with rf have e1: "e1 = None" by (cases e1) (auto simp: readFrame_def)
  obtain e2 ct r2 where rd2: "readFull (getBE lb) r1 = (e2, ct, r2)" by (metis prod_cases3)
  from rf rd1 e1 rd2 have e2: "e2 = None"
    by (cases e2) (auto simp: readFrame_def Let_def split: if_splits)
  from rf rd1 e1 rd2 e2 obtain inner where
    op: "aead_open C key (frameNonce seq) ct = Some inner" and l2: "2 \<le> length inner" and
    fit: "getBE (take 2 inner) \<le> length inner - 2" and
    pt: "pt = take (getBE (take 2 inner)) (drop 2 inner)" and r': "r' = r2"
    by (auto simp: readFrame_def Let_def split: if_splits option.splits)
  have lpt: "length pt = getBE (take 2 inner)" using fit pt by simp
  have "putBE 2 (length pt) = take 2 inner" unfolding lpt using l2 by (intro putBE_getBE_eq) simp
  then have inner: "inner = putBE 2 (length pt) @ pt @ drop (length pt) (drop 2 inner)"
    using pt lpt by (metis append_take_drop_id)
  from op have ct: "ct = aead_seal C key (frameNonce seq) inner" by (simp add: aead_open_iff assms(1))
  from rd1 e1 rd2 e2 have "length lb = 2" "length ct = getBE lb"
    and i: "inbuf r = lb @ ct @ inbuf r2" "rend r2 = rend r"
    by (auto simp: readFull_None_iff)
  then have "putBE 2 (length ct) = lb" by (simp add: putBE_getBE_eq)
  with i r' ct inner show ?thesis by metis
qed

text \<open>A frame sealed for another sequence number is rejected, wherever it came from.\<close>

lemma readFrame_wrong_seq:
  assumes "aead_ok C" and "aead_binds_nonce C" and "length pt \<le> maxPlaintextSize" and "seq \<noteq> seq'"
  shows "readFrame C \<lparr>inbuf = frameBytes C r rnd key seq pt @ rest, rend = e\<rparr> key seq'
           = (Inl (DecryptFailed seq'), \<lparr>inbuf = rest, rend = e\<rparr>)"
proof -
  let ?rung = "pickPadRung r (length pt + 2)"
  let ?ct = "aead_seal C key (frameNonce seq) (innerFrame ?rung rnd pt)"
  have len: "length ?ct = ?rung + 16" using assms(1,3) by (rule frameBytes_shape)
  have clen: "getBE (putBE 2 (length ?ct)) = ?rung + 16"
    using rung_max [of r "length pt + 2"] by (simp only: len) (rule getBE_putBE_small, simp)
  have r1: "readFull 2 \<lparr>inbuf = frameBytes C r rnd key seq pt @ rest, rend = e\<rparr>
      = (None, putBE 2 (length ?ct), \<lparr>inbuf = ?ct @ rest, rend = e\<rparr>)"
    by (simp add: readFull_None_iff frameBytes_def Let_def)
  have r2: "readFull (?rung + 16) \<lparr>inbuf = ?ct @ rest, rend = e\<rparr> = (None, ?ct, \<lparr>inbuf = rest, rend = e\<rparr>)"
    using len by (simp add: readFull_None_iff)
  have "frameNonce seq \<noteq> frameNonce seq'" using assms(4) frameNonce_inj by blast
  then have "aead_open C key (frameNonce seq') ?ct = None"
    using assms(2) by (simp add: aead_binds_nonce_def)
  then show ?thesis
    using rung_max [of r "length pt + 2"]
    by (simp add: readFrame_def r1 clen r2 maxCiphertextLen_def maxPaddedSize_def Let_def)
qed

section \<open>Sequences of frames\<close>

text \<open>
  The interface the session layers use: an encoder and a decoder of single frames, each
  bound to a sequence number. A side sends its frames with consecutive numbers
  (\<open>encAll\<close>) and the peer reads them with its own counter (\<open>decAll\<close>).
\<close>

fun encAll :: "('r \<Rightarrow> u64 \<Rightarrow> bytes \<Rightarrow> bytes) \<Rightarrow> u64 \<Rightarrow> ('r \<times> bytes) list \<Rightarrow> bytes" where
  "encAll enc seq [] = []"
| "encAll enc seq ((r, pt) # fs) = enc r seq pt @ encAll enc (seq + 1) fs"

fun decAll :: "(reader \<Rightarrow> u64 \<Rightarrow> ('e + bytes) \<times> reader) \<Rightarrow> u64 \<Rightarrow> nat \<Rightarrow> reader
                 \<Rightarrow> bytes list \<times> 'e option \<times> reader" where
  "decAll dec seq 0 r = ([], None, r)"
| "decAll dec seq (Suc n) r =
     (case dec r seq of
        (Inl e, r1) \<Rightarrow> ([], Some e, r1)
      | (Inr pt, r1) \<Rightarrow> (let (pts, e, r2) = decAll dec (seq + 1) n r1 in (pt # pts, e, r2)))"

lemma encAll_append:
  "encAll enc seq (fs @ gs) = encAll enc seq fs @ encAll enc (seq + word_of_nat (length fs)) gs"
proof (induction fs arbitrary: seq)
  case Nil
  then show ?case by simp
next
  case (Cons f fs)
  then show ?case by (cases f) (simp add: add.assoc)
qed

lemma encAll_snoc:
  "encAll enc seq (fs @ [(r, pt)]) = encAll enc seq fs @ enc r (seq + word_of_nat (length fs)) pt"
  by (simp add: encAll_append)

locale frame_codec =
  fixes enc :: "'c \<Rightarrow> 'r \<Rightarrow> u64 \<Rightarrow> bytes \<Rightarrow> bytes"
    and dec :: "'c \<Rightarrow> reader \<Rightarrow> u64 \<Rightarrow> ('e + bytes) \<times> reader"
    and ok :: "'c \<Rightarrow> bool"
    and maxlen :: nat
  assumes dec_enc: "ok c \<Longrightarrow> length pt \<le> maxlen \<Longrightarrow>
      dec c \<lparr>inbuf = enc c r seq pt @ rest, rend = e\<rparr> seq = (Inr pt, \<lparr>inbuf = rest, rend = e\<rparr>)"
begin

lemma dec_all:
  "ok c \<Longrightarrow> (\<And>r pt. (r, pt) \<in> set fs \<Longrightarrow> length pt \<le> maxlen) \<Longrightarrow>
   decAll (dec c) seq (length fs) \<lparr>inbuf = encAll (enc c) seq fs @ rest, rend = e\<rparr>
     = (map snd fs, None, \<lparr>inbuf = rest, rend = e\<rparr>)"
proof (induction fs arbitrary: seq)
  case Nil
  then show ?case by simp
next
  case (Cons f fs)
  obtain r pt where f: "f = (r, pt)" by fastforce
  with Cons.prems have "length pt \<le> maxlen" by auto
  with Cons.prems(1) have "dec c \<lparr>inbuf = enc c r seq pt @ encAll (enc c) (seq + 1) fs @ rest, rend = e\<rparr> seq
      = (Inr pt, \<lparr>inbuf = encAll (enc c) (seq + 1) fs @ rest, rend = e\<rparr>)"
    by (rule dec_enc)
  moreover have "decAll (dec c) (seq + 1) (length fs)
        \<lparr>inbuf = encAll (enc c) (seq + 1) fs @ rest, rend = e\<rparr>
      = (map snd fs, None, \<lparr>inbuf = rest, rend = e\<rparr>)"
    using Cons.prems by (intro Cons.IH) auto
  ultimately show ?case by (simp add: f)
qed

end

locale sequenced_codec = frame_codec enc dec ok maxlen
  for enc :: "'c \<Rightarrow> 'r \<Rightarrow> u64 \<Rightarrow> bytes \<Rightarrow> bytes"
    and dec :: "'c \<Rightarrow> reader \<Rightarrow> u64 \<Rightarrow> ('e + bytes) \<times> reader"
    and ok :: "'c \<Rightarrow> bool"
    and maxlen :: nat +
  fixes wrong :: "u64 \<Rightarrow> 'e"
  assumes dec_wrong: "ok c \<Longrightarrow> length pt \<le> maxlen \<Longrightarrow> seq \<noteq> seq' \<Longrightarrow>
      fst (dec c \<lparr>inbuf = enc c r seq pt @ rest, rend = e\<rparr> seq') = Inl (wrong seq')"
begin

text \<open>
  If after the frames \<open>fs\<close> the wire goes on with a frame that carries any other number
  than the next one (a replayed, reordered or foreign frame, or the frame after a dropped
  one), the reader has delivered exactly \<open>fs\<close> and fails.
\<close>

lemma dec_all_wrong:
  "ok c \<Longrightarrow> (\<And>r pt. (r, pt) \<in> set fs \<Longrightarrow> length pt \<le> maxlen) \<Longrightarrow> length bad \<le> maxlen \<Longrightarrow>
   s' \<noteq> seq + word_of_nat (length fs) \<Longrightarrow>
   \<exists>r'. decAll (dec c) seq (length fs + Suc n)
          \<lparr>inbuf = encAll (enc c) seq fs @ enc c rb s' bad @ rest, rend = e\<rparr>
     = (map snd fs, Some (wrong (seq + word_of_nat (length fs))), r')"
proof (induction fs arbitrary: seq)
  case Nil
  then show ?case
    using dec_wrong [of c bad s' seq rb rest e]
    by (auto simp: split: prod.splits sum.splits)
next
  case (Cons f fs)
  obtain r pt where f: "f = (r, pt)" by fastforce
  with Cons.prems have "length pt \<le> maxlen" by auto
  let ?rest = "encAll (enc c) (seq + 1) fs @ enc c rb s' bad @ rest"
  from Cons.prems(1) \<open>length pt \<le> maxlen\<close>
  have d: "dec c \<lparr>inbuf = enc c r seq pt @ ?rest, rend = e\<rparr> seq = (Inr pt, \<lparr>inbuf = ?rest, rend = e\<rparr>)"
    by (rule dec_enc)
  have "\<exists>r'. decAll (dec c) (seq + 1) (length fs + Suc n) \<lparr>inbuf = ?rest, rend = e\<rparr>
      = (map snd fs, Some (wrong (seq + 1 + word_of_nat (length fs))), r')"
    using Cons.prems by (intro Cons.IH) (auto simp: add.assoc)
  with d show ?case by (auto simp: f add.assoc)
qed

end

definition srvEnc :: "crypto \<times> bytes \<Rightarrow> nat \<times> (nat \<Rightarrow> byte) \<Rightarrow> u64 \<Rightarrow> bytes \<Rightarrow> bytes" where
  "srvEnc ck rr seq pt = frameBytes (fst ck) (fst rr) (snd rr) (snd ck) seq pt"

definition srvDec :: "crypto \<times> bytes \<Rightarrow> reader \<Rightarrow> u64 \<Rightarrow> (frame_error + bytes) \<times> reader" where
  "srvDec ck r seq = readFrame (fst ck) r (snd ck) seq"

interpretation srv: frame_codec srvEnc srvDec "\<lambda>ck. aead_ok (fst ck)" maxPlaintextSize
  by unfold_locales (simp add: srvEnc_def srvDec_def readFrame_frameBytes)

interpretation srvq: sequenced_codec srvEnc srvDec
  "\<lambda>ck. aead_ok (fst ck) \<and> aead_binds_nonce (fst ck)" maxPlaintextSize DecryptFailed
  by unfold_locales
    (simp_all add: srvEnc_def srvDec_def readFrame_frameBytes readFrame_wrong_seq)

section \<open>Properties\<close>

text \<open>C9. On an intact connection \<open>writeFrame\<close> puts a length and a ciphertext on the wire whose plaintext
  size is a rung of the padding ladder, whatever the pools hold, and \<open>readFrame\<close> with the same key and
  sequence number gets the payload back and consumes exactly these bytes.\<close>

theorem frame_roundtrip:
  assumes "aead_ok C" and "pools_ok ps" and "length pt \<le> maxPlaintextSize" and "padding R = Some rnd"
    and "wbreak w = None"
  shows "\<exists>ct ps'. writeFrame C R w key seq pt ps = (None, w\<lparr>wout := wout w @ putBE 2 (length ct) @ ct\<rparr>, ps') \<and>
     pools_ok ps' \<and> length ct - 16 \<in> set padSizes \<and> length pt + 2 \<le> length ct - 16 \<and>
     readFrame C \<lparr>inbuf = (putBE 2 (length ct) @ ct) @ rest, rend = e\<rparr> key seq = (Inr pt, \<lparr>inbuf = rest, rend = e\<rparr>)"
proof -
  let ?ct = "aead_seal C key (frameNonce seq) (innerFrame (pickPadRung (roll R) (length pt + 2)) rnd pt)"
  have fb: "frameBytes C (roll R) rnd key seq pt = putBE 2 (length ?ct) @ ?ct" by (simp add: frameBytes_def Let_def)
  have "length ?ct = pickPadRung (roll R) (length pt + 2) + 16" by (rule frameBytes_shape [OF assms(1,3)])
  with writeFrame_unbroken [OF assms(2-5), of C key seq] readFrame_frameBytes [OF assms(1,3), of "roll R" rnd key seq]
    pickPadRung_mem [of "roll R" "length pt + 2"] rung_fits [OF assms(3), of "roll R"]
  show ?thesis unfolding fb by (intro exI [of _ ?ct]) auto
qed

theorem frame_roundtrip_witness:
  "\<exists>ct ps'. writeFrame demo_crypto \<lparr>roll = 0, innerPick = 0, ctPick = 0, padding = Some (\<lambda>_. 7)\<rparr>
       \<lparr>wout = [], wbreak = None\<rparr> [] 1 [1, 2, 3] empty_pools
     = (None, \<lparr>wout = putBE 2 (length ct) @ ct, wbreak = None\<rparr>, ps') \<and>
     readFrame demo_crypto \<lparr>inbuf = putBE 2 (length ct) @ ct, rend = EOF\<rparr> [] 1 = (Inr [1, 2, 3], \<lparr>inbuf = [], rend = EOF\<rparr>)"
  using frame_roundtrip [OF demo_aead_ok, of empty_pools "[1, 2, 3]"
      "\<lparr>roll = 0, innerPick = 0, ctPick = 0, padding = Some (\<lambda>_. 7)\<rparr>" "\<lambda>_. 7" "\<lparr>wout = [], wbreak = None\<rparr>" "[]" 1 "[]" EOF]
  by (simp add: maxPlaintextSize_def maxPaddedSize_def) blast

text \<open>C29. A peer that reads with consecutive sequence numbers delivers the frames in order; as soon as the wire
  goes on with a frame sealed under any other number (replayed, reordered, or following a dropped one), it has
  delivered exactly the frames before it and stops with a decryption error.\<close>

theorem frames_in_order_or_error:
  assumes "aead_ok C" and "aead_binds_nonce C" and "\<forall>f\<in>set fs. length (snd f) \<le> maxPlaintextSize"
    and "length bad \<le> maxPlaintextSize" and "s' \<noteq> seq + word_of_nat (length fs)"
  shows "decAll (srvDec (C, key)) seq (length fs) \<lparr>inbuf = encAll (srvEnc (C, key)) seq fs @ rest, rend = e\<rparr>
           = (map snd fs, None, \<lparr>inbuf = rest, rend = e\<rparr>) \<and>
         (\<exists>r'. decAll (srvDec (C, key)) seq (length fs + Suc n)
                \<lparr>inbuf = encAll (srvEnc (C, key)) seq fs @ srvEnc (C, key) rb s' bad @ rest, rend = e\<rparr>
           = (map snd fs, Some (DecryptFailed (seq + word_of_nat (length fs))), r'))"
  using assms srv.dec_all [of "(C, key)" fs seq rest e] srvq.dec_all_wrong [of "(C, key)" fs bad s' seq n rb rest e]
  by fastforce

theorem frames_in_order_or_error_witness:
  "\<exists>r'. decAll (srvDec (demo_crypto, [])) 1 2
      \<lparr>inbuf = srvEnc (demo_crypto, []) (0, \<lambda>_. 0) 1 [9] @ srvEnc (demo_crypto, []) (0, \<lambda>_. 0) 1 [9], rend = EOF\<rparr>
      = ([[9]], Some (DecryptFailed 2), r')"
  using frames_in_order_or_error [OF demo_aead_ok demo_aead_binds_nonce, of "[((0, \<lambda>_. 0), [9])]" "[9]" 1 1 "[]" "[]" EOF 0 "(0, \<lambda>_. 0)"]
  by (simp add: maxPlaintextSize_def maxPaddedSize_def numeral_2_eq_2)

text \<open>C31. Whatever \<open>readFrame\<close> returns was sealed under its key and sequence number: the bytes it consumed are
  the length and the sealing of the returned payload with some padding.\<close>

theorem frame_authentic:
  assumes "aead_ok C" and "readFrame C r key seq = (Inr pt, r')"
  shows "\<exists>junk ct. ct = aead_seal C key (frameNonce seq) (putBE 2 (length pt) @ pt @ junk) \<and>
           inbuf r = putBE 2 (length ct) @ ct @ inbuf r' \<and> rend r' = rend r"
  using assms by (rule readFrame_authentic)

theorem frame_authentic_witness:
  "\<exists>junk ct. ct = aead_seal demo_crypto [] (frameNonce 1) (putBE 2 1 @ [9] @ junk) \<and>
     frameBytes demo_crypto 0 (\<lambda>_. 0) [] 1 [9] = putBE 2 (length ct) @ ct"
  using frame_authentic [OF demo_aead_ok
      readFrame_frameBytes [OF demo_aead_ok, of "[9]" 0 "\<lambda>_. 0" "[]" 1 "[]" EOF]]
  by (simp add: maxPlaintextSize_def maxPaddedSize_def)

text \<open>The padding ladder: \<open>nextPadSize\<close> is the least rung that holds the payload, \<open>pickPadRung\<close> takes that
  rung or the one after it, and never leaves the ladder.\<close>

lemma pad_ladder:
  assumes "n \<le> maxPaddedSize"
  shows "nextPadSize n \<in> set padSizes \<and> n \<le> nextPadSize n \<and> (\<forall>s\<in>set padSizes. n \<le> s \<longrightarrow> nextPadSize n \<le> s) \<and>
         pickPadRung x n \<in> set padSizes \<and>
         (pickPadRung x n = nextPadSize n \<or> pickPadRung x n = rungAfter (nextPadSize n) padSizes)"
  using nextPadSize_cases [OF assms] pickPadRung_mem [of x n] by (simp add: pickPadRung_def Let_def)

end
