(* ===== verification/Go_Strings.thy ===== *)
theory Go_Strings
  imports Prelude
begin

text \<open>
  The functions of Go's \<open>strings\<close> and \<open>strconv\<close> packages the program calls, on byte
  strings: prefixes, suffixes, splitting, trimming and fields (with the white space of
  \<open>unicode.IsSpace\<close> in its UTF-8 encoding), decimal formatting and parsing.
  \<open>strings.ToLower\<close> on a string with non-ASCII bytes maps runes through the Unicode
  tables; that mapping is the argument \<open>uni\<close> of \<open>toLower\<close>.
\<close>

section \<open>Prefixes, suffixes, substrings\<close>

definition hasPrefix :: "string \<Rightarrow> string \<Rightarrow> bool" where
  "hasPrefix p s \<longleftrightarrow> length p \<le> length s \<and> take (length p) s = p"

definition hasSuffix :: "string \<Rightarrow> string \<Rightarrow> bool" where
  "hasSuffix p s \<longleftrightarrow> length p \<le> length s \<and> drop (length s - length p) s = p"

definition trimPrefix :: "string \<Rightarrow> string \<Rightarrow> string" where
  "trimPrefix p s = (if hasPrefix p s then drop (length p) s else s)"

definition trimSuffix :: "string \<Rightarrow> string \<Rightarrow> string" where
  "trimSuffix p s = (if hasSuffix p s then take (length s - length p) s else s)"

fun contains :: "string \<Rightarrow> string \<Rightarrow> bool" where
  "contains p [] = (p = [])"
| "contains p (c # cs) = (hasPrefix p (c # cs) \<or> contains p cs)"

lemma hasPrefix_iff: "hasPrefix p s \<longleftrightarrow> (\<exists>t. s = p @ t)"
  by (auto simp: hasPrefix_def) (metis append_take_drop_id)

lemma hasSuffix_iff: "hasSuffix p s \<longleftrightarrow> (\<exists>t. s = t @ p)"
  by (auto simp: hasSuffix_def) (metis append_take_drop_id)

lemma contains_iff: "contains p s \<longleftrightarrow> (\<exists>t u. s = t @ p @ u)"
proof (induction s)
  case Nil
  then show ?case by auto
next
  case (Cons c cs)
  have "(\<exists>t u. c # cs = t @ p @ u) \<longleftrightarrow> (\<exists>u. c # cs = p @ u) \<or> (\<exists>t u. cs = t @ p @ u)"
    by (metis (no_types, opaque_lifting) append_Cons append_Nil append_eq_Cons_conv)
  with Cons show ?case by (simp add: hasPrefix_iff)
qed

lemma contains_single [simp]: "contains [c] s \<longleftrightarrow> c \<in> set s"
  by (auto simp: contains_iff in_set_conv_decomp)

section \<open>Splitting\<close>

text \<open>\<open>strings.Split\<close> at a one-byte separator: never empty, the pieces hold no separator.\<close>

fun splitOn :: "char \<Rightarrow> string \<Rightarrow> string list" where
  "splitOn sep [] = [[]]"
| "splitOn sep (c # cs) =
     (if c = sep then [] # splitOn sep cs
      else case splitOn sep cs of [] \<Rightarrow> [[c]] | p # ps \<Rightarrow> (c # p) # ps)"

lemma splitOn_nonempty [simp]: "splitOn sep s \<noteq> []"
  by (induction s) (auto split: list.splits)

lemma splitOn_no_sep: "sep \<notin> set s \<Longrightarrow> splitOn sep s = [s]"
  by (induction s) auto

lemma splitOn_append: "sep \<notin> set s \<Longrightarrow> splitOn sep (s @ sep # t) = s # splitOn sep t"
  by (induction s) auto

lemma splitOn_cover: "c \<in> set s \<Longrightarrow> c = sep \<or> (\<exists>p\<in>set (splitOn sep s). c \<in> set p)"
  by (induction s) (auto split: list.splits)

lemma splitOn_pieces: "p \<in> set (splitOn sep s) \<Longrightarrow> sep \<notin> set p \<and> set p \<subseteq> set s"
proof (induction s arbitrary: p)
  case Nil
  then show ?case by simp
next
  case (Cons c cs)
  obtain q qs where q: "splitOn sep cs = q # qs" using splitOn_nonempty list.exhaust by metis
  with Cons.prems Cons.IH [of q] Cons.IH [of p] show ?case
    by (cases "c = sep") auto
qed

section \<open>White space\<close>

text \<open>
  The UTF-8 encodings of the code points \<open>unicode.IsSpace\<close> accepts. None of them starts
  with a continuation byte, so matching them byte by byte finds the same separators as
  decoding runes does.
\<close>

definition spaceSeqs :: "string list" where
  "spaceSeqs =
     [[CHR 0x09], [CHR 0x0A], [CHR 0x0B], [CHR 0x0C], [CHR 0x0D], [CHR 0x20],
      [CHR 0xC2, CHR 0x85], [CHR 0xC2, CHR 0xA0], [CHR 0xE1, CHR 0x9A, CHR 0x80],
      [CHR 0xE2, CHR 0x80, CHR 0x80], [CHR 0xE2, CHR 0x80, CHR 0x81],
      [CHR 0xE2, CHR 0x80, CHR 0x82], [CHR 0xE2, CHR 0x80, CHR 0x83],
      [CHR 0xE2, CHR 0x80, CHR 0x84], [CHR 0xE2, CHR 0x80, CHR 0x85],
      [CHR 0xE2, CHR 0x80, CHR 0x86], [CHR 0xE2, CHR 0x80, CHR 0x87],
      [CHR 0xE2, CHR 0x80, CHR 0x88], [CHR 0xE2, CHR 0x80, CHR 0x89],
      [CHR 0xE2, CHR 0x80, CHR 0x8A], [CHR 0xE2, CHR 0x80, CHR 0xA8],
      [CHR 0xE2, CHR 0x80, CHR 0xA9], [CHR 0xE2, CHR 0x80, CHR 0xAF],
      [CHR 0xE2, CHR 0x81, CHR 0x9F], [CHR 0xE3, CHR 0x80, CHR 0x80]]"

definition spaceLen :: "string \<Rightarrow> nat" where
  "spaceLen s = (case find (\<lambda>p. hasPrefix p s) spaceSeqs of None \<Rightarrow> 0 | Some p \<Rightarrow> length p)"

definition spaceLenR :: "string \<Rightarrow> nat" where
  "spaceLenR s = (case find (\<lambda>p. hasSuffix p s) spaceSeqs of None \<Rightarrow> 0 | Some p \<Rightarrow> length p)"

lemma spaceLen_le: "spaceLen s \<le> length s"
  by (auto simp: spaceLen_def hasPrefix_def find_Some_iff split: option.splits)

lemma spaceLenR_le: "spaceLenR s \<le> length s"
  by (auto simp: spaceLenR_def hasSuffix_def find_Some_iff split: option.splits)

function trimLeftSpace :: "string \<Rightarrow> string" where
  "trimLeftSpace s = (if spaceLen s = 0 then s else trimLeftSpace (drop (spaceLen s) s))"
  by pat_completeness auto
termination
proof (relation "measure length")
  fix s :: string
  assume "spaceLen s \<noteq> 0"
  with spaceLen_le [of s] show "(drop (spaceLen s) s, s) \<in> measure length" by simp
qed simp

function trimRightSpace :: "string \<Rightarrow> string" where
  "trimRightSpace s =
     (if spaceLenR s = 0 then s else trimRightSpace (take (length s - spaceLenR s) s))"
  by pat_completeness auto
termination
proof (relation "measure length")
  fix s :: string
  assume "spaceLenR s \<noteq> 0"
  with spaceLenR_le [of s] show "(take (length s - spaceLenR s) s, s) \<in> measure length" by simp
qed simp

declare trimLeftSpace.simps [simp del] trimRightSpace.simps [simp del]

definition trimSpace :: "string \<Rightarrow> string" where
  "trimSpace s = trimRightSpace (trimLeftSpace s)"

text \<open>\<open>strings.Fields\<close>; \<open>acc\<close> is the field being read, reversed.\<close>

function fieldsAcc :: "string \<Rightarrow> string \<Rightarrow> string list" where
  "fieldsAcc acc s =
     (case s of
        [] \<Rightarrow> (if acc = [] then [] else [rev acc])
      | c # cs \<Rightarrow>
          if spaceLen s = 0 then fieldsAcc (c # acc) cs
          else (if acc = [] then [] else [rev acc]) @ fieldsAcc [] (drop (spaceLen s) s))"
  by pat_completeness auto
termination
proof (relation "measure (\<lambda>(acc, s). length s)")
  fix acc s c cs
  assume s: "s = c # (cs :: string)" and "spaceLen s \<noteq> 0"
  then show "(([], drop (spaceLen s) s), acc, s) \<in> measure (\<lambda>(acc, s). length s)" by simp
qed simp_all

declare fieldsAcc.simps [simp del]

definition goFields :: "string \<Rightarrow> string list" where
  "goFields s = fieldsAcc [] s"

text \<open>Plain characters: printable ASCII, the ones no white-space encoding starts or ends with.\<close>

definition plain :: "char \<Rightarrow> bool" where
  "plain c \<longleftrightarrow> 33 \<le> (of_char c :: nat) \<and> (of_char c :: nat) < 127"

lemma spaceSeqs_not_plain:
  "list_all (\<lambda>p. p \<noteq> [] \<and> \<not> plain (hd p) \<and> \<not> plain (last p)) spaceSeqs"
  by (simp add: spaceSeqs_def plain_def)

lemma spaceSeqs_ends: "p \<in> set spaceSeqs \<Longrightarrow> p \<noteq> [] \<and> \<not> plain (hd p) \<and> \<not> plain (last p)"
  using spaceSeqs_not_plain by (simp add: list_all_iff)

lemma spaceLen_plain: "plain c \<Longrightarrow> spaceLen (c # cs) = 0"
proof -
  assume c: "plain c"
  have "\<not> hasPrefix p (c # cs)" if "p \<in> set spaceSeqs" for p
    using spaceSeqs_ends [OF that] c by (cases p) (auto simp: hasPrefix_iff)
  then have "find (\<lambda>p. hasPrefix p (c # cs)) spaceSeqs = None" by (simp add: find_None_iff)
  then show ?thesis by (simp add: spaceLen_def)
qed

lemma spaceLenR_plain: "plain c \<Longrightarrow> spaceLenR (cs @ [c]) = 0"
proof -
  assume c: "plain c"
  have "\<not> hasSuffix p (cs @ [c])" if "p \<in> set spaceSeqs" for p
    using spaceSeqs_ends [OF that] c by (cases p rule: rev_cases) (auto simp: hasSuffix_iff)
  then have "find (\<lambda>p. hasSuffix p (cs @ [c])) spaceSeqs = None" by (simp add: find_None_iff)
  then show ?thesis by (simp add: spaceLenR_def)
qed

lemma spaceLen_Nil [simp]: "spaceLen [] = 0"
  by (simp add: spaceLen_def spaceSeqs_def hasPrefix_def)

lemma spaceLenR_Nil [simp]: "spaceLenR [] = 0"
  by (simp add: spaceLenR_def spaceSeqs_def hasSuffix_def)

lemma spaceLenR_newline: "spaceLenR (cs @ [CHR 0x0A]) = 1"
  by (simp add: spaceLenR_def spaceSeqs_def hasSuffix_def)

text \<open>
  A line written as the value and a newline trims back to the value: the round trip of
  every state file of the server.
\<close>

lemma trimSpace_line:
  assumes "\<forall>c\<in>set s. plain c" and "s \<noteq> []"
  shows "trimSpace (s @ [CHR 0x0A]) = s"
proof -
  obtain c cs where c: "s = c # cs" using assms(2) by (cases s) auto
  obtain d ds where d: "s = ds @ [d]" using assms(2) rev_exhaust by metis
  have l: "trimLeftSpace (s @ [CHR 0x0A]) = s @ [CHR 0x0A]"
    using assms(1) c by (simp add: trimLeftSpace.simps spaceLen_plain)
  have r: "trimRightSpace s = s"
    using assms(1) d by (subst trimRightSpace.simps) (simp add: spaceLenR_plain)
  have "trimRightSpace (s @ [CHR 0x0A]) = trimRightSpace s"
    by (subst trimRightSpace.simps) (simp add: spaceLenR_newline)
  with l r show ?thesis by (simp add: trimSpace_def)
qed

lemma trimSpace_plain:
  assumes "\<forall>c\<in>set s. plain c"
  shows "trimSpace s = s"
proof (cases "s = []")
  case True
  then show ?thesis by (simp add: trimSpace_def trimLeftSpace.simps trimRightSpace.simps)
next
  case False
  obtain c cs where c: "s = c # cs" using False by (cases s) auto
  obtain d ds where d: "s = ds @ [d]" using False rev_exhaust by metis
  have "trimLeftSpace s = s" using assms c by (simp add: trimLeftSpace.simps spaceLen_plain)
  moreover have "trimRightSpace s = s"
    using assms d by (subst trimRightSpace.simps) (simp add: spaceLenR_plain)
  ultimately show ?thesis by (simp add: trimSpace_def)
qed

section \<open>Case\<close>

definition asciiLower :: "char \<Rightarrow> char" where
  "asciiLower c =
     (let n = (of_char c :: nat) in if 65 \<le> n \<and> n \<le> 90 then char_of (n + 32) else c)"

definition isASCII :: "string \<Rightarrow> bool" where
  "isASCII s \<longleftrightarrow> list_all (\<lambda>c. (of_char c :: nat) < 128) s"

definition toLower :: "(string \<Rightarrow> string) \<Rightarrow> string \<Rightarrow> string" where
  "toLower uni s = (if isASCII s then map asciiLower s else uni s)"

lemma length_toLower_ascii: "isASCII s \<Longrightarrow> length (toLower uni s) = length s"
  by (simp add: toLower_def)

section \<open>Decimal numbers\<close>

fun itoaNat :: "nat \<Rightarrow> string" where
  "itoaNat n = (if n < 10 then [char_of (48 + n)] else itoaNat (n div 10) @ [char_of (48 + n mod 10)])"

declare itoaNat.simps [simp del]

definition itoa :: "int \<Rightarrow> string" where
  "itoa i = (if i < 0 then CHR ''-'' # itoaNat (nat (- i)) else itoaNat (nat i))"

definition digitVal :: "char \<Rightarrow> nat option" where
  "digitVal c = (let n = (of_char c :: nat) in if 48 \<le> n \<and> n \<le> 57 then Some (n - 48) else None)"

fun atoiDigits :: "nat \<Rightarrow> string \<Rightarrow> nat option" where
  "atoiDigits acc [] = Some acc"
| "atoiDigits acc (c # cs) =
     (case digitVal c of None \<Rightarrow> None | Some d \<Rightarrow> atoiDigits (acc * 10 + d) cs)"

text \<open>
  \<open>strconv.Atoi\<close> on a 64-bit platform: an optional sign, at least one digit, no other
  character, and a value of the \<open>int\<close> type.
\<close>

definition atoi :: "string \<Rightarrow> int option" where
  "atoi s =
     (let (neg, ds) = (case s of [] \<Rightarrow> (False, [])
                       | c # cs \<Rightarrow> if c = CHR ''-'' then (True, cs)
                                   else if c = CHR ''+'' then (False, cs) else (False, s))
      in if ds = [] then None
         else case atoiDigits 0 ds of
                None \<Rightarrow> None
              | Some n \<Rightarrow>
                  let v = (if neg then - int n else int n)
                  in if - (2 ^ 63) \<le> v \<and> v < 2 ^ 63 then Some v else None)"

lemma digitVal_digit: "d < 10 \<Longrightarrow> digitVal (char_of (48 + d)) = Some d"
  by (simp add: digitVal_def)

lemma atoiDigits_append:
  "atoiDigits a (xs @ ys) = (case atoiDigits a xs of None \<Rightarrow> None | Some b \<Rightarrow> atoiDigits b ys)"
  by (induction xs arbitrary: a) (auto split: option.splits)

lemma atoiDigits_itoaNat: "atoiDigits 0 (itoaNat n) = Some n"
proof (induction n rule: itoaNat.induct)
  case (1 n)
  show ?case
  proof (cases "n < 10")
    case True
    then show ?thesis by (simp add: itoaNat.simps digitVal_digit)
  next
    case False
    with 1 have "atoiDigits 0 (itoaNat (n div 10)) = Some (n div 10)" by simp
    moreover have "digitVal (char_of (48 + n mod 10)) = Some (n mod 10)" by (rule digitVal_digit) simp
    ultimately show ?thesis
      using False by (simp add: itoaNat.simps [of n] atoiDigits_append)
  qed
qed

lemma itoaNat_digits: "c \<in> set (itoaNat n) \<Longrightarrow> \<exists>d < (10 :: nat). c = char_of (48 + d)"
proof (induction n rule: itoaNat.induct)
  case (1 n)
  then show ?case
    by (cases "n < 10") (auto simp: itoaNat.simps [of n] intro: exI [of _ "n mod 10"])
qed

lemma itoaNat_nonempty [simp]: "itoaNat n \<noteq> []"
  by (subst itoaNat.simps) simp

lemma digit_code: "(d :: nat) < 10 \<Longrightarrow> (of_char (char_of (48 + d) :: char) :: nat) = 48 + d"
  by (simp add: of_char_of)

lemma itoaNat_codes: "c \<in> set (itoaNat n) \<Longrightarrow> 48 \<le> (of_char c :: nat) \<and> (of_char c :: nat) \<le> 57"
  using itoaNat_digits digit_code by fastforce

lemma itoaNat_plain: "c \<in> set (itoaNat n) \<Longrightarrow> plain c"
  using itoaNat_codes [of c n] by (simp add: plain_def)

lemma atoi_itoaNat: "n < 2 ^ 63 \<Longrightarrow> atoi (itoaNat n) = Some (int n)"
proof -
  assume n: "n < 2 ^ 63"
  obtain c cs where c: "itoaNat n = c # cs" by (cases "itoaNat n") auto
  with itoaNat_codes [of c n] have "c \<noteq> CHR ''-''" "c \<noteq> CHR ''+''" by auto
  with c n show ?thesis
    using atoiDigits_itoaNat [of n] by (simp add: atoi_def)
qed

end
