(* ===== verification/Probe.thy ===== *)
theory Probe
  imports Go_Strings
begin

text \<open>
  Telling an HTTP probe from an mxtr client, \<open>cmd/mxtr-server/main.go\<close> lines 592 to 679:
  the method prefixes, the byte-wise scan to the blank line that ends a request, and the
  request path. The scan is a hand-written automaton; \<open>headerEnd\<close> is what it is meant
  to find, the first end of \<open>CR LF CR LF\<close>.
\<close>

section \<open>Detecting a request\<close>

definition httpMethods :: "bytes list" where
  "httpMethods =
     [bytes_of ''GET '', bytes_of ''POST'', bytes_of ''HEAD'',
      bytes_of ''PUT '', bytes_of ''DELE'', bytes_of ''OPTI'',
      bytes_of ''CONN'', bytes_of ''PATC'', bytes_of ''TRAC'']"

definition looksLikeHTTP :: "bytes \<Rightarrow> bool" where
  "looksLikeHTTP buf \<longleftrightarrow>
     \<not> length buf < 4 \<and> list_ex (\<lambda>m. length m \<le> length buf \<and> take (length m) buf = m) httpMethods"

lemma httpMethods_length: "m \<in> set httpMethods \<Longrightarrow> length m = 4"
  by (auto simp: httpMethods_def)

lemma looksLikeHTTP_iff: "looksLikeHTTP buf \<longleftrightarrow> take 4 buf \<in> set httpMethods"
proof
  assume "looksLikeHTTP buf"
  then obtain m where "m \<in> set httpMethods" "take (length m) buf = m"
    by (auto simp: looksLikeHTTP_def list_ex_iff)
  then show "take 4 buf \<in> set httpMethods" using httpMethods_length by metis
next
  assume t: "take 4 buf \<in> set httpMethods"
  then have "length (take 4 buf) = 4" by (rule httpMethods_length)
  then have "4 \<le> length buf" by simp
  with t httpMethods_length [OF t] show "looksLikeHTTP buf"
    by (auto simp: looksLikeHTTP_def list_ex_iff intro: bexI [of _ "take 4 buf"])
qed

lemma looksLikeHTTP_take4: "looksLikeHTTP (take 4 buf) = looksLikeHTTP buf"
  by (simp add: looksLikeHTTP_iff)

lemma looksLikeHTTP_append: "4 \<le> length a \<Longrightarrow> looksLikeHTTP (a @ b) = looksLikeHTTP a"
  by (simp add: looksLikeHTTP_iff)

text \<open>No method holds a zero byte, so a zero-filled short read never looks like a request.\<close>

lemma httpMethods_no_zero: "m \<in> set httpMethods \<Longrightarrow> 0 \<notin> set m"
  by (auto simp: httpMethods_def bytes_of_def)

section \<open>Draining a request\<close>

definition CR :: byte where "CR = 13"
definition LF :: byte where "LF = 10"

definition maxHTTPHeaderRead :: nat where "maxHTTPHeaderRead = 8192"

text \<open>The variables the closure \<open>step\<close> of \<open>drainHTTPRequest\<close> captures.\<close>

record drain =
  dstate :: nat
  firstLine :: bytes
  lineDone :: bool

definition captureStep :: "byte \<Rightarrow> drain \<Rightarrow> drain" where
  "captureStep b d =
     (if \<not> lineDone d
      then (if b = LF then d\<lparr>lineDone := True\<rparr>
            else if b \<noteq> CR \<and> length (firstLine d) < 256 then d\<lparr>firstLine := firstLine d @ [b]\<rparr>
            else d)
      else d)"

definition drainStep :: "byte \<Rightarrow> drain \<Rightarrow> bool \<times> drain" where
  "drainStep b d0 =
     (let d = captureStep b d0; s = dstate d
      in if b = CR then (False, d\<lparr>dstate := (if s = 0 \<or> s = 2 then s + 1 else 1)\<rparr>)
         else if b = LF then
           (if s = 1 \<or> s = 3
            then (if s + 1 = 4 then (True, d\<lparr>dstate := s + 1\<rparr>) else (False, d\<lparr>dstate := s + 1\<rparr>))
            else (False, d\<lparr>dstate := 0\<rparr>))
         else (False, d\<lparr>dstate := 0\<rparr>))"

text \<open>The loop over the bytes already consumed.\<close>

fun drainPrefix :: "drain \<Rightarrow> bytes \<Rightarrow> bool \<times> drain" where
  "drainPrefix d [] = (False, d)"
| "drainPrefix d (b # bs) =
     (let (fin, d') = drainStep b d in if fin then (True, d') else drainPrefix d' bs)"

text \<open>
  The one-byte reads; the first argument is \<open>maxHTTPHeaderRead - read\<close>. When the peer
  has nothing more, \<open>conn.Read\<close> reports the error and the loop returns.
\<close>

fun drainRead :: "nat \<Rightarrow> drain \<Rightarrow> bytes \<Rightarrow> drain \<times> bytes" where
  "drainRead 0 d bs = (d, bs)"
| "drainRead (Suc k) d [] = (d, [])"
| "drainRead (Suc k) d (b # bs) =
     (let (fin, d') = drainStep b d in if fin then (d', bs) else drainRead k d' bs)"

definition httpRequestPath :: "bytes \<Rightarrow> string" where
  "httpRequestPath line =
     (let fs = goFields (string_of line) in if 2 \<le> length fs then fs ! 1 else [])"

definition drainHTTPRequest :: "reader \<Rightarrow> bytes \<Rightarrow> string \<times> reader" where
  "drainHTTPRequest conn pre =
     (let d0 = \<lparr>dstate = 0, firstLine = [], lineDone = False\<rparr>;
          (fin, d1) = drainPrefix d0 pre
      in if fin then (httpRequestPath (firstLine d1), conn)
         else let (d2, rest) = drainRead (maxHTTPHeaderRead - length pre) d1 (inbuf conn)
              in (httpRequestPath (firstLine d2), conn\<lparr>inbuf := rest\<rparr>))"

section \<open>The automaton finds the first blank line\<close>

definition endsIn :: "bytes \<Rightarrow> bytes \<Rightarrow> bool" where
  "endsIn p xs \<longleftrightarrow> length p \<le> length xs \<and> drop (length xs - length p) xs = p"

definition blankLine :: bytes where "blankLine = [CR, LF, CR, LF]"

definition headerEnd :: "bytes \<Rightarrow> nat option" where
  "headerEnd bs = find (\<lambda>n. endsIn blankLine (take n bs)) [0..<Suc (length bs)]"

text \<open>The state is the longest proper prefix of the blank line the input ends in.\<close>

definition scanState :: "bytes \<Rightarrow> nat" where
  "scanState xs =
     (if endsIn [CR, LF, CR] xs then 3 else if endsIn [CR, LF] xs then 2
      else if endsIn [CR] xs then 1 else 0)"

lemma CR_LF [simp]: "CR \<noteq> LF" "LF \<noteq> CR"
  by (simp_all add: CR_def LF_def)

lemma endsIn_iff: "endsIn p xs \<longleftrightarrow> (\<exists>t. xs = t @ p)"
  by (auto simp: endsIn_def) (metis append_take_drop_id)

lemma endsIn_snoc: "endsIn (p @ [c]) (xs @ [b]) \<longleftrightarrow> b = c \<and> endsIn p xs"
  by (auto simp: endsIn_iff)

lemma endsIn_Nil [simp]: "endsIn [] xs"
  by (simp add: endsIn_iff)

lemmas endsIn_snocs = endsIn_snoc [where p = "[]", simplified] endsIn_snoc [where p = "[a]" for a, simplified]
  endsIn_snoc [where p = "[a, b]" for a b, simplified]
  endsIn_snoc [where p = "[a, b, c]" for a b c, simplified]

lemma endsIn_last:
  "endsIn [CR, LF, CR] xs \<Longrightarrow> endsIn [CR] xs"
  "endsIn [CR, LF, CR] xs \<Longrightarrow> \<not> endsIn [CR, LF] xs"
  "endsIn [CR, LF] xs \<Longrightarrow> \<not> endsIn [CR] xs"
  by (auto simp: endsIn_iff)

lemma dstate_capture [simp]: "dstate (captureStep b d) = dstate d"
  by (simp add: captureStep_def)

lemma drainStep_scan:
  assumes "dstate d = scanState xs"
  shows "fst (drainStep b d) \<longleftrightarrow> endsIn blankLine (xs @ [b])"
    and "\<not> endsIn blankLine (xs @ [b]) \<Longrightarrow> dstate (snd (drainStep b d)) = scanState (xs @ [b])"
  using assms endsIn_last [of xs]
  by (auto simp: drainStep_def Let_def scanState_def blankLine_def endsIn_snocs split: if_splits)

text \<open>
  One run of the automaton over the bytes \<open>bs\<close>: whether it accepted, its variables and
  what it left. Both loops of the source are this run, over different inputs.
\<close>

fun drainScan :: "drain \<Rightarrow> bytes \<Rightarrow> bool \<times> drain \<times> bytes" where
  "drainScan d [] = (False, d, [])"
| "drainScan d (b # bs) =
     (let (fin, d') = drainStep b d in if fin then (True, d', bs) else drainScan d' bs)"

lemma drainPrefix_scan: "drainPrefix d bs = (let (fin, d', _) = drainScan d bs in (fin, d'))"
  by (induction d bs rule: drainPrefix.induct) (auto split: prod.splits)

lemma drainRead_scan:
  "drainRead k d bs =
     (let (fin, d', left) = drainScan d (take k bs) in (d', left @ drop k bs))"
  by (induction k d bs rule: drainRead.induct) (auto split: prod.splits)

lemma drainScan_append:
  "drainScan d (xs @ ys) =
     (let (fin, d', left) = drainScan d xs in if fin then (True, d', left @ ys) else drainScan d' ys)"
  by (induction d xs rule: drainScan.induct) (auto split: prod.splits)

lemma drainScan_unfinished: "drainScan d xs = (False, d', left) \<Longrightarrow> left = []"
  by (induction d xs rule: drainScan.induct) (auto split: prod.splits if_splits)

lemma headerEnd_least:
  "headerEnd bs = Some n \<longleftrightarrow>
     n \<le> length bs \<and> endsIn blankLine (take n bs) \<and> (\<forall>m<n. \<not> endsIn blankLine (take m bs))"
proof -
  have "headerEnd bs = Some n \<longleftrightarrow>
      (\<exists>i<Suc (length bs). endsIn blankLine (take i bs) \<and> n = i \<and>
        (\<forall>j<i. \<not> endsIn blankLine (take j bs)))"
    unfolding headerEnd_def find_Some_iff by (auto simp del: upt_Suc)
  then show ?thesis by (auto simp: less_Suc_eq_le)
qed

lemma headerEnd_None: "headerEnd bs = None \<longleftrightarrow> (\<forall>m\<le>length bs. \<not> endsIn blankLine (take m bs))"
  by (auto simp: headerEnd_def find_None_iff less_Suc_eq_le simp del: upt_Suc)

lemma drainScan_correct:
  assumes "dstate d = scanState xs" and "\<forall>m\<le>length xs. \<not> endsIn blankLine (take m xs)"
  shows "case headerEnd (xs @ bs) of
           None \<Rightarrow> \<exists>d'. drainScan d bs = (False, d', []) \<and> dstate d' = scanState (xs @ bs)
         | Some n \<Rightarrow> \<exists>d'. drainScan d bs = (True, d', drop n (xs @ bs)) \<and> length xs < n"
  using assms
proof (induction bs arbitrary: d xs)
  case Nil
  then have "headerEnd (xs @ []) = None" by (simp add: headerEnd_None)
  with Nil show ?case by simp
next
  case (Cons b bs)
  obtain fin d' where st: "drainStep b d = (fin, d')" by fastforce
  show ?case
  proof (cases "endsIn blankLine (xs @ [b])")
    case True
    have "headerEnd (xs @ b # bs) = Some (Suc (length xs))"
      unfolding headerEnd_least using True Cons.prems(2) by (auto simp: less_Suc_eq_le)
    moreover have fin using drainStep_scan(1) [OF Cons.prems(1), of b] True st by simp
    ultimately show ?thesis by (simp add: st)
  next
    case False
    from drainStep_scan(1) [OF Cons.prems(1), of b] False st have nf: "\<not> fin" by simp
    from drainStep_scan(2) [OF Cons.prems(1) False] st have "dstate d' = scanState (xs @ [b])" by simp
    moreover have "\<forall>m\<le>length (xs @ [b]). \<not> endsIn blankLine (take m (xs @ [b]))"
      using Cons.prems(2) False by (auto simp: le_Suc_eq)
    ultimately have "case headerEnd ((xs @ [b]) @ bs) of
        None \<Rightarrow> \<exists>e. drainScan d' bs = (False, e, []) \<and> dstate e = scanState ((xs @ [b]) @ bs)
      | Some n \<Rightarrow> \<exists>e. drainScan d' bs = (True, e, drop n ((xs @ [b]) @ bs)) \<and> length (xs @ [b]) < n"
      by (rule Cons.IH)
    with st nf show ?thesis by (auto split: option.splits)
  qed
qed

text \<open>The request line: the bytes before the first LF, without CR, at most 256 of them.\<close>

definition requestLine :: "bytes \<Rightarrow> bytes" where
  "requestLine bs = take 256 (filter (\<lambda>b. b \<noteq> CR) (takeWhile (\<lambda>b. b \<noteq> LF) bs))"

lemma drainStep_fields:
  "fst (drainStep b d) \<Longrightarrow> b = LF"
  "firstLine (snd (drainStep b d)) = firstLine (captureStep b d)"
  "lineDone (snd (drainStep b d)) = lineDone (captureStep b d)"
  by (auto simp: drainStep_def Let_def split: if_splits)

lemma capture_done: "lineDone d \<Longrightarrow> drainScan d bs = (fin, d', left) \<Longrightarrow> firstLine d' = firstLine d"
proof (induction d bs rule: drainScan.induct)
  case (2 d b bs)
  obtain f e where st: "drainStep b d = (f, e)" by fastforce
  with drainStep_fields(2,3) [of b d] 2(2) have "firstLine e = firstLine d" "lineDone e"
    by (auto simp: captureStep_def)
  with 2 st show ?case by (auto split: if_splits)
qed simp

lemma capture_line:
  "\<not> lineDone d \<Longrightarrow> length (firstLine d) \<le> 256 \<Longrightarrow> drainScan d bs = (fin, d', left) \<Longrightarrow>
   firstLine d' = take 256 (firstLine d @ filter (\<lambda>b. b \<noteq> CR) (takeWhile (\<lambda>b. b \<noteq> LF) bs))"
proof (induction d bs rule: drainScan.induct)
  case (1 d)
  then show ?case by auto
next
  case (2 d b bs)
  obtain f e where st: "drainStep b d = (f, e)" by fastforce
  have e: "firstLine e = firstLine (captureStep b d)" "lineDone e = lineDone (captureStep b d)"
    using drainStep_fields(2,3) [of b d] st by auto
  show ?case
  proof (cases "b = LF")
    case True
    with e 2(2) have "firstLine e = firstLine d" "lineDone e" by (auto simp: captureStep_def)
    with st 2(4) have "firstLine d' = firstLine d"
      using capture_done [of e bs fin d' left] by (auto split: if_splits)
    with True 2(3) show ?thesis by simp
  next
    case False
    with drainStep_fields(1) [of b d] st have "\<not> f" by auto
    with st 2(4) have run: "drainScan e bs = (fin, d', left)" by simp
    have "\<not> lineDone e" "length (firstLine e) \<le> 256"
      using False e 2(2,3) by (auto simp: captureStep_def)
    with 2(1) st \<open>\<not> f\<close> run have
      "firstLine d' = take 256 (firstLine e @ filter (\<lambda>b. b \<noteq> CR) (takeWhile (\<lambda>b. b \<noteq> LF) bs))"
      by auto
    moreover have "take 256 (firstLine e @ zs) = take 256 (firstLine d @ filter (\<lambda>b. b \<noteq> CR) [b] @ zs)" for zs
      using False e(1) 2(2,3) by (auto simp: captureStep_def)
    moreover have "filter (\<lambda>b. b \<noteq> CR) (takeWhile (\<lambda>b. b \<noteq> LF) (b # bs)) =
        filter (\<lambda>b. b \<noteq> CR) [b] @ filter (\<lambda>b. b \<noteq> CR) (takeWhile (\<lambda>b. b \<noteq> LF) bs)"
      using False by simp
    ultimately show ?thesis by (simp only:)
  qed
qed

lemma drainScan_left:
  "drainScan d bs = (fin, d', left) \<Longrightarrow> length left \<le> length bs \<and> (fin \<longrightarrow> length left < length bs)"
  by (induction d bs rule: drainScan.induct) (fastforce split: prod.splits if_splits)+

section \<open>What draining a request does\<close>

definition drainStop :: "bytes \<Rightarrow> nat" where
  "drainStop dat =
     (case headerEnd (take maxHTTPHeaderRead dat) of
        Some n \<Rightarrow> n | None \<Rightarrow> min maxHTTPHeaderRead (length dat))"

lemma drainHTTPRequest_correct:
  assumes "length pre \<le> maxHTTPHeaderRead"
  shows "drainHTTPRequest conn pre =
     (httpRequestPath (requestLine (take maxHTTPHeaderRead (pre @ inbuf conn))),
      conn\<lparr>inbuf := drop (drainStop (pre @ inbuf conn) - length pre) (inbuf conn)\<rparr>)"
proof -
  define k where "k = maxHTTPHeaderRead - length pre"
  let ?d0 = "\<lparr>dstate = 0, firstLine = [], lineDone = False\<rparr>"
  let ?t = "take k (inbuf conn)"
  let ?S = "drainStop (pre @ inbuf conn)"
  have D: "take maxHTTPHeaderRead (pre @ inbuf conn) = pre @ ?t"
    using assms by (simp add: k_def)
  obtain fin d' left where run: "drainScan ?d0 (pre @ ?t) = (fin, d', left)" by (metis prod_cases3)
  have line: "firstLine d' = requestLine (pre @ ?t)"
    using capture_line [OF _ _ run] by (simp add: requestLine_def)
  have "dstate ?d0 = scanState []" "\<forall>m\<le>length []. \<not> endsIn blankLine (take m [])"
    by (auto simp: scanState_def endsIn_def blankLine_def)
  note correct = drainScan_correct [OF this, of "pre @ ?t"]
  have "length (take maxHTTPHeaderRead (pre @ inbuf conn)) = length (pre @ ?t)" by (simp only: D)
  then have "min maxHTTPHeaderRead (length (pre @ inbuf conn)) = length (pre @ ?t)"
    unfolding length_take by (simp only: min.commute)
  then have S_eq: "?S = (case headerEnd (pre @ ?t) of Some n \<Rightarrow> n | None \<Rightarrow> length (pre @ ?t))"
    unfolding drainStop_def D by (simp only:)
  have stop: "left = drop ?S (pre @ ?t)" and S: "?S \<le> length pre + length ?t"
  proof -
    show "left = drop ?S (pre @ ?t)"
      using correct run by (cases "headerEnd (pre @ ?t)") (auto simp: S_eq)
    show "?S \<le> length pre + length ?t"
      using headerEnd_least [of "pre @ ?t"] by (cases "headerEnd (pre @ ?t)") (auto simp: S_eq)
  qed
  obtain f1 e l1 where r1: "drainScan ?d0 pre = (f1, e, l1)" by (metis prod_cases3)
  show ?thesis
  proof (cases f1)
    case True
    with r1 run have d': "d' = e" and "left = l1 @ ?t" by (auto simp: drainScan_append)
    then have "length pre + length ?t - ?S = length l1 + length ?t"
      using stop by (metis length_append length_drop)
    with S have "?S - length pre = 0" by linarith
    with True d' line r1 show ?thesis
      unfolding D by (simp add: drainHTTPRequest_def drainPrefix_scan)
  next
    case False
    with r1 run have r2: "drainScan e ?t = (fin, d', left)" by (auto simp: drainScan_append)
    from drainScan_left [OF r2] have "length left \<le> length ?t" by blast
    moreover have "length left = length pre + length ?t - ?S"
      using arg_cong [OF stop, of length] by (simp only: length_drop length_append)
    ultimately have "length pre \<le> ?S" using S by linarith
    with stop have "left = drop (?S - length pre) ?t" by simp
    moreover have "drop m ?t @ drop k (inbuf conn) = drop m (inbuf conn)"
      if "m \<le> length ?t" for m
      using that by (metis append_take_drop_id drop_append diff_is_0_eq drop0)
    moreover have "?S - length pre \<le> length ?t" using S by linarith
    ultimately have "left @ drop k (inbuf conn) = drop (?S - length pre) (inbuf conn)" by metis
    with False r1 r2 line show ?thesis
      unfolding D by (simp add: drainHTTPRequest_def drainPrefix_scan drainRead_scan k_def)
  qed
qed

section \<open>Properties\<close>

text \<open>C32. Draining a probe's request stops exactly after the first blank line, or after the byte limit or the
  peer's last byte when there is none, and returns the path of the request line; bytes read by the handshake
  parser and bytes still on the connection are treated alike.\<close>

theorem drain_stops_at_blank_line:
  assumes "length pre \<le> maxHTTPHeaderRead"
  shows "drainHTTPRequest conn pre =
     (httpRequestPath (requestLine (take maxHTTPHeaderRead (pre @ inbuf conn))),
      conn\<lparr>inbuf := drop (drainStop (pre @ inbuf conn) - length pre) (inbuf conn)\<rparr>)"
  using assms by (rule drainHTTPRequest_correct)

theorem drain_stops_at_blank_line_witness:
  "fst (drainHTTPRequest \<lparr>inbuf = bytes_of ''/robots.txt HTTP/1.1'' @ [13, 10, 13, 10, 88], rend = EOF\<rparr> (bytes_of ''GET ''))
     = ''/robots.txt''"
proof -
  have "httpRequestPath (requestLine (take maxHTTPHeaderRead
      (bytes_of ''GET '' @ bytes_of ''/robots.txt HTTP/1.1'' @ [13, 10, 13, 10, 88]))) = ''/robots.txt''"
    by code_simp
  then show ?thesis
    using drain_stops_at_blank_line [of "bytes_of ''GET ''" "\<lparr>inbuf = bytes_of ''/robots.txt HTTP/1.1'' @ [13, 10, 13, 10, 88], rend = EOF\<rparr>"]
    by (simp add: maxHTTPHeaderRead_def)
qed

end
