(* ===== verification/Camouflage.thy ===== *)
theory Camouflage
  imports Go_Strings
begin

text \<open>
  The web-server camouflage, \<open>cmd/mxtr-server/main.go\<close> lines 340 to 464, 529 to 590 and
  1100 to 1135: the six server identities, the HTTP/1.1 responses rendered for them and the
  choice of the response by path. The current date, \<open>time.Now().UTC().Format\<close>, is an
  argument.
\<close>

section \<open>The identities\<close>

record camouflageFamily =
  server :: string
  contentType :: string
  extraHeaders :: "string list"
  statusBodies :: "int \<rightharpoonup> string"

definition crlf :: string where "crlf = [CHR 0x0D, CHR 0x0A]"
definition nl :: string where "nl = [CHR 0x0A]"

definition htmlBody :: "string \<Rightarrow> string \<Rightarrow> string \<Rightarrow> string \<Rightarrow> string" where
  "htmlBody title heading line footer =
     ''<html>'' @ crlf @ ''<head><title>'' @ title @ ''</title></head>'' @ crlf @
     ''<body>'' @ crlf @ ''<center><h1>'' @ heading @ ''</h1></center>'' @ crlf @
     ''<p>'' @ line @ ''</p>'' @ crlf @
     ''<hr><center>'' @ footer @ ''</center>'' @ crlf @ ''</body>'' @ crlf @ ''</html>'' @ crlf"

definition apacheBody :: "string \<Rightarrow> string \<Rightarrow> string \<Rightarrow> string" where
  \<open>apacheBody title heading line =
     ''<!DOCTYPE HTML PUBLIC "-//IETF//DTD HTML 2.0//EN">'' @ nl @ ''<html><head>'' @ nl @
     ''<title>'' @ title @ ''</title>'' @ nl @ ''</head><body>'' @ nl @
     ''<h1>'' @ heading @ ''</h1>'' @ nl @ ''<p>'' @ line @ ''</p>'' @ nl @ ''</body></html>'' @ nl\<close>

definition litespeedBody :: "string \<Rightarrow> string \<Rightarrow> string \<Rightarrow> string" where
  "litespeedBody title heading line =
     ''<html><head><title>'' @ title @ ''</title></head>'' @ nl @ ''<body><h1>'' @ heading @
     ''</h1>'' @ nl @ ''<p>'' @ line @ ''</p>'' @ nl @ ''</body></html>'' @ nl"

definition cloudflareBody :: "string \<Rightarrow> string" where
  \<open>cloudflareBody code =
     ''<!DOCTYPE html>'' @ nl @ ''<html lang="en"><head><meta charset="utf-8"><title>Error '' @ code @
     ''</title></head><body><center><h1>Error '' @ code @
     ''</h1></center><hr><center>cloudflare</center></body></html>'' @ nl\<close>

definition camouflageFamilies :: "camouflageFamily list" where
  "camouflageFamilies =
    [\<lparr>server = ''nginx'', contentType = ''text/html'', extraHeaders = [],
      statusBodies =
       [400 \<mapsto> htmlBody ''400 Bad Request'' ''400 Bad Request'' [] ''nginx'',
        403 \<mapsto> htmlBody ''403 Forbidden'' ''403 Forbidden'' [] ''nginx'',
        404 \<mapsto> htmlBody ''404 Not Found'' ''404 Not Found'' [] ''nginx'',
        500 \<mapsto> htmlBody ''500 Internal Server Error'' ''500 Internal Server Error'' [] ''nginx'']\<rparr>,
     \<lparr>server = ''Apache'', contentType = ''text/html; charset=iso-8859-1'', extraHeaders = [],
      statusBodies =
       [400 \<mapsto> apacheBody ''400 Bad Request'' ''Bad Request''
                ''Your browser sent a request that this server could not understand.'',
        403 \<mapsto> apacheBody ''403 Forbidden'' ''Forbidden''
                (''You don'' @ [CHR 0x27] @ ''t have permission to access this resource.''),
        404 \<mapsto> apacheBody ''404 Not Found'' ''Not Found''
                ''The requested URL was not found on this server.'',
        500 \<mapsto> apacheBody ''500 Internal Server Error'' ''Internal Server Error''
                ''The server encountered an internal error or misconfiguration and was unable to complete your request.'']\<rparr>,
     \<lparr>server = ''LiteSpeed'', contentType = ''text/html'', extraHeaders = [],
      statusBodies =
       [400 \<mapsto> litespeedBody ''400 Bad Request'' ''Bad Request'' ''The request could not be understood.'',
        403 \<mapsto> litespeedBody ''403 Forbidden'' ''Forbidden'' ''Access denied.'',
        404 \<mapsto> litespeedBody ''404 Not Found'' ''Not Found''
                ''The requested URL was not found on this server.'',
        500 \<mapsto> litespeedBody ''500 Internal Server Error'' ''Internal Server Error'' ''Server error.'']\<rparr>,
     \<lparr>server = ''Caddy'', contentType = ''text/plain; charset=utf-8'',
      extraHeaders = [''Strict-Transport-Security: max-age=31536000''],
      statusBodies =
       [400 \<mapsto> ''400 Bad Request'' @ nl, 403 \<mapsto> ''403 Forbidden'' @ nl,
        404 \<mapsto> ''404 page not found'' @ nl, 500 \<mapsto> ''500 Internal Server Error'' @ nl]\<rparr>,
     \<lparr>server = ''cloudflare'', contentType = ''text/html; charset=UTF-8'',
      extraHeaders =
       [''Cache-Control: max-age=0, no-cache, no-store, must-revalidate'',
        ''Expires: Thu, 01 Jan 1970 00:00:01 GMT'', ''Vary: Accept-Encoding''],
      statusBodies =
       [400 \<mapsto> cloudflareBody ''400'', 403 \<mapsto> cloudflareBody ''403'',
        404 \<mapsto> cloudflareBody ''404'', 500 \<mapsto> cloudflareBody ''500'']\<rparr>,
     \<lparr>server = [], contentType = ''text/plain; charset=utf-8'',
      extraHeaders = [''X-Content-Type-Options: nosniff''],
      statusBodies =
       [400 \<mapsto> ''400 Bad Request'' @ nl, 403 \<mapsto> ''Forbidden'' @ nl,
        404 \<mapsto> ''404 page not found'' @ nl, 500 \<mapsto> ''Internal Server Error'' @ nl]\<rparr>]"

definition statusReasons :: "int \<rightharpoonup> string" where
  "statusReasons =
     [400 \<mapsto> ''Bad Request'', 403 \<mapsto> ''Forbidden'', 404 \<mapsto> ''Not Found'',
      500 \<mapsto> ''Internal Server Error'']"

definition cloakStatuses :: "int list" where "cloakStatuses = [403, 404, 500]"

text \<open>\<open>pickRandomFamilyIdx\<close>; \<open>None\<close>: the random source failed.\<close>

definition pickRandomFamilyIdx :: "bytes option \<Rightarrow> nat" where
  "pickRandomFamilyIdx seedBuf =
     (case seedBuf of None \<Rightarrow> 0 | Some bs \<Rightarrow> getBE bs mod length camouflageFamilies)"

definition displayName :: "string \<Rightarrow> string" where
  "displayName srv = (if srv = [] then ''(no Server header)'' else srv)"

section \<open>Responses\<close>

text \<open>A Go map read of a missing key is the zero value, here the empty string.\<close>

definition mapRead :: "(int \<rightharpoonup> string) \<Rightarrow> int \<Rightarrow> string" where
  "mapRead m k = (case m k of None \<Rightarrow> [] | Some v \<Rightarrow> v)"

definition renderCamouflage :: "string \<Rightarrow> camouflageFamily \<Rightarrow> int \<Rightarrow> string" where
  "renderCamouflage date fam status =
     (let body = (case statusBodies fam status of None \<Rightarrow> mapRead (statusBodies fam) 500 | Some b \<Rightarrow> b)
      in ''HTTP/1.1 '' @ itoa status @ '' '' @ mapRead statusReasons status @ crlf @
         (if server fam \<noteq> [] then ''Server: '' @ server fam @ crlf else []) @
         ''Date: '' @ date @ crlf @
         ''Content-Type: '' @ contentType fam @ crlf @
         ''Content-Length: '' @ itoa (int (length body)) @ crlf @
         concat (map (\<lambda>h. h @ crlf) (extraHeaders fam)) @
         ''Connection: close'' @ crlf @ crlf @ body)"

definition renderRobots :: "string \<Rightarrow> camouflageFamily \<Rightarrow> string" where
  "renderRobots date fam =
     (let body = ''User-agent: *'' @ nl @ ''Disallow:'' @ nl
      in ''HTTP/1.1 200 OK'' @ crlf @
         (if server fam \<noteq> [] then ''Server: '' @ server fam @ crlf else []) @
         ''Date: '' @ date @ crlf @ ''Content-Type: text/plain; charset=utf-8'' @ crlf @
         ''Content-Length: '' @ itoa (int (length body)) @ crlf @
         concat (map (\<lambda>h. h @ crlf) (extraHeaders fam)) @
         ''Connection: close'' @ crlf @ crlf @ body)"

text \<open>
  The family the server answers with: the one picked at start-up, the first one before
  that. \<open>pickCamouflageTemplate\<close> also stores the default in \<open>pickedCamouflage\<close>.
\<close>

definition pickCamouflageTemplate ::
  "camouflageFamily option \<Rightarrow> camouflageFamily \<times> camouflageFamily option" where
  "pickCamouflageTemplate picked =
     (let p = (case picked of None \<Rightarrow> camouflageFamilies ! 0 | Some f \<Rightarrow> f) in (p, Some p))"

definition pickCamouflage :: "string \<Rightarrow> camouflageFamily option \<Rightarrow> int \<Rightarrow> string" where
  "pickCamouflage date picked status =
     renderCamouflage date (fst (pickCamouflageTemplate picked)) status"

definition camouflageForPath :: "string \<Rightarrow> camouflageFamily option \<Rightarrow> int \<Rightarrow> string \<Rightarrow> string" where
  "camouflageForPath date picked status path =
     (if path = ''/robots.txt'' then renderRobots date (fst (pickCamouflageTemplate picked))
      else pickCamouflage date picked status)"

section \<open>Reading a response back\<close>

text \<open>
  What an HTTP client does with the bytes: read lines up to CR LF until an empty one, take
  the rest as the body, and trust \<open>Content-Length\<close>.
\<close>

fun readLine :: "string \<Rightarrow> (string \<times> string) option" where
  "readLine (c # d # cs) =
     (if [c, d] = crlf then Some ([], cs)
      else case readLine (d # cs) of None \<Rightarrow> None | Some (l, r) \<Rightarrow> Some (c # l, r))"
| "readLine _ = None"

lemma readLine_shorter: "readLine s = Some (l, r) \<Longrightarrow> length r < length s"
  by (induction s arbitrary: l r rule: readLine.induct) (auto split: if_splits option.splits)

function readHead :: "string \<Rightarrow> (string list \<times> string) option" where
  "readHead s =
     (case readLine s of
        None \<Rightarrow> None
      | Some (l, r) \<Rightarrow>
          if l = [] then Some ([], r)
          else case readHead r of None \<Rightarrow> None | Some (ls, b) \<Rightarrow> Some (l # ls, b))"
  by pat_completeness auto
termination
  by (relation "measure length") (auto dest: readLine_shorter)

declare readHead.simps [simp del]

definition headerValue :: "string \<Rightarrow> string list \<Rightarrow> string option" where
  "headerValue name ls =
     map_option (drop (length name)) (find (\<lambda>l. hasPrefix name l) ls)"

definition lineOK :: "string \<Rightarrow> bool" where
  "lineOK l \<longleftrightarrow> l \<noteq> [] \<and> CHR 0x0D \<notin> set l"

lemma readLine_line: "CHR 0x0D \<notin> set l \<Longrightarrow> readLine (l @ crlf @ r) = Some (l, r)"
proof (induction l)
  case Nil
  then show ?case by (simp add: crlf_def)
next
  case (Cons c l)
  obtain d ds where d: "l @ crlf @ r = d # ds" by (cases "l @ crlf @ r") (auto simp: crlf_def)
  from Cons have "readLine (d # ds) = Some (l, r)" by (simp add: d)
  with Cons.prems d show ?case by (auto simp: crlf_def)
qed

lemma readHead_lines:
  "list_all lineOK ls \<Longrightarrow> readHead (concat (map (\<lambda>l. l @ crlf) ls) @ crlf @ body) = Some (ls, body)"
proof (induction ls)
  case Nil
  then show ?case using readLine_line [of "[]" body] by (simp add: readHead.simps)
next
  case (Cons l ls)
  let ?rest = "concat (map (\<lambda>l. l @ crlf) ls) @ crlf @ body"
  from Cons.prems have "readLine (l @ crlf @ ?rest) = Some (l, ?rest)"
    by (intro readLine_line) (simp add: lineOK_def)
  with Cons show ?case by (simp add: readHead.simps [of "l @ _"] lineOK_def)
qed

definition familyOK :: "camouflageFamily \<Rightarrow> bool" where
  "familyOK fam \<longleftrightarrow>
     CHR 0x0D \<notin> set (server fam) \<and> CHR 0x0D \<notin> set (contentType fam) \<and>
     list_all (\<lambda>h. lineOK h \<and> \<not> hasPrefix ''Content-Length: '' h) (extraHeaders fam)"

lemma families_OK: "list_all familyOK camouflageFamilies"
  by (simp add: camouflageFamilies_def familyOK_def lineOK_def hasPrefix_def)

lemma family_OK: "fam \<in> set camouflageFamilies \<Longrightarrow> familyOK fam"
  using families_OK by (simp add: list_all_iff)

lemma itoa_no_CR: "CHR 0x0D \<notin> set (itoa i)"
proof -
  have "c \<in> set (itoaNat n) \<Longrightarrow> c \<noteq> CHR 0x0D" for c n
    using itoaNat_codes [of c n] by auto
  then show ?thesis by (auto simp: itoa_def)
qed

lemma statusReasons_no_CR: "CHR 0x0D \<notin> set (mapRead statusReasons k)"
  by (auto simp: mapRead_def statusReasons_def split: if_splits)

definition responseHead :: "string \<Rightarrow> camouflageFamily \<Rightarrow> string \<Rightarrow> string \<Rightarrow> string \<Rightarrow> string list" where
  "responseHead date fam statusLine ctype body =
     [statusLine] @ (if server fam \<noteq> [] then [''Server: '' @ server fam] else []) @
     [''Date: '' @ date, ''Content-Type: '' @ ctype,
      ''Content-Length: '' @ itoa (int (length body))] @ extraHeaders fam @ [''Connection: close'']"

lemma responseHead_OK:
  assumes "familyOK fam" and "CHR 0x0D \<notin> set date" and "lineOK sl" and "CHR 0x0D \<notin> set ctype"
  shows "list_all lineOK (responseHead date fam sl ctype body)"
  using assms itoa_no_CR by (auto simp: responseHead_def lineOK_def familyOK_def list_all_iff)

lemma find_append_None: "find P xs = None \<Longrightarrow> find P (xs @ ys) = find P ys"
  by (induction xs) (auto split: if_splits)

lemma responseHead_length:
  assumes "\<not> hasPrefix ''Content-Length: '' sl"
  shows "headerValue ''Content-Length: '' (responseHead date fam sl ctype body)
           = Some (itoa (int (length body)))"
  using assms by (auto simp: headerValue_def responseHead_def hasPrefix_def)

definition statusLine :: "int \<Rightarrow> string" where
  "statusLine status = ''HTTP/1.1 '' @ itoa status @ '' '' @ mapRead statusReasons status"

definition responseBody :: "camouflageFamily \<Rightarrow> int \<Rightarrow> string" where
  "responseBody fam status =
     (case statusBodies fam status of None \<Rightarrow> mapRead (statusBodies fam) 500 | Some b \<Rightarrow> b)"

lemma renderCamouflage_lines:
  "renderCamouflage date fam status =
     concat (map (\<lambda>l. l @ crlf)
       (responseHead date fam (statusLine status) (contentType fam) (responseBody fam status)))
     @ crlf @ responseBody fam status"
  by (simp add: renderCamouflage_def responseHead_def statusLine_def responseBody_def Let_def)

lemma renderRobots_lines:
  "renderRobots date fam =
     (let body = ''User-agent: *'' @ nl @ ''Disallow:'' @ nl
      in concat (map (\<lambda>l. l @ crlf)
           (responseHead date fam ''HTTP/1.1 200 OK'' ''text/plain; charset=utf-8'' body)) @ crlf @ body)"
  by (simp add: renderRobots_def responseHead_def Let_def)

lemma statusLine_OK: "lineOK (statusLine s)" "\<not> hasPrefix ''Content-Length: '' (statusLine s)"
  using itoa_no_CR [of s] statusReasons_no_CR [of s]
  by (auto simp: statusLine_def lineOK_def hasPrefix_def)

lemma renderCamouflage_parses:
  assumes "fam \<in> set camouflageFamilies" and "CHR 0x0D \<notin> set date"
  shows "\<exists>ls. readHead (renderCamouflage date fam status) = Some (ls, responseBody fam status) \<and>
     hd ls = statusLine status \<and>
     headerValue ''Content-Length: '' ls = Some (itoa (int (length (responseBody fam status))))"
proof -
  let ?ls = "responseHead date fam (statusLine status) (contentType fam) (responseBody fam status)"
  have "familyOK fam" using assms(1) by (rule family_OK)
  then have "list_all lineOK ?ls"
    using assms(2) statusLine_OK(1) by (intro responseHead_OK) (auto simp: familyOK_def)
  then have "readHead (renderCamouflage date fam status) = Some (?ls, responseBody fam status)"
    unfolding renderCamouflage_lines by (rule readHead_lines)
  moreover have "hd ?ls = statusLine status" by (simp add: responseHead_def)
  ultimately show ?thesis using responseHead_length [OF statusLine_OK(2)] by blast
qed

section \<open>Properties\<close>

text \<open>C34. Every camouflage page is a well-formed HTTP response: its head parses line by line, the first line is
  the status line, and \<open>Content-Length\<close> is the length of the body that follows.\<close>

theorem camouflage_is_http:
  assumes "fam \<in> set camouflageFamilies" and "CHR 0x0D \<notin> set date"
  shows "\<exists>ls. readHead (renderCamouflage date fam status) = Some (ls, responseBody fam status) \<and>
     hd ls = statusLine status \<and>
     headerValue ''Content-Length: '' ls = Some (itoa (int (length (responseBody fam status))))"
  using assms by (rule renderCamouflage_parses)

theorem camouflage_is_http_witness:
  "\<exists>ls. readHead (renderCamouflage ''now'' (camouflageFamilies ! 0) 404)
     = Some (ls, responseBody (camouflageFamilies ! 0) 404) \<and> hd ls = statusLine 404"
proof -
  have "camouflageFamilies ! 0 \<in> set camouflageFamilies" by (rule nth_mem) (simp add: camouflageFamilies_def)
  from camouflage_is_http [OF this, of "''now''" 404] show ?thesis by auto
qed

end
