(* ===== verification/Psk_Config.thy ===== *)
theory Psk_Config
  imports Crypto Camouflage
begin

text \<open>
  The run-time knobs derived from the PSK, \<open>cmd/mxtr-server/psk_config.go\<close>. A short read
  of the HKDF stream panics in the source; that is the result \<open>None\<close>.
\<close>

record pskDerivedConfig =
  alpnOrder :: "string list"
  heartbeatMinMs :: int
  heartbeatMaxMs :: int
  heartbeatPadMin :: int
  heartbeatPadMax :: int
  idleThresholdMs :: int
  camouflageStatus :: int

definition derivePskConfig :: "crypto \<Rightarrow> bytes \<Rightarrow> pskDerivedConfig option" where
  "derivePskConfig C psk =
     (case hkdf_sha256 C psk (bytes_of ''mxtr-config-v1-salt'') (bytes_of ''mxtr-config-v1'') 16 of
        None \<Rightarrow> None
      | Some out \<Rightarrow> Some
         \<lparr>alpnOrder = [''http/1.1''],
          heartbeatMinMs = 20000 + uint (out ! 2) * 100,
          heartbeatMaxMs = 45000 + uint (out ! 3) * 100,
          heartbeatPadMin = 32 + uint (out ! 4),
          heartbeatPadMax = 512 + int (getBE (take 2 (drop 5 out))) mod 3584,
          idleThresholdMs = 10000 + uint (out ! 8) * 50,
          camouflageStatus = cloakStatuses ! (unat (out ! 9) mod length cloakStatuses)\<rparr>)"

text \<open>The ranges the comments of the source give for the knobs.\<close>

definition config_in_range :: "pskDerivedConfig \<Rightarrow> bool" where
  "config_in_range cfg \<longleftrightarrow>
     alpnOrder cfg = [''http/1.1''] \<and>
     20000 \<le> heartbeatMinMs cfg \<and> heartbeatMinMs cfg \<le> 45500 \<and>
     45000 \<le> heartbeatMaxMs cfg \<and> heartbeatMaxMs cfg \<le> 70500 \<and>
     32 \<le> heartbeatPadMin cfg \<and> heartbeatPadMin cfg \<le> 287 \<and>
     512 \<le> heartbeatPadMax cfg \<and> heartbeatPadMax cfg \<le> 4095 \<and>
     10000 \<le> idleThresholdMs cfg \<and> idleThresholdMs cfg \<le> 22750 \<and>
     camouflageStatus cfg \<in> set cloakStatuses"

lemma uint_byte_le: "uint (b :: byte) \<le> 255" "0 \<le> uint (b :: byte)"
  using unat_byte_less [of b] unfolding uint_nat by linarith simp

lemma derivePskConfig_in_range:
  assumes "derivePskConfig C psk = Some cfg"
  shows "config_in_range cfg"
proof -
  have "cloakStatuses ! (n mod length cloakStatuses) \<in> set cloakStatuses" for n
    by (rule nth_mem) (simp add: cloakStatuses_def)
  moreover have "0 \<le> int n mod 3584 \<and> int n mod 3584 \<le> 3583" for n :: nat
    using pos_mod_bound [of 3584 "int n"] by simp
  ultimately show ?thesis
    using assms uint_byte_le
    by (auto simp: derivePskConfig_def config_in_range_def split: option.splits)
qed

section \<open>Every key has a configuration\<close>

lemma psk_config_ranges:
  assumes "hkdf_ok C"
  shows "\<exists>cfg. derivePskConfig C psk = Some cfg \<and> config_in_range cfg \<and> heartbeatPadMin cfg < heartbeatPadMax cfg"
proof -
  obtain out where "hkdf_sha256 C psk (bytes_of ''mxtr-config-v1-salt'') (bytes_of ''mxtr-config-v1'') 16 = Some out"
    using hkdf_okD [OF assms, of 16] by force
  then obtain cfg where cfg: "derivePskConfig C psk = Some cfg" by (simp add: derivePskConfig_def)
  with derivePskConfig_in_range [OF cfg] show ?thesis by (auto simp: config_in_range_def)
qed

end
