(* ===== verification/Handshake.thy ===== *)
theory Handshake
  imports Frame Probe Psk_Config
begin

text \<open>
  The authenticated handshake of the server, \<open>cmd/mxtr-server/main.go\<close> lines 95 to 110 and
  681 to 745, and the part of \<open>handleTCPv2\<close> (\<open>session_v2.go\<close> lines 441 to 485) that
  runs before a session exists: accept the client, or answer it with camouflage and close.
\<close>

definition maxHandshakePad :: nat where "maxHandshakePad = 255"

section \<open>Keys and tags\<close>

definition computeMac :: "crypto \<Rightarrow> bytes \<Rightarrow> bytes \<Rightarrow> string \<Rightarrow> bytes" where
  "computeMac C psk input label = take macLen (hmac_sha256 C psk (input @ bytes_of label))"

text \<open>\<open>None\<close>: the source panics on a short read of the key stream.\<close>

definition deriveKey :: "crypto \<Rightarrow> bytes \<Rightarrow> bytes \<Rightarrow> bytes \<Rightarrow> string \<Rightarrow> bytes option" where
  "deriveKey C psk nonceC nonceS info =
     hkdf_sha256 C psk (nonceC @ nonceS) (bytes_of info) 32"

section \<open>The client's hello\<close>

datatype hs_error = HsIO io_error | HttpProbe | HmacMismatch

text \<open>\<open>Inl (raw, err)\<close>: the bytes consumed and the error; \<open>Inr nonceC\<close>: accepted.\<close>

definition readClientHandshake ::
  "crypto \<Rightarrow> bytes \<Rightarrow> reader \<Rightarrow> (bytes \<times> hs_error + bytes) \<times> reader" where
  "readClientHandshake C psk conn =
     (case readFull 4 conn of
        (Some e, pre, c1) \<Rightarrow> (Inl (pre, HsIO e), c1)
      | (None, pre, c1) \<Rightarrow>
          if looksLikeHTTP pre then (Inl (pre, HttpProbe), c1)
          else case readFull (nonceLen + 1 - 4) c1 of
            (Some e, rest1, c2) \<Rightarrow> (Inl (pre @ rest1, HsIO e), c2)
          | (None, rest1, c2) \<Rightarrow>
              let first = pre @ rest1; padLen = unat (first ! nonceLen)
              in case readFull (padLen + macLen) c2 of
                   (Some e, rest, c3) \<Rightarrow> (Inl (first @ rest, HsIO e), c3)
                 | (None, rest, c3) \<Rightarrow>
                     let pad = take padLen rest; gotMac = drop padLen rest;
                         macInput = take nonceLen first @ [first ! nonceLen] @ pad;
                         wantMac = computeMac C psk macInput ''c2s-hs''
                     in if gotMac \<noteq> wantMac then (Inl (first @ rest, HmacMismatch), c3)
                        else (Inr (take nonceLen first), c3))"

section \<open>The server's hello\<close>

text \<open>
  What \<open>writeServerHandshake\<close> draws: the nonce, the padding length
  (\<open>mrand.IntN(256)\<close>) and the padding (\<open>None\<close>: \<open>rand.Read\<close> failed).
\<close>

record hsrand =
  nonceRnd :: "(nat \<Rightarrow> byte) option"
  padRoll :: nat
  padRnd :: "(nat \<Rightarrow> byte) option"

definition helloBytes :: "crypto \<Rightarrow> bytes \<Rightarrow> string \<Rightarrow> bytes \<Rightarrow> bytes \<Rightarrow> bytes" where
  "helloBytes C psk label nonce pad =
     (let m = nonce @ [word_of_nat (length pad)] @ pad in m @ computeMac C psk m label)"

definition writeServerHandshake ::
  "crypto \<Rightarrow> bytes \<Rightarrow> hsrand \<Rightarrow> writer \<Rightarrow> bytes option \<times> writer" where
  "writeServerHandshake C psk R w =
     (case nonceRnd R of
        None \<Rightarrow> (None, w)
      | Some f \<Rightarrow>
          let nonceS = map f [0..<nonceLen]; padLen = padRoll R
          in case padRnd R of
               None \<Rightarrow> (None, w)
             | Some g \<Rightarrow>
                 let pad = map g [0..<padLen];
                     macInput = nonceS @ [word_of_nat padLen] @ pad;
                     mac = computeMac C psk macInput ''s2c-hs'';
                     hello = nonceS @ [word_of_nat padLen] @ pad @ mac;
                     (ok, w1) = writeConn w hello
                 in if ok then (Some nonceS, w1) else (None, w1))"

section \<open>Accepting a connection\<close>

text \<open>
  The globals the handler reads: the PSK, the derived configuration, the picked family.
  \<open>hsdate\<close> is the date of a rendered response, \<open>dl1\<close> and \<open>dl2\<close> say whether the two
  checked \<open>SetDeadline\<close> calls succeed.
\<close>

record srvglobals =
  srvPsk :: bytes
  pskCfg :: pskDerivedConfig
  pickedCamouflage :: "camouflageFamily option"

record hsenv =
  hsdate :: string
  dl1 :: bool
  dl2 :: bool
  hsr :: hsrand

datatype outcome =
    Dropped
  | Answered string
  | Panicked
  | Established bytes bytes bytes bytes

text \<open>
  \<open>Established nonceC nonceS keyC2S keyS2C\<close>: the session starts. In every other case
  \<open>handleTCPv2\<close> returns and the deferred \<open>conn.Close\<close> runs.
\<close>

definition acceptConn ::
  "crypto \<Rightarrow> srvglobals \<Rightarrow> hsenv \<Rightarrow> reader \<Rightarrow> writer \<Rightarrow> outcome \<times> reader \<times> writer" where
  "acceptConn C G E conn w =
     (if \<not> dl1 E then (Dropped, conn, w)
      else case readClientHandshake C (srvPsk G) conn of
        (Inl (raw, err), c1) \<Rightarrow>
          if looksLikeHTTP raw then
            let (path, c2) = drainHTTPRequest c1 raw;
                resp = camouflageForPath (hsdate E) (pickedCamouflage G) (camouflageStatus (pskCfg G)) path
            in (Answered resp, c2, snd (writeConn w (bytes_of resp)))
          else
            let resp = renderCamouflage (hsdate E) (fst (pickCamouflageTemplate (pickedCamouflage G))) 400
            in (Answered resp, c1, snd (writeConn w (bytes_of resp)))
      | (Inr nonceC, c1) \<Rightarrow>
          (case writeServerHandshake C (srvPsk G) (hsr E) w of
             (None, w1) \<Rightarrow> (Dropped, c1, w1)
           | (Some nonceS, w1) \<Rightarrow>
               (case (deriveKey C (srvPsk G) nonceC nonceS ''c2s-key'',
                      deriveKey C (srvPsk G) nonceC nonceS ''s2c-key'') of
                  (Some keyC2S, Some keyS2C) \<Rightarrow>
                    (if \<not> dl2 E then (Dropped, c1, w1)
                     else (Established nonceC nonceS keyC2S keyS2C, c1, w1))
                | _ \<Rightarrow> (Panicked, c1, w1))))"

section \<open>Who is accepted\<close>

lemma length_computeMac: "hmac_ok C \<Longrightarrow> length (computeMac C psk input label) = macLen"
  by (simp add: computeMac_def hmac_ok_length macLen_def)

lemma helloBytes_shape:
  "helloBytes C psk label nonce pad =
     nonce @ [word_of_nat (length pad)] @ pad @
       computeMac C psk (nonce @ [word_of_nat (length pad)] @ pad) label"
  by (simp add: helloBytes_def Let_def)

text \<open>
  The hello is accepted exactly when it carries the right tag and its nonce does not start
  like an HTTP request.
\<close>

lemma readClientHandshake_hello:
  assumes "hmac_ok C" and "length nonce = nonceLen" and "length pad \<le> maxHandshakePad"
    and "\<not> looksLikeHTTP nonce"
  shows "readClientHandshake C psk \<lparr>inbuf = helloBytes C psk ''c2s-hs'' nonce pad @ rest, rend = e\<rparr>
           = (Inr nonce, \<lparr>inbuf = rest, rend = e\<rparr>)"
proof -
  let ?b = "word_of_nat (length pad) :: byte"
  let ?mac = "computeMac C psk (nonce @ [?b] @ pad) ''c2s-hs''"
  have mac: "length ?mac = 16" using length_computeMac [OF assms(1)] by (simp add: macLen_def)
  have b: "unat ?b = length pad" using assms(3) by (simp add: unat_of_nat_byte maxHandshakePad_def)
  have len: "length nonce = 16" using assms(2) by (simp add: nonceLen_def)
  have split: "nonce = take 4 nonce @ drop 4 nonce" by simp
  have r1: "readFull 4 \<lparr>inbuf = helloBytes C psk ''c2s-hs'' nonce pad @ rest, rend = e\<rparr>
      = (None, take 4 nonce, \<lparr>inbuf = drop 4 nonce @ ?b # pad @ ?mac @ rest, rend = e\<rparr>)"
    unfolding readFull_None_iff helloBytes_shape using len split by simp
  have r2: "readFull 13 \<lparr>inbuf = drop 4 nonce @ ?b # pad @ ?mac @ rest, rend = e\<rparr>
      = (None, drop 4 nonce @ [?b], \<lparr>inbuf = pad @ ?mac @ rest, rend = e\<rparr>)"
    unfolding readFull_None_iff using len by simp
  have r3: "readFull (length pad + 16) \<lparr>inbuf = pad @ ?mac @ rest, rend = e\<rparr>
      = (None, pad @ ?mac, \<lparr>inbuf = rest, rend = e\<rparr>)"
    unfolding readFull_None_iff using mac by simp
  have "\<not> looksLikeHTTP (take 4 nonce)" using assms(4) by (simp add: looksLikeHTTP_take4)
  moreover have "take 4 nonce @ drop 4 nonce @ [?b] = nonce @ [?b]" by simp
  ultimately show ?thesis
    using r1 r2 r3 len b
    by (simp add: readClientHandshake_def nonceLen_def macLen_def Let_def nth_append)
qed

lemma readClientHandshake_accepts:
  assumes "readClientHandshake C psk r = (Inr n, r')"
  shows "\<exists>pad. length n = nonceLen \<and> length pad \<le> maxHandshakePad \<and> \<not> looksLikeHTTP n \<and>
           inbuf r = helloBytes C psk ''c2s-hs'' n pad @ inbuf r' \<and> rend r' = rend r"
proof -
  obtain e1 a r1 where rd1: "readFull 4 r = (e1, a, r1)" by (metis prod_cases3)
  with assms have e1: "e1 = None" and nh: "\<not> looksLikeHTTP a"
    by (auto simp: readClientHandshake_def split: option.splits if_splits)
  obtain e2 b r2 where rd2: "readFull 13 r1 = (e2, b, r2)" by (metis prod_cases3)
  with assms rd1 e1 nh have e2: "e2 = None"
    by (auto simp: readClientHandshake_def nonceLen_def split: option.splits)
  define pl where "pl = unat ((a @ b) ! 16)"
  obtain e3 c r3 where rd3: "readFull (pl + 16) r2 = (e3, c, r3)" by (metis prod_cases3)
  with assms rd1 e1 nh rd2 e2 have e3: "e3 = None"
    by (auto simp: readClientHandshake_def nonceLen_def macLen_def pl_def Let_def split: option.splits)
  from assms rd1 e1 nh rd2 e2 rd3 e3
  have mac: "drop pl c = computeMac C psk (take 16 (a @ b) @ [(a @ b) ! 16] @ take pl c) ''c2s-hs''"
    and n: "n = take 16 (a @ b)" and r': "r' = r3"
    by (auto simp: readClientHandshake_def nonceLen_def macLen_def pl_def Let_def split: if_splits)
  from rd1 rd2 rd3 e1 e2 e3 have len: "length a = 4" "length b = 13" "length c = pl + 16"
    and inp: "inbuf r = a @ b @ c @ inbuf r3" and re: "rend r3 = rend r"
    by (auto simp: readFull_None_iff)
  have ab: "a @ b = take 16 (a @ b) @ [(a @ b) ! 16]"
    using len take_append_nth [of "a @ b" 16] by simp
  have pl: "word_of_nat pl = (a @ b) ! 16" and plm: "pl \<le> 255"
    by (simp_all add: pl_def)
  have "inbuf r = (take 16 (a @ b) @ [(a @ b) ! 16]) @ (take pl c @ drop pl c) @ inbuf r3"
    using inp ab by (metis append_assoc append_take_drop_id)
  then have "inbuf r = helloBytes C psk ''c2s-hs'' n (take pl c) @ inbuf r'"
    unfolding helloBytes_shape using mac n r' len pl by simp
  moreover have "\<not> looksLikeHTTP n"
    using nh n len by (simp add: looksLikeHTTP_iff)
  ultimately show ?thesis
    using n len plm r' re by (intro exI [of _ "take pl c"]) (simp add: nonceLen_def maxHandshakePad_def)
qed

text \<open>A refused hello looks like HTTP to the caller exactly when the peer's bytes start like HTTP.\<close>

lemma zero_filled_not_http: "length a < 4 \<Longrightarrow> \<not> looksLikeHTTP (a @ replicate (4 - length a) 0)"
proof
  assume "length a < 4" and "looksLikeHTTP (a @ replicate (4 - length a) 0)"
  then have "a @ replicate (4 - length a) 0 \<in> set httpMethods" by (simp add: looksLikeHTTP_iff)
  from httpMethods_no_zero [OF this] \<open>length a < 4\<close> show False by simp
qed

lemma readClientHandshake_refused:
  assumes "readClientHandshake C psk r = (Inl (raw, err), r')"
  shows "(looksLikeHTTP raw \<longleftrightarrow> looksLikeHTTP (inbuf r)) \<and>
         (looksLikeHTTP (inbuf r) \<longrightarrow> raw = take 4 (inbuf r) \<and> r' = r\<lparr>inbuf := drop 4 (inbuf r)\<rparr>)"
proof (cases "4 \<le> length (inbuf r)")
  case False
  then have "looksLikeHTTP (inbuf r) = False" by (simp add: looksLikeHTTP_def)
  with False assms zero_filled_not_http [of "inbuf r"] show ?thesis
    by (auto simp: readClientHandshake_def readFull_def)
next
  case True
  then have rd1: "readFull 4 r = (None, take 4 (inbuf r), r\<lparr>inbuf := drop 4 (inbuf r)\<rparr>)"
    by (simp add: readFull_def)
  show ?thesis
  proof (cases "looksLikeHTTP (inbuf r)")
    case h: True
    with assms rd1 show ?thesis
      by (auto simp: readClientHandshake_def looksLikeHTTP_take4)
  next
    case h: False
    have "\<exists>x. raw = take 4 (inbuf r) @ x"
      using assms rd1 h
      by (auto simp: readClientHandshake_def looksLikeHTTP_take4 Let_def
          split: option.splits prod.splits if_splits)
    with True h show ?thesis by (auto simp: looksLikeHTTP_append looksLikeHTTP_take4)
  qed
qed

section \<open>Properties\<close>

text \<open>C10. The server accepts a connection exactly when its first bytes are a hello with the right HMAC under the
  pre-shared key, with at most 255 bytes of padding, whose nonce does not begin like an HTTP request; it then has
  consumed exactly the hello.\<close>

theorem handshake_accepts_iff:
  assumes "hmac_ok C"
  shows "readClientHandshake C psk conn = (Inr n, conn') \<longleftrightarrow>
     length n = nonceLen \<and> \<not> looksLikeHTTP n \<and>
     (\<exists>pad. length pad \<le> maxHandshakePad \<and> inbuf conn = helloBytes C psk ''c2s-hs'' n pad @ inbuf conn' \<and>
        rend conn' = rend conn)" (is "?l \<longleftrightarrow> ?r")
proof
  assume ?l
  then show ?r using readClientHandshake_accepts by blast
next
  assume ?r
  then obtain pad where "length n = nonceLen" "\<not> looksLikeHTTP n" "length pad \<le> maxHandshakePad"
    and c: "inbuf conn = helloBytes C psk ''c2s-hs'' n pad @ inbuf conn'" "rend conn' = rend conn" by blast
  then have "readClientHandshake C psk \<lparr>inbuf = helloBytes C psk ''c2s-hs'' n pad @ inbuf conn', rend = rend conn'\<rparr>
      = (Inr n, \<lparr>inbuf = inbuf conn', rend = rend conn'\<rparr>)"
    using readClientHandshake_hello [OF assms] by blast
  moreover have "conn = \<lparr>inbuf = helloBytes C psk ''c2s-hs'' n pad @ inbuf conn', rend = rend conn'\<rparr>"
    using c by (cases conn) simp
  ultimately show ?l by simp
qed

theorem handshake_accepts_iff_witness:
  "readClientHandshake demo_crypto [7] \<lparr>inbuf = helloBytes demo_crypto [7] ''c2s-hs'' (replicate 16 1) [5] @ [42], rend = EOF\<rparr>
     = (Inr (replicate 16 1), \<lparr>inbuf = [42], rend = EOF\<rparr>)"
proof -
  have "\<not> looksLikeHTTP (replicate 16 1)" by code_simp
  then show ?thesis
    unfolding handshake_accepts_iff [OF demo_hmac_ok]
    by (auto simp: nonceLen_def maxHandshakePad_def intro!: exI [of _ "[5 :: byte]"])
qed

text \<open>C30. A peer that does not authenticate gets a plausible web server's answer and nothing else: one that
  speaks HTTP gets the page for its path after its whole header was read, with the status derived from the PSK, any other,
  one that sends nothing included, the 400 page of the pinned family; no session starts.\<close>

theorem probe_gets_camouflage:
  assumes "dl1 E" and "fst (readClientHandshake C (srvPsk G) conn) = Inl x" and "wbreak w = None"
  shows "\<exists>conn'. acceptConn C G E conn w =
     (let resp = (if looksLikeHTTP (inbuf conn)
                  then camouflageForPath (hsdate E) (pickedCamouflage G) (camouflageStatus (pskCfg G))
                         (httpRequestPath (requestLine (take maxHTTPHeaderRead (inbuf conn))))
                  else renderCamouflage (hsdate E) (fst (pickCamouflageTemplate (pickedCamouflage G))) 400)
      in (Answered resp, conn', w\<lparr>wout := wout w @ bytes_of resp\<rparr>))"
proof -
  obtain raw err c1 where rc: "readClientHandshake C (srvPsk G) conn = (Inl (raw, err), c1)"
    using assms(2) by (cases "readClientHandshake C (srvPsk G) conn") (auto, metis surj_pair)
  note ref = readClientHandshake_refused [OF rc]
  show ?thesis
  proof (cases "looksLikeHTTP (inbuf conn)")
    case True
    with ref have raw: "raw = take 4 (inbuf conn)" and c1: "c1 = conn\<lparr>inbuf := drop 4 (inbuf conn)\<rparr>"
      and h: "looksLikeHTTP raw" by auto
    have "length raw \<le> maxHTTPHeaderRead" by (simp add: raw maxHTTPHeaderRead_def)
    from drainHTTPRequest_correct [OF this, of c1] obtain c2 where
      "drainHTTPRequest c1 raw = (httpRequestPath (requestLine (take maxHTTPHeaderRead (inbuf conn))), c2)"
      by (auto simp: raw c1)
    then show ?thesis
      using assms(1,3) rc True h by (simp add: acceptConn_def writeConn_unbroken Let_def)
  next
    case False
    with ref have "\<not> looksLikeHTTP raw" by simp
    then show ?thesis using assms(1,3) rc False by (simp add: acceptConn_def writeConn_unbroken Let_def)
  qed
qed

theorem probe_gets_camouflage_witness:
  "\<exists>conn'. acceptConn demo_crypto \<lparr>srvPsk = [7], pskCfg = \<lparr>alpnOrder = [], heartbeatMinMs = 0, heartbeatMaxMs = 0, heartbeatPadMin = 0, heartbeatPadMax = 0, idleThresholdMs = 0, camouflageStatus = 404\<rparr>, pickedCamouflage = None\<rparr>
      \<lparr>hsdate = ''now'', dl1 = True, dl2 = True, hsr = \<lparr>nonceRnd = None, padRoll = 0, padRnd = None\<rparr>\<rparr>
      \<lparr>inbuf = [], rend = EOF\<rparr> \<lparr>wout = [], wbreak = None\<rparr>
    = (Answered (renderCamouflage ''now'' (fst (pickCamouflageTemplate None)) 400), conn',
       \<lparr>wout = bytes_of (renderCamouflage ''now'' (fst (pickCamouflageTemplate None)) 400), wbreak = None\<rparr>)"
proof -
  have "fst (readClientHandshake demo_crypto [7] \<lparr>inbuf = [], rend = EOF\<rparr>) = Inl ([0, 0, 0, 0], HsIO EOF)"
    by code_simp
  then show ?thesis
    using probe_gets_camouflage [of "\<lparr>hsdate = ''now'', dl1 = True, dl2 = True, hsr = \<lparr>nonceRnd = None, padRoll = 0, padRnd = None\<rparr>\<rparr>"
        demo_crypto "\<lparr>srvPsk = [7], pskCfg = \<lparr>alpnOrder = [], heartbeatMinMs = 0, heartbeatMaxMs = 0, heartbeatPadMin = 0, heartbeatPadMax = 0, idleThresholdMs = 0, camouflageStatus = 404\<rparr>, pickedCamouflage = None\<rparr>" "\<lparr>inbuf = [], rend = EOF\<rparr>"
        "([0, 0, 0, 0], HsIO EOF)" "\<lparr>wout = [], wbreak = None\<rparr>"]
    by (simp add: looksLikeHTTP_def Let_def)
qed

end
