(* ===== verification/Go_Net.thy ===== *)
theory Go_Net
  imports Go_Strings
begin

text \<open>
  The functions of Go's \<open>net\<close> package the program calls on addresses: \<open>net.ParseIP\<close>
  (through \<open>netip.ParseAddr\<close>), \<open>net.IP.String\<close>, the classification methods of
  \<open>net.IP\<close>, and \<open>net.SplitHostPort\<close>. An address is a byte list of length 4 or 16;
  \<open>parseIP\<close> always returns the 16-byte form, an IPv4 address as \<open>::ffff:a.b.c.d\<close>.
\<close>

section \<open>Parsing addresses\<close>

text \<open>
  \<open>parseIPv4Fields\<close>: the previous character (\<open>None\<close> at the start), the value and the
  number of digits of the current octet, the octets read so far.
\<close>

fun parse4 :: "char option \<Rightarrow> nat \<Rightarrow> nat \<Rightarrow> bytes \<Rightarrow> string \<Rightarrow> bytes option" where
  "parse4 prev v digLen fs [] = (if length fs < 3 then None else Some (fs @ [word_of_nat v]))"
| "parse4 prev v digLen fs (c # cs) =
     (case digitVal c of
        Some d \<Rightarrow>
          if digLen = 1 \<and> v = 0 then None
          else if 255 < v * 10 + d then None
          else parse4 (Some c) (v * 10 + d) (digLen + 1) fs cs
      | None \<Rightarrow>
          if c = CHR ''.'' then
            (if prev = None \<or> cs = [] \<or> prev = Some (CHR ''.'') then None
             else if length fs = 3 then None
             else parse4 (Some c) 0 0 (fs @ [word_of_nat v]) cs)
          else None)"

definition parseIPv4Fields :: "string \<Rightarrow> bytes option" where
  "parseIPv4Fields s = parse4 None 0 0 [] s"

definition hexVal :: "char \<Rightarrow> nat option" where
  "hexVal c =
     (let n = (of_char c :: nat)
      in if 48 \<le> n \<and> n \<le> 57 then Some (n - 48)
         else if 97 \<le> n \<and> n \<le> 102 then Some (n - 97 + 10)
         else if 65 \<le> n \<and> n \<le> 70 then Some (n - 65 + 10) else None)"

text \<open>One group of hex digits: its value, how many digits, what follows.\<close>

fun hexScan :: "nat \<Rightarrow> nat \<Rightarrow> string \<Rightarrow> (nat \<times> nat \<times> string) option" where
  "hexScan off acc [] = Some (acc, off, [])"
| "hexScan off acc (c # cs) =
     (case hexVal c of
        None \<Rightarrow> Some (acc, off, c # cs)
      | Some d \<Rightarrow>
          if 3 < off then None
          else if 65535 < acc * 16 + d then None
          else hexScan (off + 1) (acc * 16 + d) cs)"

text \<open>The main loop of \<open>parseIPv6\<close>: position of the ellipsis, bytes so far, rest.\<close>

function loop6 :: "nat option \<Rightarrow> bytes \<Rightarrow> string \<Rightarrow> (nat option \<times> bytes \<times> string) option" where
  "loop6 ell ip s =
     (if 16 \<le> length ip then Some (ell, ip, s)
      else case hexScan 0 0 s of
        None \<Rightarrow> None
      | Some (acc, off, rest) \<Rightarrow>
          if off = 0 then None
          else if rest \<noteq> [] \<and> hd rest = CHR ''.'' then
            (if ell = None \<and> length ip \<noteq> 12 then None
             else if 16 < length ip + 4 then None
             else case parseIPv4Fields s of None \<Rightarrow> None | Some f \<Rightarrow> Some (ell, ip @ f, []))
          else if rest = [] then Some (ell, ip @ putBE 2 acc, [])
          else if hd rest \<noteq> CHR '':'' then None
          else if tl rest = [] then None
          else if hd (tl rest) = CHR '':'' then
            (if ell \<noteq> None then None
             else if tl (tl rest) = [] then Some (Some (length ip + 2), ip @ putBE 2 acc, [])
             else loop6 (Some (length ip + 2)) (ip @ putBE 2 acc) (tl (tl rest)))
          else loop6 ell (ip @ putBE 2 acc) (tl rest))"
  by pat_completeness auto
termination
  by (relation "measure (\<lambda>(ell, ip, s). 16 - length ip)") auto

declare loop6.simps [simp del]

definition finish6 :: "nat option \<Rightarrow> bytes \<Rightarrow> string \<Rightarrow> bytes option" where
  "finish6 ell ip s =
     (if s \<noteq> [] then None
      else if length ip < 16 then
        (case ell of
           None \<Rightarrow> None
         | Some e \<Rightarrow> Some (take e ip @ replicate (16 - length ip) 0 @ drop e ip))
      else if ell \<noteq> None then None else Some ip)"

text \<open>
  \<open>parseIPv6\<close> without its zone: a \<open>%\<close> is either an empty zone, an error, or a zone,
  which \<open>net.ParseIP\<close> refuses.
\<close>

definition parseIPv6 :: "string \<Rightarrow> bytes option" where
  "parseIPv6 s0 =
     (if CHR ''%'' \<in> set s0 then None
      else let (ell, s) = (if hasPrefix ''::'' s0 then (Some 0, drop 2 s0) else (None, s0))
           in if ell = Some 0 \<and> s = [] then Some (replicate 16 0)
              else case loop6 ell [] s of None \<Rightarrow> None | Some (e, ip, r) \<Rightarrow> finish6 e ip r)"

definition v4InV6Prefix :: bytes where
  "v4InV6Prefix = [0, 0, 0, 0, 0, 0, 0, 0, 0, 0, 255, 255]"

fun parseIPScan :: "string \<Rightarrow> string \<Rightarrow> bytes option" where
  "parseIPScan s [] = None"
| "parseIPScan s (c # cs) =
     (if c = CHR ''.'' then map_option (\<lambda>f. v4InV6Prefix @ f) (parseIPv4Fields s)
      else if c = CHR '':'' then parseIPv6 s
      else if c = CHR ''%'' then None
      else parseIPScan s cs)"

definition parseIP :: "string \<Rightarrow> bytes option" where
  "parseIP s = parseIPScan s s"

section \<open>Printing and classifying addresses\<close>

definition to4 :: "bytes \<Rightarrow> bytes option" where
  "to4 ip =
     (if length ip = 4 then Some ip
      else if length ip = 16 \<and> take 12 ip = v4InV6Prefix then Some (drop 12 ip) else None)"

definition ip4String :: "bytes \<Rightarrow> string" where
  "ip4String ip =
     itoaNat (unat (ip ! 0)) @ ''.'' @ itoaNat (unat (ip ! 1)) @ ''.'' @
     itoaNat (unat (ip ! 2)) @ ''.'' @ itoaNat (unat (ip ! 3))"

definition hexDigit :: "nat \<Rightarrow> char" where
  "hexDigit d = (if d < 10 then char_of (48 + d) else char_of (87 + d))"

fun hexString :: "nat \<Rightarrow> string" where
  "hexString n = (if n < 16 then [hexDigit n] else hexString (n div 16) @ [hexDigit (n mod 16)])"

declare hexString.simps [simp del]

definition group6 :: "bytes \<Rightarrow> nat \<Rightarrow> nat" where
  "group6 ip i = getBE (take 2 (drop (2 * i) ip))"

text \<open>The end of the run of zero groups that starts at group \<open>i\<close>.\<close>

definition zeroRunEnd :: "bytes \<Rightarrow> nat \<Rightarrow> nat" where
  "zeroRunEnd ip i = i + length (takeWhile (\<lambda>j. group6 ip j = 0) [i..<8])"

text \<open>The first longest run of at least two zero groups; (255, 255) when there is none.\<close>

definition zeroRun :: "bytes \<Rightarrow> nat \<times> nat" where
  "zeroRun ip =
     foldl (\<lambda>(zs, ze) i. let j = zeroRunEnd ip i in
              if 2 \<le> j - i \<and> ze - zs < j - i then (i, j) else (zs, ze)) (255, 255) [0..<8]"

function print6 :: "bytes \<Rightarrow> nat \<Rightarrow> nat \<Rightarrow> nat \<Rightarrow> string" where
  "print6 ip zs ze i =
     (if 8 \<le> i then []
      else if i = zs then
        ''::'' @ (if 8 \<le> ze \<or> ze \<le> i then [] else hexString (group6 ip ze) @ print6 ip zs ze (ze + 1))
      else (if 0 < i then '':'' else []) @ hexString (group6 ip i) @ print6 ip zs ze (i + 1))"
  by pat_completeness auto
termination
  by (relation "measure (\<lambda>(ip, zs, ze, i). 8 - i)") auto

declare print6.simps [simp del]

definition ip6String :: "bytes \<Rightarrow> string" where
  "ip6String ip = (let (zs, ze) = zeroRun ip in print6 ip zs ze 0)"

text \<open>\<open>net.IP.String\<close> on an address of 4 or 16 bytes, the only lengths the program prints.\<close>

definition ipString :: "bytes \<Rightarrow> string" where
  "ipString ip = (case to4 ip of Some ip4 \<Rightarrow> ip4String ip4 | None \<Rightarrow> ip6String ip)"

definition isLoopback :: "bytes \<Rightarrow> bool" where
  "isLoopback ip =
     (case to4 ip of Some ip4 \<Rightarrow> ip4 ! 0 = 127 | None \<Rightarrow> ip = replicate 15 0 @ [1])"

definition isUnspecified :: "bytes \<Rightarrow> bool" where
  "isUnspecified ip \<longleftrightarrow> to4 ip = Some [0, 0, 0, 0] \<or> ip = replicate 16 0"

definition isMulticast :: "bytes \<Rightarrow> bool" where
  "isMulticast ip =
     (case to4 ip of Some ip4 \<Rightarrow> unat (ip4 ! 0) div 16 = 14 | None \<Rightarrow> length ip = 16 \<and> ip ! 0 = 255)"

definition isLinkLocalUnicast :: "bytes \<Rightarrow> bool" where
  "isLinkLocalUnicast ip =
     (case to4 ip of
        Some ip4 \<Rightarrow> ip4 ! 0 = 169 \<and> ip4 ! 1 = 254
      | None \<Rightarrow> length ip = 16 \<and> ip ! 0 = 254 \<and> unat (ip ! 1) div 64 = 2)"

definition isLinkLocalMulticast :: "bytes \<Rightarrow> bool" where
  "isLinkLocalMulticast ip =
     (case to4 ip of
        Some ip4 \<Rightarrow> ip4 ! 0 = 224 \<and> ip4 ! 1 = 0 \<and> ip4 ! 2 = 0
      | None \<Rightarrow> length ip = 16 \<and> ip ! 0 = 255 \<and> unat (ip ! 1) mod 16 = 2)"

definition isPrivate :: "bytes \<Rightarrow> bool" where
  "isPrivate ip =
     (case to4 ip of
        Some ip4 \<Rightarrow> ip4 ! 0 = 10 \<or> (ip4 ! 0 = 172 \<and> unat (ip4 ! 1) div 16 = 1) \<or>
                    (ip4 ! 0 = 192 \<and> ip4 ! 1 = 168)
      | None \<Rightarrow> length ip = 16 \<and> unat (ip ! 0) div 2 = 126)"

section \<open>Hexadecimal strings\<close>

text \<open>\<open>hex.EncodeToString\<close> and \<open>hex.DecodeString\<close>; the latter fails on a byte that is no hex digit and on
  an odd length.\<close>

definition hexEncode :: "bytes \<Rightarrow> string" where
  "hexEncode bs = concat (map (\<lambda>b. [hexDigit (unat b div 16), hexDigit (unat b mod 16)]) bs)"

fun hexDecode :: "string \<Rightarrow> bytes option" where
  "hexDecode [] = Some []"
| "hexDecode [c] = None"
| "hexDecode (a # b # cs) =
     (case (hexVal a, hexVal b) of
        (Some x, Some y) \<Rightarrow> map_option (Cons (word_of_nat (16 * x + y))) (hexDecode cs)
      | _ \<Rightarrow> None)"

lemma hexVal_hexDigit: "d < 16 \<Longrightarrow> hexVal (hexDigit d) = Some d"
  by (auto simp: hexVal_def hexDigit_def Let_def)

lemma hexDigit_plain: "d < 16 \<Longrightarrow> plain (hexDigit d)"
  by (auto simp: plain_def hexDigit_def)

lemma hexDecode_hexEncode [simp]: "hexDecode (hexEncode bs) = Some bs"
proof (induction bs)
  case Nil
  then show ?case by (simp add: hexEncode_def)
next
  case (Cons b bs)
  have "unat b div 16 < 16" using unat_byte_less [of b] by linarith
  with Cons show ?case by (simp add: hexEncode_def hexVal_hexDigit)
qed

lemma length_hexEncode [simp]: "length (hexEncode bs) = 2 * length bs"
  by (induction bs) (auto simp: hexEncode_def)

lemma hexEncode_eq_Nil [simp]: "hexEncode bs = [] \<longleftrightarrow> bs = []"
  by (cases bs) (auto simp: hexEncode_def)

lemma hexEncode_digits: "c \<in> set (hexEncode bs) \<Longrightarrow> \<exists>d < 16. c = hexDigit d"
proof -
  assume "c \<in> set (hexEncode bs)"
  then obtain b where "c = hexDigit (unat (b :: byte) div 16) \<or> c = hexDigit (unat b mod 16)"
    by (auto simp: hexEncode_def)
  moreover have "unat b div 16 < 16" using unat_byte_less [of b] by linarith
  moreover have "unat b mod 16 < 16" by simp
  ultimately show ?thesis by blast
qed

lemma hexEncode_plain: "c \<in> set (hexEncode bs) \<Longrightarrow> plain c"
  using hexEncode_digits hexDigit_plain by blast

lemma hexEncode_hexVal: "c \<in> set (hexEncode bs) \<Longrightarrow> hexVal c \<noteq> None"
  using hexEncode_digits hexVal_hexDigit by fastforce

lemma hexDecode_length: "hexDecode s = Some bs \<Longrightarrow> length s = 2 * length bs"
  by (induction s arbitrary: bs rule: hexDecode.induct) (auto split: option.splits)

section \<open>Host and port\<close>

definition indexByte :: "char \<Rightarrow> string \<Rightarrow> nat option" where
  "indexByte c s = (if c \<in> set s then Some (length (takeWhile (\<lambda>x. x \<noteq> c) s)) else None)"

definition lastIndexByte :: "char \<Rightarrow> string \<Rightarrow> nat option" where
  "lastIndexByte c s =
     (if c \<in> set s then Some (length s - 1 - length (takeWhile (\<lambda>x. x \<noteq> c) (rev s))) else None)"

definition splitHostPort :: "string \<Rightarrow> (string \<times> string) option" where
  "splitHostPort hp =
     (case lastIndexByte CHR '':'' hp of
        None \<Rightarrow> None
      | Some i \<Rightarrow>
          if hp ! 0 = CHR ''['' then
            (case indexByte CHR '']'' hp of
               None \<Rightarrow> None
             | Some e \<Rightarrow>
                 if e + 1 = length hp \<or> e + 1 \<noteq> i then None
                 else if CHR ''['' \<in> set (drop 1 hp) \<or> CHR '']'' \<in> set (drop (e + 1) hp) then None
                 else Some (take (e - 1) (drop 1 hp), drop (i + 1) hp))
          else if CHR '':'' \<in> set (take i hp) then None
          else if CHR ''['' \<in> set hp \<or> CHR '']'' \<in> set hp then None
          else Some (take i hp, drop (i + 1) hp))"

section \<open>IPv4 addresses: parsing what was printed\<close>

lemma digit_not_dot:
  assumes "(d :: nat) < 10"
  shows "char_of (48 + d) \<noteq> CHR ''.''"
proof
  assume "char_of (48 + d) = CHR ''.''"
  then have "(of_char (char_of (48 + d) :: char) :: nat) = of_char CHR ''.''" by (simp only:)
  then show False using digit_code [OF assms] by simp
qed

lemma parse4_octet:
  assumes "n < 256"
  shows "\<exists>c. c \<noteq> CHR ''.'' \<and>
    parse4 prev 0 0 fs (itoaNat n @ rest) = parse4 (Some c) n (length (itoaNat n)) fs rest"
proof -
  have dv: "digitVal (char_of (48 + d)) = Some d" "char_of (48 + d) \<noteq> CHR ''.''" if "d < 10" for d
    using that digitVal_digit digit_not_dot by blast+
  let ?c = "char_of (48 + n mod 10) :: char"
  have c: "?c \<noteq> CHR ''.''" by (rule dv) simp
  consider (one) "n < 10" | (two) "10 \<le> n" "n < 100" | (three) "100 \<le> n" by linarith
  then show ?thesis
  proof cases
    case one
    then have "itoaNat n = [?c]" by (simp add: itoaNat.simps)
    then show ?thesis using one c by (intro exI [of _ ?c]) (simp add: dv)
  next
    case two
    then have i: "itoaNat n = [char_of (48 + n div 10), ?c]"
      by (simp add: itoaNat.simps [of n] itoaNat.simps [of "n div 10"])
    have "n div 10 < 10" "n div 10 \<noteq> 0" using two by auto
    then show ?thesis using two c assms by (intro exI [of _ ?c]) (simp add: i dv)
  next
    case three
    then have lt: "n div 100 < 10" "\<not> n div 10 < 10" "\<not> n < 10" using assms by auto
    then have i: "itoaNat n = [char_of (48 + n div 100), char_of (48 + n div 10 mod 10), ?c]"
      by (simp add: itoaNat.simps [of n] itoaNat.simps [of "n div 10"] itoaNat.simps [of "n div 100"]
          div_mult2_eq [symmetric])
    have a: "n div 100 < 10" "n div 100 \<noteq> 0" "n div 10 mod 10 < 10" using three assms by auto
    have b: "n div 100 * 10 + n div 10 mod 10 = n div 10"
      using div_mult_mod_eq [of "n div 10" 10] by (simp add: div_mult2_eq [symmetric])
    have d: "n div 10 * 10 + n mod 10 = n" and e: "n div 10 \<le> 255" "n div 10 \<noteq> 0" using three assms by auto
    show ?thesis
      using c a b d e assms by (intro exI [of _ ?c]) (simp add: i dv)
  qed
qed

lemma parse4_dot:
  assumes "c \<noteq> CHR ''.''" and "rest \<noteq> []" and "length fs < 3"
  shows "parse4 (Some c) v k fs (CHR ''.'' # rest) = parse4 (Some CHR ''.'') 0 0 (fs @ [word_of_nat v]) rest"
  using assms by (simp add: digitVal_def)

lemma parseIPv4Fields_ip4String:
  assumes "length ip = 4"
  shows "parseIPv4Fields (ip4String ip) = Some ip"
proof -
  have oct: "\<exists>c. c \<noteq> CHR ''.'' \<and> parse4 prev 0 0 fs (itoaNat (unat (b :: byte)) @ rest) =
      parse4 (Some c) (unat b) (length (itoaNat (unat b))) fs rest" for prev fs b rest
    by (rule parse4_octet) simp
  have dot: "parse4 prev 0 0 fs (itoaNat (unat (b :: byte)) @ CHR ''.'' # rest) =
      parse4 (Some CHR ''.'') 0 0 (fs @ [b]) rest" if "rest \<noteq> []" and "length fs < 3" for prev fs b rest
    using oct [of prev fs b "CHR ''.'' # rest"] parse4_dot [OF _ that] by auto
  have last: "parse4 prev 0 0 fs (itoaNat (unat (b :: byte))) = Some (fs @ [b])" if "length fs = 3" for prev fs b
    using oct [of prev fs b "[]"] that by auto
  have "ip = [ip ! 0, ip ! 1, ip ! 2, ip ! 3]"
    using assms by (intro nth_equalityI) (auto simp: less_Suc_eq numeral_eq_Suc)
  then show ?thesis
    unfolding parseIPv4Fields_def ip4String_def by (simp add: dot last)
qed

lemma parseIPScan_digits:
  assumes "\<forall>c\<in>set ds. 48 \<le> (of_char c :: nat) \<and> (of_char c :: nat) \<le> 57"
  shows "parseIPScan s (ds @ rest) = parseIPScan s rest"
  using assms by (induction ds) auto

lemma parseIP_ip4String:
  assumes "length ip = 4"
  shows "parseIP (ip4String ip) = Some (v4InV6Prefix @ ip)"
proof -
  have "parseIPScan s (ip4String ip) = map_option (\<lambda>f. v4InV6Prefix @ f) (parseIPv4Fields s)" for s
    unfolding ip4String_def by (subst parseIPScan_digits) (use itoaNat_codes in auto)
  then show ?thesis by (simp add: parseIP_def parseIPv4Fields_ip4String [OF assms])
qed

lemma ip4String_chars:
  "c \<in> set (ip4String ip) \<Longrightarrow> c = CHR ''.'' \<or> 48 \<le> (of_char c :: nat) \<and> (of_char c :: nat) \<le> 57"
  using itoaNat_codes by (auto simp: ip4String_def)

lemma ip4String_no [simp]:
  "CHR '':'' \<notin> set (ip4String ip)" "CHR ''['' \<notin> set (ip4String ip)" "CHR '']'' \<notin> set (ip4String ip)"
  "CHR ''%'' \<notin> set (ip4String ip)" "CHR ''/'' \<notin> set (ip4String ip)" "CHR ''@'' \<notin> set (ip4String ip)"
  "CHR ''?'' \<notin> set (ip4String ip)" "CHR ''#'' \<notin> set (ip4String ip)"
  using ip4String_chars [of _ ip] by fastforce+

lemma ip4String_nonempty [simp]: "ip4String ip \<noteq> []"
  by (simp add: ip4String_def)

lemma itoaNat_no [simp]:
  "CHR '':'' \<notin> set (itoaNat n)" "CHR ''['' \<notin> set (itoaNat n)" "CHR '']'' \<notin> set (itoaNat n)"
  "CHR ''%'' \<notin> set (itoaNat n)" "CHR ''/'' \<notin> set (itoaNat n)" "CHR ''@'' \<notin> set (itoaNat n)"
  "CHR ''?'' \<notin> set (itoaNat n)" "CHR ''#'' \<notin> set (itoaNat n)" "CHR ''.'' \<notin> set (itoaNat n)"
  using itoaNat_codes [of _ n] by fastforce+

section \<open>Splitting what was joined\<close>

lemma takeWhile_not: "c \<notin> set s \<Longrightarrow> takeWhile (\<lambda>x. x \<noteq> c) (s @ c # t) = s"
  by (induction s) auto

lemma lastIndexByte_join: "c \<notin> set t \<Longrightarrow> lastIndexByte c (s @ c # t) = Some (length s)"
  using takeWhile_not [of c "rev t" "rev s"] by (simp add: lastIndexByte_def)

lemma splitHostPort_join:
  assumes "CHR '':'' \<notin> set h" and "CHR '':'' \<notin> set p"
    and "CHR ''['' \<notin> set h \<union> set p" and "CHR '']'' \<notin> set h \<union> set p"
  shows "splitHostPort (h @ '':'' @ p) = Some (h, p)"
proof -
  have "(h @ '':'' @ p) ! 0 \<noteq> CHR ''[''" using assms by (cases h) auto
  then show ?thesis
    using assms lastIndexByte_join [of "CHR '':''" p h] by (auto simp: splitHostPort_def)
qed

end
