(* ===== verification/Allowlist.thy ===== *)
theory Allowlist
  imports Go_Net
begin

text \<open>
  Targets and who may be dialled: \<open>parseTarget\<close> (\<open>main.go\<close> lines 292 to 324), the
  hostname checks (\<open>main.go\<close> 750 to 797) and the allowlist (\<open>allowlist.go\<close>).
  \<open>uni\<close> is the Unicode lower-casing of non-ASCII strings.
\<close>

section \<open>Target specifications\<close>

definition addrTypeIPv4 :: byte where "addrTypeIPv4 = 1"
definition addrTypeDomain :: byte where "addrTypeDomain = 2"
definition addrTypeIPv6 :: byte where "addrTypeIPv6 = 3"

datatype target_error =
    EmptyTarget
  | IPv4WrongLength nat
  | DomainTooShort
  | DomainWrongLength
  | IPv6WrongLength nat
  | UnknownAddrType byte

definition parseTarget :: "bytes \<Rightarrow> target_error + string" where
  "parseTarget p =
     (case p of
        [] \<Rightarrow> Inl EmptyTarget
      | t # _ \<Rightarrow>
          if t = addrTypeIPv4 then
            (if length p \<noteq> 1 + 4 + 2 then Inl (IPv4WrongLength (length p))
             else Inr (ipString (take 4 (drop 1 p)) @ '':'' @ itoaNat (getBE (take 2 (drop 5 p)))))
          else if t = addrTypeDomain then
            (if length p < 2 then Inl DomainTooShort
             else let dlen = unat (p ! 1)
                  in if length p \<noteq> 2 + dlen + 2 then Inl DomainWrongLength
                     else Inr (string_of (take dlen (drop 2 p)) @ '':'' @
                               itoaNat (getBE (take 2 (drop (2 + dlen) p)))))
          else if t = addrTypeIPv6 then
            (if length p \<noteq> 1 + 16 + 2 then Inl (IPv6WrongLength (length p))
             else Inr (''['' @ ipString (take 16 (drop 1 p)) @ '']:'' @
                       itoaNat (getBE (take 2 (drop 17 p)))))
          else Inl (UnknownAddrType t))"

section \<open>Hostnames\<close>

definition lower :: "char \<Rightarrow> bool" where
  "lower c \<longleftrightarrow> 97 \<le> (of_char c :: nat) \<and> (of_char c :: nat) \<le> 122"

definition upper :: "char \<Rightarrow> bool" where
  "upper c \<longleftrightarrow> 65 \<le> (of_char c :: nat) \<and> (of_char c :: nat) \<le> 90"

definition digit :: "char \<Rightarrow> bool" where
  "digit c \<longleftrightarrow> 48 \<le> (of_char c :: nat) \<and> (of_char c :: nat) \<le> 57"

definition isValidHostname :: "string \<Rightarrow> bool" where
  "isValidHostname s \<longleftrightarrow>
     \<not> (length s = 0 \<or> 253 < length s) \<and> parseIP s = None \<and>
     list_all (\<lambda>label.
        \<not> (length label = 0 \<or> 63 < length label) \<and>
        \<not> (label ! 0 = CHR ''-'' \<or> label ! (length label - 1) = CHR ''-'') \<and>
        list_all (\<lambda>c. lower c \<or> upper c \<or> digit c \<or> c = CHR ''-'') label)
       (splitOn CHR ''.'' s)"

definition isPublicIPLiteral :: "string \<Rightarrow> bool" where
  "isPublicIPLiteral s0 =
     (let s = trimPrefix ''['' (trimSuffix '']'' s0)
      in case parseIP s of
           None \<Rightarrow> False
         | Some ip \<Rightarrow>
             \<not> (isLoopback ip \<or> isUnspecified ip \<or> isMulticast ip \<or>
                isLinkLocalUnicast ip \<or> isLinkLocalMulticast ip \<or> isPrivate ip))"

section \<open>The allowlist\<close>

record allowEntry =
  val :: string
  isIP :: bool

definition isValidHostnameChars :: "string \<Rightarrow> bool" where
  "isValidHostnameChars s \<longleftrightarrow>
     list_all (\<lambda>c. lower c \<or> digit c \<or> c = CHR ''-'' \<or> c = CHR ''.'') s \<and>
     list_all (\<lambda>label. label = [] \<or>
        \<not> (label ! 0 = CHR ''-'' \<or> label ! (length label - 1) = CHR ''-'')) (splitOn CHR ''.'' s)"

text \<open>One round of the loop: the entry a raw piece of the flag yields, if any.\<close>

definition parseAllowEntry :: "(string \<Rightarrow> string) \<Rightarrow> string \<Rightarrow> allowEntry option" where
  "parseAllowEntry uni raw =
     (let e1 = trimSpace (toLower uni raw);
          e2 = trimPrefix ''*.'' e1;
          entry = trimSuffix ''.'' e2
      in if entry = [] then None
         else case parseIP entry of
           Some ip \<Rightarrow> Some \<lparr>val = ipString ip, isIP = True\<rparr>
         | None \<Rightarrow>
             if \<not> contains ''.'' entry then None
             else if contains ''..'' entry \<or> \<not> isValidHostnameChars entry then None
             else Some \<lparr>val = entry, isIP = False\<rparr>)"

definition parseAllowList :: "(string \<Rightarrow> string) \<Rightarrow> string \<Rightarrow> allowEntry list" where
  "parseAllowList uni spec =
     (if spec = [] then [] else List.map_filter (parseAllowEntry uni) (splitOn CHR '','' spec))"

text \<open>\<open>strings.Trim(host, "[]")\<close>.\<close>

definition trimBrackets :: "string \<Rightarrow> string" where
  "trimBrackets s =
     (let P = (\<lambda>c. c = CHR ''['' \<or> c = CHR '']'')
      in rev (dropWhile P (rev (dropWhile P s))))"

definition targetHost :: "(string \<Rightarrow> string) \<Rightarrow> string \<Rightarrow> string" where
  "targetHost uni dialAddr =
     (let host0 = (case splitHostPort dialAddr of Some (h, _) \<Rightarrow> h | None \<Rightarrow> dialAddr)
      in trimSuffix ''.'' (toLower uni (trimBrackets host0)))"

definition entryMatches :: "string \<Rightarrow> bytes option \<Rightarrow> allowEntry \<Rightarrow> bool" where
  "entryMatches host hostIP e =
     (if isIP e then (case hostIP of None \<Rightarrow> False | Some ip \<Rightarrow> parseIP (val e) = Some ip)
      else hostIP = None \<and> (host = val e \<or> hasSuffix (''.'' @ val e) host))"

definition isTargetAllowed :: "(string \<Rightarrow> string) \<Rightarrow> allowEntry list \<Rightarrow> string \<Rightarrow> bool" where
  "isTargetAllowed uni allowedDomains dialAddr =
     (if allowedDomains = [] then True
      else let host = targetHost uni dialAddr
           in if host = [] \<or> contains ''..'' host then False
              else list_ex (entryMatches host (parseIP host)) allowedDomains)"

section \<open>Parsing the flag\<close>

lemma parseAllowEntry_domain:
  assumes "parseAllowEntry uni raw = Some e" and "\<not> isIP e"
  shows "CHR ''.'' \<in> set (val e) \<and> \<not> contains ''..'' (val e) \<and> isValidHostnameChars (val e) \<and> parseIP (val e) = None"
  using assms by (auto simp: parseAllowEntry_def Let_def split: if_splits option.splits)

lemma parseAllowEntry_ip:
  assumes "parseAllowEntry uni raw = Some e" and "isIP e"
  shows "\<exists>s ip. parseIP s = Some ip \<and> val e = ipString ip"
proof -
  let ?entry = "trimSuffix ''.'' (trimPrefix ''*.'' (trimSpace (toLower uni raw)))"
  have "\<exists>ip. parseIP ?entry = Some ip \<and> val e = ipString ip"
    using assms by (auto simp: parseAllowEntry_def Let_def split: if_splits option.splits)
  then show ?thesis by blast
qed

lemma parseAllowList_entry:
  "e \<in> set (parseAllowList uni spec) \<Longrightarrow> \<exists>raw. parseAllowEntry uni raw = Some e"
  by (auto simp: parseAllowList_def List.map_filter_def split: if_splits)

section \<open>Which hosts match\<close>

lemma trimBrackets_id:
  assumes "CHR ''['' \<notin> set s" and "CHR '']'' \<notin> set s"
  shows "trimBrackets s = s"
proof -
  have d: "dropWhile (\<lambda>c. c = CHR ''['' \<or> c = CHR '']'') t = t" if "CHR ''['' \<notin> set t" "CHR '']'' \<notin> set t" for t
    using that by (cases t) auto
  show ?thesis using assms by (simp add: trimBrackets_def d)
qed

lemma dotdot_skip: "CHR ''.'' \<notin> set a \<Longrightarrow> contains ''..'' (a @ t) \<longleftrightarrow> contains ''..'' t"
proof (induction a)
  case (Cons c cs)
  then have "\<not> hasPrefix ''..'' ((c # cs) @ t)" by (auto simp: hasPrefix_iff)
  with Cons show ?case by simp
qed simp

lemma dotdot_dot:
  "a \<noteq> [] \<Longrightarrow> CHR ''.'' \<notin> set a \<Longrightarrow> contains ''..'' (CHR ''.'' # a @ t) \<longleftrightarrow> contains ''..'' t"
proof -
  assume a: "a \<noteq> []" "CHR ''.'' \<notin> set a"
  then have "\<not> hasPrefix ''..'' (CHR ''.'' # a @ t)" by (cases a) (auto simp: hasPrefix_iff)
  then show ?thesis using dotdot_skip [OF a(2), of t] by simp
qed

lemma asciiLower_digit: "48 \<le> (of_char c :: nat) \<and> (of_char c :: nat) \<le> 57 \<or> c = CHR ''.'' \<Longrightarrow> asciiLower c = c"
  by (auto simp: asciiLower_def)

lemma targetHost_ip4: "targetHost uni (ip4String ip @ CHR '':'' # itoaNat n) = ip4String ip"
proof -
  have sp: "splitHostPort (ip4String ip @ CHR '':'' # itoaNat n) = Some (ip4String ip, itoaNat n)"
    using splitHostPort_join [of "ip4String ip" "itoaNat n"] by simp
  have asc: "isASCII (ip4String ip)"
    using ip4String_chars [of _ ip] by (fastforce simp: isASCII_def list_all_iff)
  have "map asciiLower (ip4String ip) = ip4String ip"
    using ip4String_chars [of _ ip] asciiLower_digit by (intro map_idI) blast
  then have low: "toLower uni (ip4String ip) = ip4String ip" using asc by (simp add: toLower_def)
  have "\<not> hasSuffix ''.'' (ip4String ip)"
  proof
    assume "hasSuffix ''.'' (ip4String ip)"
    then have "last (ip4String ip) = CHR ''.''" by (auto simp: hasSuffix_iff)
    then have "last (itoaNat (unat (ip ! 3))) = CHR ''.''" by (simp add: ip4String_def)
    then show False using itoaNat_no(9) [of "unat (ip ! 3)"] last_in_set [of "itoaNat (unat (ip ! 3))"] by simp
  qed
  then show ?thesis by (simp add: targetHost_def sp trimBrackets_id low trimSuffix_def)
qed

lemma ip4String_dots: "\<not> contains ''..'' (ip4String ip)"
  by (simp add: ip4String_def dotdot_skip dotdot_dot del: contains.simps)
    (simp add: dotdot_dot [of _ "[]", simplified])

section \<open>Properties\<close>

text \<open>Every entry the flag yields is either the canonical text of an IP address, or a name of at least two
  labels over the hostname alphabet, without empty inner labels, that is not an IP address: a bare
  top-level domain never becomes an entry.\<close>

lemma allow_entries_wellformed:
  assumes "e \<in> set (parseAllowList uni spec)"
  shows "if isIP e then \<exists>s ip. parseIP s = Some ip \<and> val e = ipString ip
         else CHR ''.'' \<in> set (val e) \<and> \<not> contains ''..'' (val e) \<and> isValidHostnameChars (val e) \<and> parseIP (val e) = None"
  using parseAllowList_entry [OF assms] parseAllowEntry_domain parseAllowEntry_ip by auto

text \<open>A name entry admits exactly the name itself and its subdomains, at a label boundary, and never a host
  that is an IP address; an IP entry admits exactly that address.\<close>

lemma entry_matches_iff:
  "entryMatches host (parseIP host) e \<longleftrightarrow>
     (if isIP e then \<exists>ip. parseIP host = Some ip \<and> parseIP (val e) = Some ip
      else parseIP host = None \<and> (host = val e \<or> (\<exists>sub. host = sub @ ''.'' @ val e)))"
  by (auto simp: entryMatches_def hasSuffix_iff split: option.splits)

text \<open>A four-byte target is parsed to its dotted form and, under a non-empty allowlist, may be dialled exactly
  when an entry for this address is on the list; names on the list do not help.\<close>

lemma ipv4_target_allowed_iff:
  assumes "length ip = 4" and "entries \<noteq> []" and "port < 65536"
  shows "\<exists>a. parseTarget (addrTypeIPv4 # ip @ putBE 2 port) = Inr a \<and> a = ip4String ip @ '':'' @ itoaNat port \<and>
     (isTargetAllowed uni entries a \<longleftrightarrow> (\<exists>e\<in>set entries. isIP e \<and> parseIP (val e) = Some (v4InV6Prefix @ ip)))"
proof -
  have s: "ipString ip = ip4String ip" using assms(1) by (simp add: ipString_def to4_def)
  have g: "getBE (putBE 2 port) = port" using assms(3) by (intro getBE_putBE_small) simp
  have "drop 5 (addrTypeIPv4 # ip @ putBE 2 port) = putBE 2 port"
    and "take 4 (drop 1 (addrTypeIPv4 # ip @ putBE 2 port)) = ip"
    using assms(1) by simp_all
  then have "parseTarget (addrTypeIPv4 # ip @ putBE 2 port) = Inr (ip4String ip @ '':'' @ itoaNat port)"
    using assms(1) s g by (simp add: parseTarget_def)
  moreover have "isTargetAllowed uni entries (ip4String ip @ '':'' @ itoaNat port) \<longleftrightarrow>
      (\<exists>e\<in>set entries. isIP e \<and> parseIP (val e) = Some (v4InV6Prefix @ ip))"
    using assms(2)
    by (auto simp: isTargetAllowed_def targetHost_ip4 ip4String_dots parseIP_ip4String [OF assms(1)] list_ex_iff
        entryMatches_def)
  ultimately show ?thesis by simp
qed

text \<open>An entry that is a single label is neither an address nor a usable name.\<close>

lemma parseIPScan_none: "CHR ''.'' \<notin> set t \<Longrightarrow> CHR '':'' \<notin> set t \<Longrightarrow> parseIPScan s t = None"
  by (induction t) auto

lemma contains_dot: "contains ''.'' s \<longleftrightarrow> CHR ''.'' \<in> set s"
  by (induction s) (auto simp: hasPrefix_def)

lemma parseAllowEntry_label:
  assumes "e = trimSuffix ''.'' (trimPrefix ''*.'' (trimSpace (toLower uni raw)))" and "CHR ''.'' \<notin> set e" and "CHR '':'' \<notin> set e"
  shows "parseAllowEntry uni raw = None"
proof -
  have "parseIP e = None" unfolding parseIP_def by (rule parseIPScan_none [OF assms(2,3)])
  moreover have "\<not> contains ''.'' e" using assms(2) by (simp add: contains_dot)
  ultimately show ?thesis using assms(1) by (simp add: parseAllowEntry_def Let_def)
qed

text \<open>C27. The allowlist fails open: when every entry of the flag, lower-cased, trimmed and stripped of a leading \<open>*.\<close> and a
  trailing dot, is a single label (no dot and no colon in it: \<open>com\<close>, \<open>*.org\<close>, a mistyped \<open>matrixorg\<close>), \<open>parseAllowList\<close> ignores
  every one of them, the resulting list is empty, and an empty list means that every target is allowed.\<close>

theorem ignored_allowlist_allows_all:
  assumes "list_all (\<lambda>raw. let e = trimSuffix ''.'' (trimPrefix ''*.'' (trimSpace (toLower uni raw)))
      in CHR ''.'' \<notin> set e \<and> CHR '':'' \<notin> set e) (splitOn CHR '','' spec)"
  shows "parseAllowList uni spec = [] \<and> isTargetAllowed uni (parseAllowList uni spec) target"
proof -
  have "parseAllowEntry uni raw = None" if "raw \<in> set (splitOn CHR '','' spec)" for raw
    using assms that by (intro parseAllowEntry_label) (auto simp: list_all_iff Let_def)
  moreover have "List.map_filter (parseAllowEntry uni) xs = []" if "\<forall>raw\<in>set xs. parseAllowEntry uni raw = None" for xs
    using that by (induction xs) (auto simp: List.map_filter_def)
  ultimately have "parseAllowList uni spec = []" by (simp add: parseAllowList_def)
  then show ?thesis by (simp add: isTargetAllowed_def)
qed

theorem ignored_allowlist_allows_all_witness:
  "isTargetAllowed (\<lambda>s. s) (parseAllowList (\<lambda>s. s) ''com, *.ORG,matrixorg'') ''10.0.0.1:22''"
proof -
  have s: "splitOn CHR '','' ''com, *.ORG,matrixorg'' = [''com'', '' *.ORG'', ''matrixorg'']" by code_simp
  have "trimSuffix ''.'' (trimPrefix ''*.'' (trimSpace (toLower (\<lambda>s. s) ''com''))) = ''com''"
    "trimSuffix ''.'' (trimPrefix ''*.'' (trimSpace (toLower (\<lambda>s. s) '' *.ORG''))) = ''org''"
    "trimSuffix ''.'' (trimPrefix ''*.'' (trimSpace (toLower (\<lambda>s. s) ''matrixorg''))) = ''matrixorg''"
    by code_simp+
  then have "list_all (\<lambda>raw. let e = trimSuffix ''.'' (trimPrefix ''*.'' (trimSpace (toLower (\<lambda>s. s) raw)))
      in CHR ''.'' \<notin> set e \<and> CHR '':'' \<notin> set e) (splitOn CHR '','' ''com, *.ORG,matrixorg'')" unfolding s by simp
  then show ?thesis by (rule ignored_allowlist_allows_all [THEN conjunct2])
qed

end
