(* ===== verification/Session.thy ===== *)
theory Session
  imports Handshake Allowlist "HOL-Library.AList"
begin

text \<open>
  The state of a multiplexed session and its operations, \<open>cmd/mxtr-server/session_v2.go\<close>
  lines 35 to 304: streams and their byte-bounded queues, the session, the writer
  \<open>writeStreamFrame\<close>, \<open>closeStream\<close> and \<open>closeAll\<close>.

  Stream objects live in a heap, the list \<open>objs\<close> of their session, because goroutines
  keep pointers to a stream after its identifier has left the map \<open>streams\<close>; a pointer
  is an index. \<open>sync.Map\<close> is an association list. The two process-wide variables the
  operations touch, \<open>v2GlobalBuffered\<close> and the buffer pools, are next to the session in
  the record \<open>sstate\<close>. Five fields are histories that no operation reads:
  \<open>accepted\<close>, \<open>uwritten\<close> and \<open>granted\<close> of a stream (bytes queued for the upstream,
  bytes written to it, and credit sent to the client so far), \<open>hello\<close> and \<open>sealed\<close> of a
  session (what the connection had carried when the session began, and the random choices
  and plaintexts of the calls of \<open>writeFrame\<close>).
\<close>

section \<open>Constants\<close>

definition v2FrameHeader :: nat where "v2FrameHeader = 7"

definition v2TypeOpen :: byte where "v2TypeOpen = 1"
definition v2TypeData :: byte where "v2TypeData = 2"
definition v2TypeClose :: byte where "v2TypeClose = 3"
definition v2TypePing :: byte where "v2TypePing = 4"
definition v2TypePong :: byte where "v2TypePong = 5"
definition v2TypeOpenOK :: byte where "v2TypeOpenOK = 6"
definition v2TypeOpenErr :: byte where "v2TypeOpenErr = 7"
definition v2TypeWindowUpdate :: byte where "v2TypeWindowUpdate = 8"

definition v2InitialWindow :: int where "v2InitialWindow = 4194304"
definition v2WindowUpdateThreshold :: int where "v2WindowUpdateThreshold = v2InitialWindow div 2"
definition v2SessionBufferCap :: int where "v2SessionBufferCap = 134217728"
definition v2GlobalBufferCap :: int where "v2GlobalBufferCap = 268435456"
definition v2MaxConcurrentOpens :: nat where "v2MaxConcurrentOpens = 64"

lemmas v2_types = v2TypeOpen_def v2TypeData_def v2TypeClose_def v2TypePing_def v2TypePong_def
  v2TypeOpenOK_def v2TypeOpenErr_def v2TypeWindowUpdate_def

lemmas v2_limits = v2InitialWindow_def v2WindowUpdateThreshold_def v2SessionBufferCap_def
  v2GlobalBufferCap_def v2MaxConcurrentOpens_def

section \<open>Streams and sessions\<close>

type_synonym sref = nat

record v2Stream =
  st_id :: u32
  uopen :: bool
  st_closing :: bool
  st_closed :: bool
  queue :: "bytes list"
  qbytes :: int
  accepted :: bytes
  uwritten :: bytes
  granted :: int

text \<open>
  The goroutines of a session, with the point they are at and their local variables.
  \<open>Opener\<dots>\<close> runs \<open>handleOpen\<close>, \<open>Up\<dots>\<close> the upstream reader, \<open>Pump\<dots>\<close> the
  client-to-upstream pump, \<open>Rl\<dots>\<close> the read loop of \<open>handleTCPv2\<close> and its deferred
  teardown.
\<close>

datatype thread =
    Opener u32 bytes
  | OpenerDial u32 string
  | OpenerStore u32 sref
  | OpenerCheck u32 sref
  | OpenerAck u32 sref
  | UpCheck u32 sref
  | UpRead u32 sref
  | UpFail u32 sref
  | PumpWait u32 sref int
  | PumpWrite u32 sref bytes bool int
  | PumpCredit u32 sref int
  | RlRead
  | RlEnqueue sref bytes
  | RlTeardown
  | RlSnapshot
  | RlRange "u32 list"
  | RlExit
  | Pong bytes
  | Heartbeat
  | Finished

record v2Session =
  sid :: int
  cin :: reader
  cout :: writer
  keyC2S :: bytes
  keyS2C :: bytes
  seqRead :: u64
  seqWrite :: u64
  streams :: "(u32 \<times> sref) list"
  openSem :: nat
  sdone :: bool
  sclosed :: bool
  lastActivity :: int
  lastWriteAt :: int
  buffered :: int
  registered :: bool
  objs :: "v2Stream list"
  threads :: "thread list"
  hello :: bytes
  sealed :: "((nat \<times> (nat \<Rightarrow> byte) option) \<times> bytes) list"

record sstate =
  ses :: v2Session
  gbuf :: int
  bpools :: bufpools

text \<open>A fresh stream, as \<open>handleOpen\<close> builds it around the dialled connection.\<close>

definition newStream :: "u32 \<Rightarrow> v2Stream" where
  "newStream i =
     \<lparr>st_id = i, uopen = True, st_closing = False, st_closed = False, queue = [], qbytes = 0,
      accepted = [], uwritten = [], granted = 0\<rparr>"

text \<open>A fresh session, as \<open>handleTCPv2\<close> builds it after the handshake, with its goroutines.\<close>

definition newSession :: "int \<Rightarrow> reader \<Rightarrow> writer \<Rightarrow> bytes \<Rightarrow> bytes \<Rightarrow> int \<Rightarrow> v2Session" where
  "newSession i rd wr kc ks now =
     \<lparr>sid = i, cin = rd, cout = wr, keyC2S = kc, keyS2C = ks, seqRead = 1, seqWrite = 1,
      streams = [], openSem = 0, sdone = False, sclosed = False, lastActivity = now,
      lastWriteAt = now, buffered = 0, registered = True, objs = [],
      threads = [RlRead, Heartbeat], hello = wout wr, sealed = []\<rparr>"

section \<open>Writing a stream frame\<close>

definition streamFrame :: "u32 \<Rightarrow> byte \<Rightarrow> bytes \<Rightarrow> bytes" where
  "streamFrame streamID frameType payload =
     putBE 4 (unat streamID) @ [frameType] @ putBE 2 (length payload) @ payload"

text \<open>\<open>R\<close>: the random choices of the frame; \<open>now\<close>: \<open>time.Now()\<close> after the write.\<close>

definition writeStreamFrame ::
  "crypto \<Rightarrow> wrand \<Rightarrow> int \<Rightarrow> u32 \<Rightarrow> byte \<Rightarrow> bytes \<Rightarrow> sstate \<Rightarrow> bool \<times> sstate" where
  "writeStreamFrame C R now streamID frameType payload S =
     (if maxPlaintextSize - v2FrameHeader < length payload then (False, S)
      else
        let s = ses S; inner = streamFrame streamID frameType payload; seq = seqWrite s;
            (err, w', ps') = writeFrame C R (cout s) (keyS2C s) seq inner (bpools S);
            s1 = s\<lparr>cout := w', seqWrite := seq + 1,
                   sealed := sealed s @ [((roll R, padding R), inner)]\<rparr>
        in if err \<noteq> None then (False, S\<lparr>ses := s1, bpools := ps'\<rparr>)
           else (True, S\<lparr>ses := s1\<lparr>lastWriteAt := now, lastActivity := now\<rparr>, bpools := ps'\<rparr>))"

section \<open>The queue of a stream\<close>

text \<open>
  The updates of \<open>queue\<close> and \<open>qbytes\<close> under the stream's mutex: the read loop appends a
  chunk, the pump takes the first one, closing drops everything.
\<close>

definition pushChunk :: "bytes \<Rightarrow> v2Stream \<Rightarrow> v2Stream" where
  "pushChunk payload st =
     st\<lparr>queue := queue st @ [payload], qbytes := qbytes st + int (length payload),
        accepted := accepted st @ payload\<rparr>"

definition popChunk :: "v2Stream \<Rightarrow> v2Stream" where
  "popChunk st =
     st\<lparr>queue := tl (queue st), qbytes := qbytes st - int (length (hd (queue st)))\<rparr>"

section \<open>Closing\<close>

text \<open>
  Winning the compare-and-swap on \<open>st.closed\<close>: the channel \<open>closing\<close> is closed, the queue
  is dropped, its bytes are given back, the upstream connection is closed.
\<close>

definition shutStream :: "v2Stream \<Rightarrow> v2Stream" where
  "shutStream st =
     st\<lparr>st_closed := True, st_closing := True, qbytes := (if 0 < qbytes st then 0 else qbytes st),
        queue := [], uopen := False\<rparr>"

definition reclaim :: "v2Stream \<Rightarrow> int" where
  "reclaim st = (if 0 < qbytes st then qbytes st else 0)"

definition closeStream :: "u32 \<Rightarrow> sstate \<Rightarrow> sstate" where
  "closeStream streamID S =
     (let s = ses S in
      case map_of (streams s) streamID of
        None \<Rightarrow> S
      | Some r \<Rightarrow>
          let s1 = s\<lparr>streams := AList.delete streamID (streams s)\<rparr>; st = objs s ! r
          in if st_closed st then S\<lparr>ses := s1\<rparr>
             else S\<lparr>ses := s1\<lparr>buffered := buffered s - reclaim st,
                              objs := (objs s)[r := shutStream st]\<rparr>,
                    gbuf := gbuf S - reclaim st\<rparr>)"

text \<open>
  One round of the \<open>Range\<close> in \<open>closeAll\<close>. It reclaims from the global budget only: the
  session's own counter dies with the session.
\<close>

definition closeAllEntry :: "u32 \<Rightarrow> sstate \<Rightarrow> sstate" where
  "closeAllEntry k S =
     (let s = ses S in
      case map_of (streams s) k of
        None \<Rightarrow> S
      | Some r \<Rightarrow>
          let s1 = s\<lparr>streams := AList.delete k (streams s)\<rparr>; st = objs s ! r
          in if st_closed st then S\<lparr>ses := s1\<rparr>
             else S\<lparr>ses := s1\<lparr>objs := (objs s)[r := shutStream st]\<rparr>,
                    gbuf := gbuf S - reclaim st\<rparr>)"

text \<open>Its beginning, run once: the session is marked closed and \<open>done\<close> is closed.\<close>

definition closeAllStart :: "sstate \<Rightarrow> sstate" where
  "closeAllStart S = S\<lparr>ses := (ses S)\<lparr>sclosed := True, sdone := True\<rparr>\<rparr>"

text \<open>\<open>conn.Close()\<close> on the client's connection: reads and writes fail from then on.\<close>

definition closeConn :: "v2Session \<Rightarrow> v2Session" where
  "closeConn s =
     s\<lparr>cin := \<lparr>inbuf = [], rend = ErrOther ''use of closed network connection''\<rparr>,
       cout := (cout s)\<lparr>wbreak := Some 0\<rparr>\<rparr>"

definition closeUpstream :: "sref \<Rightarrow> sstate \<Rightarrow> sstate" where
  "closeUpstream r S =
     S\<lparr>ses := (ses S)\<lparr>objs := (objs (ses S))[r := (objs (ses S) ! r)\<lparr>uopen := False\<rparr>]\<rparr>\<rparr>"

definition touch :: "int \<Rightarrow> v2Session \<Rightarrow> v2Session" where
  "touch now s = s\<lparr>lastActivity := now\<rparr>"

end
