(* ===== verification/Threads.thy ===== *)
theory Threads
  imports Session
begin

text \<open>
  The goroutines of a session, \<open>cmd/mxtr-server/session_v2.go\<close> lines 197 to 243 and 306 to
  609. Each function performs one step of one goroutine, from one synchronisation point
  (mutex, atomic, map operation, network call, channel) to the next, and returns the point
  it has reached, the goroutines it started and the new state; \<open>None\<close> means that the
  goroutine is blocked. A step that ends in \<open>closeStream\<close> runs it as a whole: its
  intermediate states are visible to others only through \<open>st.closed\<close>, which every
  critical section on the stream tests under the stream's mutex.
\<close>

section \<open>Environment\<close>

text \<open>
  \<open>senv\<close>: the globals the goroutines read. \<open>stepin\<close>: what one step gets from outside:
  random choices, the clock, whether a network call the goroutine waits in has returned, the
  outcome of a dial, how many bytes an upstream write accepted, what an upstream read returned,
  whether the read or write reported an error, whether a timer fired. A dial that has not
  returned, and a read or write on an upstream connection that is open and has not returned,
  block their goroutine; on a connection closed at this end Go's reads and writes return at once.
\<close>

record senv =
  crypt :: crypto
  unilow :: "string \<Rightarrow> string"
  allowedDomains :: "allowEntry list"
  scfg :: pskDerivedConfig

record stepin =
  orand :: wrand
  onow :: int
  ready :: bool
  dialOK :: bool
  wrote :: nat
  rdata :: bytes
  rfail :: bool
  fire :: bool
  hbroll :: nat
  hbrnd :: "nat \<Rightarrow> byte"

type_synonym step_result = "(thread \<times> thread list \<times> sstate) option"

definition writeSF :: "senv \<Rightarrow> stepin \<Rightarrow> u32 \<Rightarrow> byte \<Rightarrow> bytes \<Rightarrow> sstate \<Rightarrow> bool \<times> sstate" where
  "writeSF E X i t p S = writeStreamFrame (crypt E) (orand X) (onow X) i t p S"

section \<open>Opening a stream\<close>

text \<open>Leaving the goroutine started for an OPEN gives its semaphore slot back.\<close>

definition releaseOpen :: "sstate \<Rightarrow> sstate" where
  "releaseOpen S = S\<lparr>ses := (ses S)\<lparr>openSem := openSem (ses S) - 1\<rparr>\<rparr>"

fun handleOpen :: "senv \<Rightarrow> stepin \<Rightarrow> thread \<Rightarrow> sstate \<Rightarrow> step_result" where
  "handleOpen E X (Opener i spec) S =
     (case parseTarget spec of
        Inl _ \<Rightarrow> Some (Finished, [], releaseOpen (snd (writeSF E X i v2TypeOpenErr (bytes_of ''bad target'') S)))
      | Inr dialAddr \<Rightarrow>
          if \<not> isTargetAllowed (unilow E) (allowedDomains E) dialAddr
          then Some (Finished, [], releaseOpen (snd (writeSF E X i v2TypeOpenErr (bytes_of ''target not allowed'') S)))
          else Some (OpenerDial i dialAddr, [], S))"
| "handleOpen E X (OpenerDial i dialAddr) S =
     (if \<not> ready X then None
      else if \<not> dialOK X
      then Some (Finished, [], releaseOpen (snd (writeSF E X i v2TypeOpenErr (bytes_of ''dial failed'') S)))
      else Some (OpenerStore i (length (objs (ses S))), [],
                 S\<lparr>ses := (ses S)\<lparr>objs := objs (ses S) @ [newStream i]\<rparr>\<rparr>))"
| "handleOpen E X (OpenerStore i r) S =
     (if map_of (streams (ses S)) i \<noteq> None
      then Some (Finished, [], releaseOpen (closeUpstream r S))
      else Some (OpenerCheck i r, [], S\<lparr>ses := (ses S)\<lparr>streams := AList.update i r (streams (ses S))\<rparr>\<rparr>))"
| "handleOpen E X (OpenerCheck i r) S =
     (if sclosed (ses S)
      then Some (Finished, [],
             releaseOpen (closeUpstream r
               (S\<lparr>ses := (ses S)\<lparr>streams := AList.delete i (streams (ses S))\<rparr>\<rparr>)))
      else Some (OpenerAck i r, [], S))"
| "handleOpen E X (OpenerAck i r) S =
     (let (ok, S1) = writeSF E X i v2TypeOpenOK (putBE 4 (nat v2InitialWindow)) S
      in if \<not> ok then Some (Finished, [], releaseOpen (closeUpstream r (closeStream i S1)))
         else Some (Finished, [UpCheck i r, PumpWait i r 0], releaseOpen S1))"
| "handleOpen E X _ S = None"

section \<open>Upstream to client\<close>

fun upstreamReader :: "senv \<Rightarrow> stepin \<Rightarrow> thread \<Rightarrow> sstate \<Rightarrow> step_result" where
  "upstreamReader E X (UpCheck i r) S =
     (if st_closing (objs (ses S) ! r) then Some (Finished, [], closeUpstream r S)
      else Some (UpRead i r, [], S))"
| "upstreamReader E X (UpRead i r) S =
     (if uopen (objs (ses S) ! r) \<and> \<not> ready X then None
      else
      let buf = take (maxPlaintextSize - v2FrameHeader) (rdata X);
          (ok, S1) = (if buf = [] then (True, S) else writeSF E X i v2TypeData buf S)
      in if \<not> ok then Some (Finished, [], closeUpstream r (closeStream i S1))
         else if rfail X then Some (UpFail i r, [], S1)
         else Some (UpCheck i r, [], S1))"
| "upstreamReader E X (UpFail i r) S =
     (let (_, S1) = writeSF E X i v2TypeClose [] S
      in Some (Finished, [], closeUpstream r (closeStream i S1)))"
| "upstreamReader E X _ S = None"

section \<open>Client to upstream\<close>

text \<open>The critical section of the pump: take the first chunk and give its bytes back.\<close>

definition dequeue :: "sref \<Rightarrow> sstate \<Rightarrow> sstate" where
  "dequeue r S =
     (let s = ses S; st = objs s ! r; n = int (length (hd (queue st)))
      in S\<lparr>ses := s\<lparr>objs := (objs s)[r := popChunk st], buffered := buffered s - n\<rparr>,
           gbuf := gbuf S - n\<rparr>)"

definition upstreamWrite :: "sref \<Rightarrow> bytes \<Rightarrow> sstate \<Rightarrow> sstate" where
  "upstreamWrite r bs S =
     (let s = ses S; st = objs s ! r
      in S\<lparr>ses := s\<lparr>objs := (objs s)[r := st\<lparr>uwritten := uwritten st @ bs\<rparr>]\<rparr>\<rparr>)"

definition noteCredit :: "sref \<Rightarrow> int \<Rightarrow> sstate \<Rightarrow> sstate" where
  "noteCredit r n S =
     (let s = ses S; st = objs s ! r
      in S\<lparr>ses := s\<lparr>objs := (objs s)[r := st\<lparr>granted := granted st + n\<rparr>]\<rparr>\<rparr>)"

fun pump :: "senv \<Rightarrow> stepin \<Rightarrow> thread \<Rightarrow> sstate \<Rightarrow> step_result" where
  "pump E X (PumpWait i r credited) S =
     (let st = objs (ses S) ! r
      in if queue st = [] \<and> \<not> st_closed st then None
         else if st_closed st then Some (Finished, [], S)
         else Some (PumpWrite i r (hd (queue st)) (tl (queue st) = []) credited, [], dequeue r S))"
| "pump E X (PumpWrite i r chunk emptyNow credited) S =
     (if uopen (objs (ses S) ! r) \<and> \<not> ready X then None
      else
      let S1 = upstreamWrite r (take (wrote X) chunk) S
      in if rfail X \<or> wrote X < length chunk then
           (let (_, S2) = writeSF E X i v2TypeClose [] S1
            in Some (Finished, [], closeStream i (closeUpstream r S2)))
         else
           let credited' = credited + int (length chunk)
           in if v2WindowUpdateThreshold \<le> credited' \<or> (emptyNow \<and> 0 < credited')
              then Some (PumpCredit i r credited', [], S1)
              else Some (PumpWait i r credited', [], S1))"
| "pump E X (PumpCredit i r credited) S =
     (let (ok, S1) = writeSF E X i v2TypeWindowUpdate (putBE 4 (nat credited)) S
      in if \<not> ok then Some (Finished, [], closeStream i (closeUpstream r S1))
         else Some (PumpWait i r 0, [], noteCredit r credited S1))"
| "pump E X _ S = None"

section \<open>The read loop\<close>

text \<open>The header checks of the loop; \<open>None\<close>: the handler returns.\<close>

definition splitFrame :: "bytes \<Rightarrow> (u32 \<times> byte \<times> bytes) option" where
  "splitFrame pt =
     (if length pt < v2FrameHeader then None
      else let streamID = word_of_nat (getBE (take 4 pt)); frameType = pt ! 4;
               payloadLen = getBE (take 2 (drop 5 pt))
           in if length pt - v2FrameHeader < payloadLen then None
              else Some (streamID, frameType, take payloadLen (drop v2FrameHeader pt)))"

text \<open>The critical section that hands a chunk to the pump of its stream.\<close>

definition enqueue :: "sref \<Rightarrow> bytes \<Rightarrow> sstate \<Rightarrow> sstate" where
  "enqueue r payload S =
     (let s = ses S; st = objs s ! r; plen = int (length payload)
      in if st_closed st then S
         else S\<lparr>ses := s\<lparr>objs := (objs s)[r := pushChunk payload st], buffered := buffered s + plen\<rparr>,
                gbuf := gbuf S + plen\<rparr>)"

definition overBudget :: "nat \<Rightarrow> sstate \<Rightarrow> bool" where
  "overBudget plen S \<longleftrightarrow>
     v2SessionBufferCap < buffered (ses S) + int plen \<or> v2GlobalBufferCap < gbuf S + int plen"

definition dispatchFrame :: "senv \<Rightarrow> stepin \<Rightarrow> u32 \<Rightarrow> byte \<Rightarrow> bytes \<Rightarrow> sstate \<Rightarrow> step_result" where
  "dispatchFrame E X i frameType payload S =
     (if frameType = v2TypeOpen then
        (if openSem (ses S) < v2MaxConcurrentOpens
         then Some (RlRead, [Opener i payload], S\<lparr>ses := (ses S)\<lparr>openSem := openSem (ses S) + 1\<rparr>\<rparr>)
         else Some (RlRead, [], snd (writeSF E X i v2TypeOpenErr (bytes_of ''server busy'') S)))
      else if frameType = v2TypeData then
        (case map_of (streams (ses S)) i of
           None \<Rightarrow> Some (RlRead, [], S)
         | Some r \<Rightarrow>
             if overBudget (length payload) S
             then Some (RlRead, [], closeStream i (snd (writeSF E X i v2TypeClose [] S)))
             else Some (RlEnqueue r payload, [], S))
      else if frameType = v2TypeClose then Some (RlRead, [], closeStream i S)
      else if frameType = v2TypePing then Some (RlRead, [Pong payload], S)
      else Some (RlRead, [], S))"

text \<open>After a frame has been read: the counter advances and the session is touched.\<close>

definition received :: "reader \<Rightarrow> int \<Rightarrow> sstate \<Rightarrow> sstate" where
  "received rd now S =
     S\<lparr>ses := touch now ((ses S)\<lparr>cin := rd, seqRead := seqRead (ses S) + 1\<rparr>)\<rparr>"

fun readLoop :: "senv \<Rightarrow> stepin \<Rightarrow> thread \<Rightarrow> sstate \<Rightarrow> step_result" where
  "readLoop E X RlRead S =
     (let s = ses S
      in case readFrame (crypt E) (cin s) (keyC2S s) (seqRead s) of
           (Inl _, rd) \<Rightarrow> Some (RlTeardown, [], S\<lparr>ses := s\<lparr>cin := rd\<rparr>\<rparr>)
         | (Inr pt, rd) \<Rightarrow>
             let S1 = received rd (onow X) S
             in case splitFrame pt of
                  None \<Rightarrow> Some (RlTeardown, [], S1)
                | Some (i, frameType, payload) \<Rightarrow> dispatchFrame E X i frameType payload S1)"
| "readLoop E X (RlEnqueue r payload) S = Some (RlRead, [], enqueue r payload S)"
| "readLoop E X RlTeardown S = Some (RlSnapshot, [], closeAllStart S)"
| "readLoop E X RlSnapshot S = Some (RlRange (map fst (streams (ses S))), [], S)"
| "readLoop E X (RlRange ks) S =
     (case ks of
        [] \<Rightarrow> Some (RlExit, [], S)
      | k # rest \<Rightarrow> Some (RlRange rest, [], closeAllEntry k S))"
| "readLoop E X RlExit S =
     Some (Finished, [], S\<lparr>ses := closeConn ((ses S)\<lparr>registered := False\<rparr>)\<rparr>)"
| "readLoop E X _ S = None"

section \<open>Keep-alive\<close>

text \<open>A PONG leaves after its jitter, or never once the session is done.\<close>

fun pongReply :: "senv \<Rightarrow> stepin \<Rightarrow> thread \<Rightarrow> sstate \<Rightarrow> step_result" where
  "pongReply E X (Pong payload) S =
     (if fire X then Some (Finished, [], snd (writeSF E X 0 v2TypePong payload S))
      else if sdone (ses S) then Some (Finished, [], S) else None)"
| "pongReply E X _ S = None"

text \<open>The clamped interval and padding bounds at the head of \<open>heartbeatLoop\<close>.\<close>

definition heartbeatInterval :: "pskDerivedConfig \<Rightarrow> int \<times> int" where
  "heartbeatInterval c =
     (let minMs = heartbeatMinMs c; rangeMs = heartbeatMaxMs c - minMs
      in (minMs, if rangeMs < 0 then 0 else rangeMs))"

definition heartbeatPadding :: "pskDerivedConfig \<Rightarrow> int \<times> int" where
  "heartbeatPadding c =
     (let padMin0 = heartbeatPadMin c; padRange0 = heartbeatPadMax c - padMin0;
          padRange1 = (if padRange0 < 0 then 0 else padRange0);
          padCap = int (maxPlaintextSize - v2FrameHeader);
          padMin = (if padCap < padMin0 then padCap else padMin0);
          padRange = (if padCap < padMin + padRange1 then padCap - padMin else padRange1)
      in (padMin, padRange))"

fun heartbeatLoop :: "senv \<Rightarrow> stepin \<Rightarrow> thread \<Rightarrow> sstate \<Rightarrow> step_result" where
  "heartbeatLoop E X Heartbeat S =
     (if \<not> fire X then (if sdone (ses S) then Some (Finished, [], S) else None)
      else
        let idleThresholdNs = idleThresholdMs (scfg E) * 1000000;
            idleNs = onow X - lastWriteAt (ses S)
        in if idleNs < idleThresholdNs then Some (Heartbeat, [], S)
           else
             let (padMin, padRange) = heartbeatPadding (scfg E);
                 pad = map (hbrnd X) [0..<nat (padMin + int (hbroll X mod nat (padRange + 1)))];
                 (ok, S1) = writeSF E X 0 v2TypePing pad S
             in if \<not> ok then Some (Finished, [], S1) else Some (Heartbeat, [], S1))"
| "heartbeatLoop E X _ S = None"

section \<open>Scheduling\<close>

definition threadStep :: "senv \<Rightarrow> stepin \<Rightarrow> thread \<Rightarrow> sstate \<Rightarrow> step_result" where
  "threadStep E X t S =
     (case t of
        Opener _ _ \<Rightarrow> handleOpen E X t S
      | OpenerDial _ _ \<Rightarrow> handleOpen E X t S
      | OpenerStore _ _ \<Rightarrow> handleOpen E X t S
      | OpenerCheck _ _ \<Rightarrow> handleOpen E X t S
      | OpenerAck _ _ \<Rightarrow> handleOpen E X t S
      | UpCheck _ _ \<Rightarrow> upstreamReader E X t S
      | UpRead _ _ \<Rightarrow> upstreamReader E X t S
      | UpFail _ _ \<Rightarrow> upstreamReader E X t S
      | PumpWait _ _ _ \<Rightarrow> pump E X t S
      | PumpWrite _ _ _ _ _ \<Rightarrow> pump E X t S
      | PumpCredit _ _ _ \<Rightarrow> pump E X t S
      | Pong _ \<Rightarrow> pongReply E X t S
      | Heartbeat \<Rightarrow> heartbeatLoop E X t S
      | Finished \<Rightarrow> None
      | _ \<Rightarrow> readLoop E X t S)"

text \<open>The scheduler runs goroutine \<open>n\<close>; the goroutines it starts join the table.\<close>

definition schedule :: "senv \<Rightarrow> stepin \<Rightarrow> nat \<Rightarrow> sstate \<Rightarrow> sstate option" where
  "schedule E X n S =
     (if n < length (threads (ses S)) then
        (case threadStep E X (threads (ses S) ! n) S of
           None \<Rightarrow> None
         | Some (t, spawned, S1) \<Rightarrow>
             Some (S1\<lparr>ses := (ses S1)\<lparr>threads := (threads (ses S1))[n := t] @ spawned\<rparr>\<rparr>))
      else None)"

lemma RlRead_cases:
  assumes "threadStep E X RlRead S = Some (t', ts, S')"
  obtains (fail) rd err where
      "readFrame (crypt E) (cin (ses S)) (keyC2S (ses S)) (seqRead (ses S)) = (Inl err, rd)"
      "t' = RlTeardown" "ts = []" "S' = S\<lparr>ses := (ses S)\<lparr>cin := rd\<rparr>\<rparr>"
    | (short) rd pt where
      "readFrame (crypt E) (cin (ses S)) (keyC2S (ses S)) (seqRead (ses S)) = (Inr pt, rd)"
      "splitFrame pt = None" "t' = RlTeardown" "ts = []" "S' = received rd (onow X) S"
    | (frame) rd pt i ft p where
      "readFrame (crypt E) (cin (ses S)) (keyC2S (ses S)) (seqRead (ses S)) = (Inr pt, rd)"
      "splitFrame pt = Some (i, ft, p)"
      "dispatchFrame E X i ft p (received rd (onow X) S) = Some (t', ts, S')"
proof (cases "readFrame (crypt E) (cin (ses S)) (keyC2S (ses S)) (seqRead (ses S))")
  case (Pair res rd)
  show thesis
  proof (cases res)
    case (Inl err)
    then show thesis using assms Pair fail by (simp add: threadStep_def Let_def)
  next
    case (Inr pt)
    then show thesis
      using assms Pair short frame
      by (cases "splitFrame pt") (auto simp: threadStep_def Let_def)
  qed
qed

section \<open>What the operations leave alone\<close>

lemma releaseOpen_same [simp]:
  "threads (ses (releaseOpen S)) = threads (ses S)" "cout (ses (releaseOpen S)) = cout (ses S)"
  "cin (ses (releaseOpen S)) = cin (ses S)" "seqWrite (ses (releaseOpen S)) = seqWrite (ses S)"
  "seqRead (ses (releaseOpen S)) = seqRead (ses S)" "sealed (ses (releaseOpen S)) = sealed (ses S)"
  "hello (ses (releaseOpen S)) = hello (ses S)" "keyS2C (ses (releaseOpen S)) = keyS2C (ses S)"
  "keyC2S (ses (releaseOpen S)) = keyC2S (ses S)" "streams (ses (releaseOpen S)) = streams (ses S)"
  "objs (ses (releaseOpen S)) = objs (ses S)" "buffered (ses (releaseOpen S)) = buffered (ses S)"
  "sclosed (ses (releaseOpen S)) = sclosed (ses S)" "sdone (ses (releaseOpen S)) = sdone (ses S)"
  "registered (ses (releaseOpen S)) = registered (ses S)" "sid (ses (releaseOpen S)) = sid (ses S)"
  "gbuf (releaseOpen S) = gbuf S" "bpools (releaseOpen S) = bpools S"
  by (simp_all add: releaseOpen_def Let_def split: option.splits)

lemma closeUpstream_same [simp]:
  "threads (ses (closeUpstream r S)) = threads (ses S)" "openSem (ses (closeUpstream r S)) = openSem (ses S)"
  "cout (ses (closeUpstream r S)) = cout (ses S)" "cin (ses (closeUpstream r S)) = cin (ses S)"
  "seqWrite (ses (closeUpstream r S)) = seqWrite (ses S)" "seqRead (ses (closeUpstream r S)) = seqRead (ses S)"
  "sealed (ses (closeUpstream r S)) = sealed (ses S)" "hello (ses (closeUpstream r S)) = hello (ses S)"
  "keyS2C (ses (closeUpstream r S)) = keyS2C (ses S)" "keyC2S (ses (closeUpstream r S)) = keyC2S (ses S)"
  "streams (ses (closeUpstream r S)) = streams (ses S)" "buffered (ses (closeUpstream r S)) = buffered (ses S)"
  "sclosed (ses (closeUpstream r S)) = sclosed (ses S)" "sdone (ses (closeUpstream r S)) = sdone (ses S)"
  "registered (ses (closeUpstream r S)) = registered (ses S)" "sid (ses (closeUpstream r S)) = sid (ses S)"
  "gbuf (closeUpstream r S) = gbuf S" "bpools (closeUpstream r S) = bpools S"
  by (simp_all add: closeUpstream_def Let_def split: option.splits)

lemma dequeue_same [simp]:
  "threads (ses (dequeue r S)) = threads (ses S)" "openSem (ses (dequeue r S)) = openSem (ses S)"
  "cout (ses (dequeue r S)) = cout (ses S)" "cin (ses (dequeue r S)) = cin (ses S)"
  "seqWrite (ses (dequeue r S)) = seqWrite (ses S)" "seqRead (ses (dequeue r S)) = seqRead (ses S)"
  "sealed (ses (dequeue r S)) = sealed (ses S)" "hello (ses (dequeue r S)) = hello (ses S)"
  "keyS2C (ses (dequeue r S)) = keyS2C (ses S)" "keyC2S (ses (dequeue r S)) = keyC2S (ses S)"
  "streams (ses (dequeue r S)) = streams (ses S)" "sclosed (ses (dequeue r S)) = sclosed (ses S)"
  "sdone (ses (dequeue r S)) = sdone (ses S)" "registered (ses (dequeue r S)) = registered (ses S)"
  "sid (ses (dequeue r S)) = sid (ses S)" "bpools (dequeue r S) = bpools S"
  by (simp_all add: dequeue_def Let_def split: option.splits)

lemma upstreamWrite_same [simp]:
  "threads (ses (upstreamWrite r bs S)) = threads (ses S)" "openSem (ses (upstreamWrite r bs S)) = openSem (ses S)"
  "cout (ses (upstreamWrite r bs S)) = cout (ses S)" "cin (ses (upstreamWrite r bs S)) = cin (ses S)"
  "seqWrite (ses (upstreamWrite r bs S)) = seqWrite (ses S)" "seqRead (ses (upstreamWrite r bs S)) = seqRead (ses S)"
  "sealed (ses (upstreamWrite r bs S)) = sealed (ses S)" "hello (ses (upstreamWrite r bs S)) = hello (ses S)"
  "keyS2C (ses (upstreamWrite r bs S)) = keyS2C (ses S)" "keyC2S (ses (upstreamWrite r bs S)) = keyC2S (ses S)"
  "streams (ses (upstreamWrite r bs S)) = streams (ses S)" "buffered (ses (upstreamWrite r bs S)) = buffered (ses S)"
  "sclosed (ses (upstreamWrite r bs S)) = sclosed (ses S)" "sdone (ses (upstreamWrite r bs S)) = sdone (ses S)"
  "registered (ses (upstreamWrite r bs S)) = registered (ses S)" "sid (ses (upstreamWrite r bs S)) = sid (ses S)"
  "gbuf (upstreamWrite r bs S) = gbuf S" "bpools (upstreamWrite r bs S) = bpools S"
  by (simp_all add: upstreamWrite_def Let_def split: option.splits)

lemma noteCredit_same [simp]:
  "threads (ses (noteCredit r n S)) = threads (ses S)" "openSem (ses (noteCredit r n S)) = openSem (ses S)"
  "cout (ses (noteCredit r n S)) = cout (ses S)" "cin (ses (noteCredit r n S)) = cin (ses S)"
  "seqWrite (ses (noteCredit r n S)) = seqWrite (ses S)" "seqRead (ses (noteCredit r n S)) = seqRead (ses S)"
  "sealed (ses (noteCredit r n S)) = sealed (ses S)" "hello (ses (noteCredit r n S)) = hello (ses S)"
  "keyS2C (ses (noteCredit r n S)) = keyS2C (ses S)" "keyC2S (ses (noteCredit r n S)) = keyC2S (ses S)"
  "streams (ses (noteCredit r n S)) = streams (ses S)" "buffered (ses (noteCredit r n S)) = buffered (ses S)"
  "sclosed (ses (noteCredit r n S)) = sclosed (ses S)" "sdone (ses (noteCredit r n S)) = sdone (ses S)"
  "registered (ses (noteCredit r n S)) = registered (ses S)" "sid (ses (noteCredit r n S)) = sid (ses S)"
  "gbuf (noteCredit r n S) = gbuf S" "bpools (noteCredit r n S) = bpools S"
  by (simp_all add: noteCredit_def Let_def split: option.splits)

lemma closeStream_same [simp]:
  "threads (ses (closeStream i S)) = threads (ses S)" "openSem (ses (closeStream i S)) = openSem (ses S)"
  "cout (ses (closeStream i S)) = cout (ses S)" "cin (ses (closeStream i S)) = cin (ses S)"
  "seqWrite (ses (closeStream i S)) = seqWrite (ses S)" "seqRead (ses (closeStream i S)) = seqRead (ses S)"
  "sealed (ses (closeStream i S)) = sealed (ses S)" "hello (ses (closeStream i S)) = hello (ses S)"
  "keyS2C (ses (closeStream i S)) = keyS2C (ses S)" "keyC2S (ses (closeStream i S)) = keyC2S (ses S)"
  "sclosed (ses (closeStream i S)) = sclosed (ses S)" "sdone (ses (closeStream i S)) = sdone (ses S)"
  "registered (ses (closeStream i S)) = registered (ses S)" "sid (ses (closeStream i S)) = sid (ses S)"
  "bpools (closeStream i S) = bpools S"
  by (simp_all add: closeStream_def Let_def split: option.splits)

lemma closeAllEntry_same [simp]:
  "threads (ses (closeAllEntry i S)) = threads (ses S)" "openSem (ses (closeAllEntry i S)) = openSem (ses S)"
  "cout (ses (closeAllEntry i S)) = cout (ses S)" "cin (ses (closeAllEntry i S)) = cin (ses S)"
  "seqWrite (ses (closeAllEntry i S)) = seqWrite (ses S)" "seqRead (ses (closeAllEntry i S)) = seqRead (ses S)"
  "sealed (ses (closeAllEntry i S)) = sealed (ses S)" "hello (ses (closeAllEntry i S)) = hello (ses S)"
  "keyS2C (ses (closeAllEntry i S)) = keyS2C (ses S)" "keyC2S (ses (closeAllEntry i S)) = keyC2S (ses S)"
  "buffered (ses (closeAllEntry i S)) = buffered (ses S)" "sclosed (ses (closeAllEntry i S)) = sclosed (ses S)"
  "sdone (ses (closeAllEntry i S)) = sdone (ses S)" "registered (ses (closeAllEntry i S)) = registered (ses S)"
  "sid (ses (closeAllEntry i S)) = sid (ses S)" "bpools (closeAllEntry i S) = bpools S"
  by (simp_all add: closeAllEntry_def Let_def split: option.splits)

lemma closeAllStart_same [simp]:
  "threads (ses (closeAllStart S)) = threads (ses S)" "openSem (ses (closeAllStart S)) = openSem (ses S)"
  "cout (ses (closeAllStart S)) = cout (ses S)" "cin (ses (closeAllStart S)) = cin (ses S)"
  "seqWrite (ses (closeAllStart S)) = seqWrite (ses S)" "seqRead (ses (closeAllStart S)) = seqRead (ses S)"
  "sealed (ses (closeAllStart S)) = sealed (ses S)" "hello (ses (closeAllStart S)) = hello (ses S)"
  "keyS2C (ses (closeAllStart S)) = keyS2C (ses S)" "keyC2S (ses (closeAllStart S)) = keyC2S (ses S)"
  "streams (ses (closeAllStart S)) = streams (ses S)" "objs (ses (closeAllStart S)) = objs (ses S)"
  "buffered (ses (closeAllStart S)) = buffered (ses S)" "registered (ses (closeAllStart S)) = registered (ses S)"
  "sid (ses (closeAllStart S)) = sid (ses S)" "gbuf (closeAllStart S) = gbuf S"
  "bpools (closeAllStart S) = bpools S"
  by (simp_all add: closeAllStart_def Let_def split: option.splits)

lemma enqueue_same [simp]:
  "threads (ses (enqueue r p S)) = threads (ses S)" "openSem (ses (enqueue r p S)) = openSem (ses S)"
  "cout (ses (enqueue r p S)) = cout (ses S)" "cin (ses (enqueue r p S)) = cin (ses S)"
  "seqWrite (ses (enqueue r p S)) = seqWrite (ses S)" "seqRead (ses (enqueue r p S)) = seqRead (ses S)"
  "sealed (ses (enqueue r p S)) = sealed (ses S)" "hello (ses (enqueue r p S)) = hello (ses S)"
  "keyS2C (ses (enqueue r p S)) = keyS2C (ses S)" "keyC2S (ses (enqueue r p S)) = keyC2S (ses S)"
  "streams (ses (enqueue r p S)) = streams (ses S)" "sclosed (ses (enqueue r p S)) = sclosed (ses S)"
  "sdone (ses (enqueue r p S)) = sdone (ses S)" "registered (ses (enqueue r p S)) = registered (ses S)"
  "sid (ses (enqueue r p S)) = sid (ses S)" "bpools (enqueue r p S) = bpools S"
  by (simp_all add: enqueue_def Let_def split: option.splits)

lemma writeSF_same [simp]:
  "threads (ses (snd (writeSF E X i t p S))) = threads (ses S)" "openSem (ses (snd (writeSF E X i t p S))) = openSem (ses S)"
  "cin (ses (snd (writeSF E X i t p S))) = cin (ses S)" "seqRead (ses (snd (writeSF E X i t p S))) = seqRead (ses S)"
  "hello (ses (snd (writeSF E X i t p S))) = hello (ses S)" "keyS2C (ses (snd (writeSF E X i t p S))) = keyS2C (ses S)"
  "keyC2S (ses (snd (writeSF E X i t p S))) = keyC2S (ses S)" "streams (ses (snd (writeSF E X i t p S))) = streams (ses S)"
  "objs (ses (snd (writeSF E X i t p S))) = objs (ses S)" "buffered (ses (snd (writeSF E X i t p S))) = buffered (ses S)"
  "sclosed (ses (snd (writeSF E X i t p S))) = sclosed (ses S)" "sdone (ses (snd (writeSF E X i t p S))) = sdone (ses S)"
  "registered (ses (snd (writeSF E X i t p S))) = registered (ses S)" "sid (ses (snd (writeSF E X i t p S))) = sid (ses S)"
  "gbuf (snd (writeSF E X i t p S)) = gbuf S"
  by (simp_all add: writeSF_def writeStreamFrame_def case_prod_beta Let_def split: option.splits)

lemma received_same [simp]:
  "threads (ses (received rd now S)) = threads (ses S)" "openSem (ses (received rd now S)) = openSem (ses S)"
  "cout (ses (received rd now S)) = cout (ses S)" "seqWrite (ses (received rd now S)) = seqWrite (ses S)"
  "sealed (ses (received rd now S)) = sealed (ses S)" "hello (ses (received rd now S)) = hello (ses S)"
  "keyS2C (ses (received rd now S)) = keyS2C (ses S)" "keyC2S (ses (received rd now S)) = keyC2S (ses S)"
  "streams (ses (received rd now S)) = streams (ses S)" "objs (ses (received rd now S)) = objs (ses S)"
  "buffered (ses (received rd now S)) = buffered (ses S)" "sclosed (ses (received rd now S)) = sclosed (ses S)"
  "sdone (ses (received rd now S)) = sdone (ses S)" "registered (ses (received rd now S)) = registered (ses S)"
  "sid (ses (received rd now S)) = sid (ses S)"
  "gbuf (received rd now S) = gbuf S" "bpools (received rd now S) = bpools S"
  by (simp_all add: received_def touch_def)

lemma dispatchFrame_threads:
  "dispatchFrame E X i ft p S = Some (t', ts, S') \<Longrightarrow> threads (ses S') = threads (ses S)"
  by (auto simp: dispatchFrame_def split: if_splits option.splits)

lemma threadStep_threads:
  assumes "threadStep E X t S = Some (t', ts, S')"
  shows "threads (ses S') = threads (ses S)"
proof (cases t)
  case RlRead
  with assms have "threadStep E X RlRead S = Some (t', ts, S')" by simp
  then show ?thesis by (cases rule: RlRead_cases) (auto dest: dispatchFrame_threads)
qed (use assms in \<open>auto simp: threadStep_def Let_def case_prod_beta closeConn_def
      split: if_splits list.splits sum.splits\<close>)

text \<open>One scheduled step, taken apart.\<close>

lemma schedule_SomeE:
  assumes "schedule E X n S = Some S'"
  obtains t ts S1 where "n < length (threads (ses S))"
    and "threadStep E X (threads (ses S) ! n) S = Some (t, ts, S1)"
    and "S' = S1\<lparr>ses := (ses S1)\<lparr>threads := (threads (ses S))[n := t] @ ts\<rparr>\<rparr>"
  using assms threadStep_threads [of E X "threads (ses S) ! n" S]
  by (auto simp: schedule_def split: if_splits option.splits)

end
