(* ===== verification/Accounting.thy ===== *)
theory Accounting
  imports Threads
begin

text \<open>
  The buffer accounting of a session: every stream counts the bytes of its queue, the
  session counts those of its streams, and every step moves the process-wide counter by
  exactly the change of the session's queued bytes. \<open>sessOK\<close> is the invariant,
  \<open>keeps\<close> the contract each operation satisfies.
\<close>

section \<open>Streams: a FIFO queue with a byte count\<close>

text \<open>
  The interface the read loop and the pump rely on: a queue whose contents are a list of
  chunks, with a counter of the bytes in it.
\<close>

locale byte_queue =
  fixes push :: "bytes \<Rightarrow> 'q \<Rightarrow> 'q"
    and pop :: "'q \<Rightarrow> 'q"
    and clear :: "'q \<Rightarrow> 'q"
    and chunks :: "'q \<Rightarrow> bytes list"
    and count :: "'q \<Rightarrow> int"
    and invar :: "'q \<Rightarrow> bool"
  assumes chunks_push: "chunks (push x q) = chunks q @ [x]"
    and chunks_pop: "chunks (pop q) = tl (chunks q)"
    and chunks_clear: "chunks (clear q) = []"
    and count_invar: "invar q \<Longrightarrow> count q = int (length (concat (chunks q)))"
    and invar_push: "invar q \<Longrightarrow> invar (push x q)"
    and invar_pop: "invar q \<Longrightarrow> chunks q \<noteq> [] \<Longrightarrow> invar (pop q)"
    and invar_clear: "invar q \<Longrightarrow> invar (clear q)"
begin

lemma count_nonneg: "invar q \<Longrightarrow> 0 \<le> count q"
  by (simp add: count_invar)

lemma count_push: "invar q \<Longrightarrow> count (push x q) = count q + int (length x)"
  using count_invar [OF invar_push, of q x] by (simp add: chunks_push count_invar)

lemma count_pop:
  assumes "invar q" and "chunks q \<noteq> []"
  shows "count (pop q) = count q - int (length (hd (chunks q)))"
proof -
  from assms(2) obtain c cs where "chunks q = c # cs" by (cases "chunks q") auto
  then show ?thesis
    using count_invar [OF invar_pop [OF assms]] count_invar [OF assms(1)] by (simp add: chunks_pop)
qed

lemma count_clear: "invar q \<Longrightarrow> count (clear q) = 0"
  using count_invar [OF invar_clear] by (simp add: chunks_clear)

text \<open>Pushing a run of chunks and popping as many returns the first ones in order.\<close>

lemma fifo: "chunks q = xs @ ys \<Longrightarrow> chunks ((pop ^^ length xs) q) = ys"
proof (induction xs arbitrary: q)
  case Nil
  then show ?case by simp
next
  case (Cons x xs)
  then have "chunks (pop q) = xs @ ys" by (simp add: chunks_pop)
  then have "chunks ((pop ^^ length xs) (pop q)) = ys" by (rule Cons.IH)
  then show ?case by (simp add: funpow_swap1)
qed

end

definition streamOK :: "v2Stream \<Rightarrow> bool" where
  "streamOK st \<longleftrightarrow>
     qbytes st = int (length (concat (queue st))) \<and>
     (st_closed st \<longleftrightarrow> st_closing st) \<and> (st_closed st \<longrightarrow> queue st = [] \<and> \<not> uopen st)"

definition countOK :: "v2Stream \<Rightarrow> bool" where
  "countOK st \<longleftrightarrow> qbytes st = int (length (concat (queue st)))"

interpretation sq: byte_queue pushChunk popChunk shutStream queue qbytes countOK
proof (unfold_locales, goal_cases)
  case (6 q)
  then show ?case by (cases "queue q") (auto simp: countOK_def popChunk_def)
qed (auto simp: countOK_def pushChunk_def popChunk_def shutStream_def)

lemma streamOK_count: "streamOK st \<Longrightarrow> countOK st"
  by (simp add: streamOK_def countOK_def)

lemma streamOK_new: "streamOK (newStream i)"
  by (simp add: streamOK_def newStream_def)

lemma streamOK_shut: "streamOK st \<Longrightarrow> streamOK (shutStream st)"
  by (auto simp: streamOK_def shutStream_def)

lemma streamOK_push: "streamOK st \<Longrightarrow> \<not> st_closed st \<Longrightarrow> streamOK (pushChunk p st)"
  by (auto simp: streamOK_def pushChunk_def)

lemma streamOK_pop: "streamOK st \<Longrightarrow> queue st \<noteq> [] \<Longrightarrow> streamOK (popChunk st)"
  by (cases "queue st") (auto simp: streamOK_def popChunk_def)

lemma streamOK_closeUp: "streamOK st \<Longrightarrow> streamOK (st\<lparr>uopen := False\<rparr>)"
  by (auto simp: streamOK_def)

lemma streamOK_written: "streamOK st \<Longrightarrow> streamOK (st\<lparr>uwritten := x\<rparr>)"
  by (auto simp: streamOK_def)

lemma streamOK_granted: "streamOK st \<Longrightarrow> streamOK (st\<lparr>granted := x\<rparr>)"
  by (auto simp: streamOK_def)

lemma streamOK_reclaim: "streamOK st \<Longrightarrow> reclaim st = qbytes st"
  by (auto simp: streamOK_def reclaim_def)

section \<open>Sessions\<close>

fun trefs :: "thread \<Rightarrow> sref list" where
  "trefs (OpenerStore _ r) = [r]"
| "trefs (OpenerCheck _ r) = [r]"
| "trefs (OpenerAck _ r) = [r]"
| "trefs (UpCheck _ r) = [r]"
| "trefs (UpRead _ r) = [r]"
| "trefs (UpFail _ r) = [r]"
| "trefs (PumpWait _ r _) = [r]"
| "trefs (PumpWrite _ r _ _ _) = [r]"
| "trefs (PumpCredit _ r _) = [r]"
| "trefs (RlEnqueue r _) = [r]"
| "trefs _ = []"

definition queued :: "v2Session \<Rightarrow> int" where
  "queued s = sum_list (map qbytes (objs s))"

definition heapOK :: "v2Session \<Rightarrow> bool" where
  "heapOK s \<longleftrightarrow>
     (\<forall>st\<in>set (objs s). streamOK st) \<and> distinct (map fst (streams s)) \<and>
     (\<forall>r\<in>snd ` set (streams s). r < length (objs s))"

definition countsOK :: "v2Session \<Rightarrow> bool" where
  "countsOK s \<longleftrightarrow> queued s \<le> buffered s \<and> (\<not> sclosed s \<longrightarrow> buffered s = queued s)"

text \<open>A goroutine points into the heap, and the teardown runs with the session marked closed.\<close>

definition threadOK :: "v2Session \<Rightarrow> thread \<Rightarrow> bool" where
  "threadOK s t \<longleftrightarrow>
     (\<forall>r\<in>set (trefs t). r < length (objs s)) \<and>
     (case t of RlSnapshot \<Rightarrow> sclosed s | RlRange _ \<Rightarrow> sclosed s | RlExit \<Rightarrow> sclosed s | _ \<Rightarrow> True)"

definition sessOK :: "v2Session \<Rightarrow> bool" where
  "sessOK s \<longleftrightarrow> heapOK s \<and> countsOK s \<and> (\<forall>t\<in>set (threads s). threadOK s t)"

text \<open>What an operation keeps: the invariant, the global balance, the threads, the heap.\<close>

definition keeps :: "sstate \<Rightarrow> sstate \<Rightarrow> bool" where
  "keeps S S' \<longleftrightarrow>
     heapOK (ses S') \<and> countsOK (ses S') \<and> gbuf S' - gbuf S = queued (ses S') - queued (ses S) \<and>
     threads (ses S') = threads (ses S) \<and> length (objs (ses S)) \<le> length (objs (ses S')) \<and>
     (sclosed (ses S) \<longrightarrow> sclosed (ses S'))"

abbreviation okS :: "sstate \<Rightarrow> bool" where
  "okS S \<equiv> heapOK (ses S) \<and> countsOK (ses S)"

lemma keeps_refl: "okS S \<Longrightarrow> keeps S S"
  by (simp add: keeps_def)

lemma keeps_trans: "keeps S S1 \<Longrightarrow> keeps S1 S2 \<Longrightarrow> keeps S S2"
  by (auto simp: keeps_def)

lemma keeps_ok: "keeps S S' \<Longrightarrow> okS S'"
  by (simp add: keeps_def)

text \<open>A state that differs only in what the invariant does not read.\<close>

definition sameCore :: "sstate \<Rightarrow> sstate \<Rightarrow> bool" where
  "sameCore S S' \<longleftrightarrow>
     streams (ses S') = streams (ses S) \<and> objs (ses S') = objs (ses S) \<and>
     buffered (ses S') = buffered (ses S) \<and> sclosed (ses S') = sclosed (ses S) \<and>
     threads (ses S') = threads (ses S) \<and> gbuf S' = gbuf S"

lemma sameCore_keeps: "sameCore S S' \<Longrightarrow> okS S \<Longrightarrow> keeps S S'"
  by (auto simp: sameCore_def keeps_def heapOK_def countsOK_def queued_def)

lemma writeSF_sameCore: "sameCore S (snd (writeSF E X i t p S))"
  by (auto simp: writeSF_def writeStreamFrame_def sameCore_def Let_def split: prod.splits)

lemma writeSF_core:
  "writeSF E X i t p S = (ok, S1) \<Longrightarrow> sameCore S S1"
  using writeSF_sameCore [of S E X i t p] by simp

lemma releaseOpen_sameCore: "sameCore S (releaseOpen S)"
  by (simp add: sameCore_def releaseOpen_def)

text \<open>Replacing one stream.\<close>

lemma heapOK_update:
  "heapOK s \<Longrightarrow> streamOK st \<Longrightarrow> objs s' = (objs s)[r := st] \<Longrightarrow> streams s' = streams s \<Longrightarrow> heapOK s'"
  by (auto simp: heapOK_def dest: subsetD [OF set_update_subset_insert])

lemma heapOK_delete:
  "heapOK s \<Longrightarrow> objs s' = objs s \<Longrightarrow> streams s' = AList.delete k (streams s) \<Longrightarrow> heapOK s'"
  by (auto simp: heapOK_def AList.delete_eq distinct_map intro: inj_on_subset)

lemma queued_update:
  "r < length (objs s) \<Longrightarrow> objs s' = (objs s)[r := st] \<Longrightarrow>
   queued s' = queued s - qbytes (objs s ! r) + qbytes st"
  by (simp add: queued_def sum_list_update_int)

lemma heapOK_nth: "heapOK s \<Longrightarrow> r < length (objs s) \<Longrightarrow> streamOK (objs s ! r)"
  by (simp add: heapOK_def)

lemma heapOK_ref: "heapOK s \<Longrightarrow> map_of (streams s) i = Some r \<Longrightarrow> r < length (objs s)"
  by (force simp: heapOK_def dest: map_of_SomeD)

text \<open>Replacing one stream by another with as many queued bytes.\<close>

lemma replace_keeps:
  assumes "okS S" and "r < length (objs (ses S))" and "streamOK st"
    and "qbytes st = qbytes (objs (ses S) ! r)"
  shows "keeps S (S\<lparr>ses := (ses S)\<lparr>objs := (objs (ses S))[r := st]\<rparr>\<rparr>)" (is "keeps S ?S")
proof -
  have h: "heapOK (ses S)" using assms by blast
  have "heapOK (ses ?S)" by (rule heapOK_update [OF h assms(3), of _ r]) simp_all
  moreover have "queued (ses ?S) = queued (ses S)"
    using queued_update [OF assms(2), of "ses ?S" st] assms(4) by simp
  ultimately show ?thesis using assms by (auto simp: keeps_def countsOK_def)
qed

lemma closeUpstream_keeps:
  "okS S \<Longrightarrow> r < length (objs (ses S)) \<Longrightarrow> keeps S (closeUpstream r S)"
  unfolding closeUpstream_def
  by (rule replace_keeps) (auto intro: streamOK_closeUp heapOK_nth)

lemma upstreamWrite_keeps:
  "okS S \<Longrightarrow> r < length (objs (ses S)) \<Longrightarrow> keeps S (upstreamWrite r bs S)"
  unfolding upstreamWrite_def Let_def
  by (rule replace_keeps) (auto intro: streamOK_written heapOK_nth)

lemma noteCredit_keeps:
  "okS S \<Longrightarrow> r < length (objs (ses S)) \<Longrightarrow> keeps S (noteCredit r n S)"
  unfolding noteCredit_def Let_def
  by (rule replace_keeps) (auto intro: streamOK_granted heapOK_nth)

lemma closeStream_keeps:
  assumes "okS S"
  shows "keeps S (closeStream i S)"
proof (cases "map_of (streams (ses S)) i")
  case None
  then show ?thesis using assms by (simp add: closeStream_def keeps_refl)
next
  case (Some r)
  then have r: "r < length (objs (ses S))" using assms heapOK_ref by blast
  let ?st = "objs (ses S) ! r"
  have st: "streamOK ?st" using assms r heapOK_nth by blast
  let ?s1 = "(ses S)\<lparr>streams := AList.delete i (streams (ses S))\<rparr>"
  have h1: "heapOK ?s1" by (rule heapOK_delete [of "ses S"]) (simp_all add: assms)
  show ?thesis
  proof (cases "st_closed ?st")
    case True
    then show ?thesis
      using Some assms h1 by (simp add: closeStream_def Let_def keeps_def countsOK_def queued_def)
  next
    case False
    let ?s2 = "?s1\<lparr>buffered := buffered (ses S) - reclaim ?st, objs := (objs (ses S))[r := shutStream ?st]\<rparr>"
    have h2: "heapOK ?s2"
      by (rule heapOK_update [OF h1 streamOK_shut [OF st], of _ r]) simp_all
    have q2: "queued ?s2 = queued (ses S) - reclaim ?st"
      using queued_update [of r "ses S" ?s2 "shutStream ?st"] r st
      by (simp add: streamOK_reclaim sq.count_clear streamOK_count)
    show ?thesis
      using Some False assms h2 q2
      by (auto simp: closeStream_def Let_def keeps_def countsOK_def)
  qed
qed

lemma closeAllEntry_keeps:
  assumes "okS S" and "sclosed (ses S)"
  shows "keeps S (closeAllEntry i S)"
proof (cases "map_of (streams (ses S)) i")
  case None
  then show ?thesis using assms by (simp add: closeAllEntry_def keeps_refl)
next
  case (Some r)
  then have r: "r < length (objs (ses S))" using assms heapOK_ref by blast
  let ?st = "objs (ses S) ! r"
  have st: "streamOK ?st" using assms r heapOK_nth by blast
  let ?s1 = "(ses S)\<lparr>streams := AList.delete i (streams (ses S))\<rparr>"
  have h1: "heapOK ?s1" by (rule heapOK_delete [of "ses S"]) (simp_all add: assms)
  show ?thesis
  proof (cases "st_closed ?st")
    case True
    then show ?thesis
      using Some assms h1 by (simp add: closeAllEntry_def Let_def keeps_def countsOK_def queued_def)
  next
    case False
    let ?s2 = "?s1\<lparr>objs := (objs (ses S))[r := shutStream ?st]\<rparr>"
    have h2: "heapOK ?s2"
      by (rule heapOK_update [OF h1 streamOK_shut [OF st], of _ r]) simp_all
    have q2: "queued ?s2 = queued (ses S) - reclaim ?st"
      using queued_update [of r "ses S" ?s2 "shutStream ?st"] r st
      by (simp add: streamOK_reclaim sq.count_clear streamOK_count)
    have "0 \<le> reclaim ?st" by (simp add: reclaim_def)
    with Some False assms h2 q2 show ?thesis
      by (auto simp: closeAllEntry_def Let_def keeps_def countsOK_def)
  qed
qed

lemma closeAllStart_keeps: "okS S \<Longrightarrow> keeps S (closeAllStart S)"
  by (auto simp: closeAllStart_def keeps_def heapOK_def countsOK_def queued_def)

lemma enqueue_keeps:
  assumes "okS S" and r: "r < length (objs (ses S))"
  shows "keeps S (enqueue r p S)"
proof (cases "st_closed (objs (ses S) ! r)")
  case True
  then show ?thesis using assms by (simp add: enqueue_def Let_def keeps_refl)
next
  case False
  let ?st = "objs (ses S) ! r"
  have st: "streamOK ?st" using assms heapOK_nth by blast
  have h: "heapOK (ses S)" using assms by blast
  let ?s = "(ses S)\<lparr>objs := (objs (ses S))[r := pushChunk p ?st],
                    buffered := buffered (ses S) + int (length p)\<rparr>"
  have "heapOK ?s" by (rule heapOK_update [OF h streamOK_push [OF st False], of _ r]) simp_all
  moreover have "queued ?s = queued (ses S) + int (length p)"
    using queued_update [OF r, of ?s "pushChunk p ?st"] st by (simp add: sq.count_push streamOK_count)
  ultimately show ?thesis
    using False assms by (auto simp: enqueue_def Let_def keeps_def countsOK_def)
qed

lemma dequeue_keeps:
  assumes "okS S" and r: "r < length (objs (ses S))" and ne: "queue (objs (ses S) ! r) \<noteq> []"
  shows "keeps S (dequeue r S)"
proof -
  let ?st = "objs (ses S) ! r"
  have st: "streamOK ?st" using assms heapOK_nth by blast
  have h: "heapOK (ses S)" using assms by blast
  let ?s = "(ses S)\<lparr>objs := (objs (ses S))[r := popChunk ?st],
                    buffered := buffered (ses S) - int (length (hd (queue ?st)))\<rparr>"
  have "heapOK ?s" by (rule heapOK_update [OF h streamOK_pop [OF st ne], of _ r]) simp_all
  moreover have "queued ?s = queued (ses S) - int (length (hd (queue ?st)))"
    using queued_update [OF r, of ?s "popChunk ?st"] st ne by (simp add: sq.count_pop streamOK_count)
  ultimately show ?thesis
    using assms by (auto simp: dequeue_def Let_def keeps_def countsOK_def)
qed

lemma allocate_keeps:
  assumes "okS S"
  shows "keeps S (S\<lparr>ses := (ses S)\<lparr>objs := objs (ses S) @ [newStream i]\<rparr>\<rparr>)"
  using assms streamOK_new [of i]
  by (auto simp: keeps_def heapOK_def countsOK_def queued_def newStream_def)

lemma store_keeps:
  assumes "okS S" and "r < length (objs (ses S))"
  shows "keeps S (S\<lparr>ses := (ses S)\<lparr>streams := AList.update i r (streams (ses S))\<rparr>\<rparr>)"
proof -
  have "snd ` set (AList.update i r al) \<subseteq> insert r (snd ` set al)" for al :: "(u32 \<times> sref) list"
    by (induction al) auto
  then have "\<forall>x\<in>snd ` set (AList.update i r (streams (ses S))). x < length (objs (ses S))"
    using assms by (fastforce simp: heapOK_def)
  with assms show ?thesis
    by (simp add: keeps_def heapOK_def countsOK_def queued_def distinct_update)
qed

lemma unstore_keeps:
  assumes "okS S"
  shows "keeps S (S\<lparr>ses := (ses S)\<lparr>streams := AList.delete i (streams (ses S))\<rparr>\<rparr>)"
proof -
  have "heapOK ((ses S)\<lparr>streams := AList.delete i (streams (ses S))\<rparr>)"
    by (rule heapOK_delete [of "ses S"]) (simp_all add: assms)
  with assms show ?thesis by (auto simp: keeps_def countsOK_def queued_def)
qed

section \<open>Steps\<close>

text \<open>The same facts, as rules that extend a run of operations by one.\<close>

lemma keeps_then: "keeps S0 S \<Longrightarrow> (okS S \<Longrightarrow> keeps S S') \<Longrightarrow> keeps S0 S'"
  using keeps_trans keeps_ok by blast

lemma keeps_length: "keeps S0 S \<Longrightarrow> r < length (objs (ses S0)) \<Longrightarrow> r < length (objs (ses S))"
  by (simp add: keeps_def)

lemma writeSF_then: "keeps S0 S \<Longrightarrow> keeps S0 (snd (writeSF E X i t p S))"
  by (rule keeps_then) (auto intro: sameCore_keeps writeSF_sameCore)

lemma releaseOpen_then: "keeps S0 S \<Longrightarrow> keeps S0 (releaseOpen S)"
  by (rule keeps_then) (auto intro: sameCore_keeps releaseOpen_sameCore)

lemma closeStream_then: "keeps S0 S \<Longrightarrow> keeps S0 (closeStream i S)"
  by (rule keeps_then) (auto intro: closeStream_keeps)

lemma closeUpstream_then:
  "keeps S0 S \<Longrightarrow> r < length (objs (ses S0)) \<Longrightarrow> keeps S0 (closeUpstream r S)"
  by (rule keeps_then) (auto intro: closeUpstream_keeps keeps_length)

lemma upstreamWrite_then:
  "keeps S0 S \<Longrightarrow> r < length (objs (ses S0)) \<Longrightarrow> keeps S0 (upstreamWrite r bs S)"
  by (rule keeps_then) (auto intro: upstreamWrite_keeps keeps_length)

lemma noteCredit_then:
  "keeps S0 S \<Longrightarrow> r < length (objs (ses S0)) \<Longrightarrow> keeps S0 (noteCredit r n S)"
  by (rule keeps_then) (auto intro: noteCredit_keeps keeps_length)

lemmas keeps_rules = keeps_refl writeSF_then releaseOpen_then closeStream_then closeUpstream_then
  upstreamWrite_then noteCredit_then

definition stepOK :: "sstate \<Rightarrow> step_result \<Rightarrow> bool" where
  "stepOK S res \<longleftrightarrow>
     (case res of None \<Rightarrow> True
      | Some (t, ts, S') \<Rightarrow> keeps S S' \<and> threadOK (ses S') t \<and> (\<forall>u\<in>set ts. threadOK (ses S') u))"

lemma stepOK_None [simp]: "stepOK S None"
  by (simp add: stepOK_def)

lemma stepOK_Some:
  "stepOK S (Some (t, ts, S')) \<longleftrightarrow>
   keeps S S' \<and> threadOK (ses S') t \<and> (\<forall>u\<in>set ts. threadOK (ses S') u)"
  by (simp add: stepOK_def)

lemma threadOK_keeps: "keeps S S' \<Longrightarrow> threadOK (ses S) t \<Longrightarrow> threadOK (ses S') t"
  by (fastforce simp: threadOK_def keeps_def split: thread.splits)

lemma threadOK_refs: "keeps S S' \<Longrightarrow> r < length (objs (ses S)) \<Longrightarrow> r < length (objs (ses S'))"
  by (simp add: keeps_def)

lemma stepOK_finished: "keeps S S' \<Longrightarrow> stepOK S (Some (Finished, [], S'))"
  by (simp add: stepOK_Some threadOK_def)

lemma stepOK_goes:
  "keeps S S' \<Longrightarrow> threadOK (ses S) t \<Longrightarrow> (\<And>u. u \<in> set ts \<Longrightarrow> threadOK (ses S) u) \<Longrightarrow>
   stepOK S (Some (t, ts, S'))"
  by (auto simp: stepOK_Some intro: threadOK_keeps)

lemma handleOpen_keeps:
  assumes "okS S" and "threadOK (ses S) t"
  shows "stepOK S (handleOpen E X t S)"
proof (cases t)
  case (Opener i spec)
  then show ?thesis
    using assms
    by (auto intro!: stepOK_finished stepOK_goes keeps_rules simp: threadOK_def split: sum.splits)
next
  case (OpenerDial i a)
  then show ?thesis
    using assms allocate_keeps [OF assms(1), of i]
    by (auto intro!: stepOK_finished keeps_rules simp: stepOK_Some threadOK_def)
next
  case (OpenerStore i r)
  then have r: "r < length (objs (ses S))" using assms by (simp add: threadOK_def)
  then show ?thesis
    using OpenerStore assms store_keeps [OF assms(1) r, of i]
    by (auto intro!: stepOK_finished keeps_rules simp: stepOK_Some threadOK_def)
next
  case (OpenerCheck i r)
  then have r: "r < length (objs (ses S))" using assms by (simp add: threadOK_def)
  then show ?thesis
    using OpenerCheck assms unstore_keeps [OF assms(1), of i]
    by (auto intro!: stepOK_finished stepOK_goes keeps_rules simp: threadOK_def
        intro: releaseOpen_then closeUpstream_then)
next
  case (OpenerAck i r)
  then have r: "r < length (objs (ses S))" using assms by (simp add: threadOK_def)
  then show ?thesis
    using OpenerAck assms
    by (auto simp: case_prod_beta Let_def threadOK_def intro!: stepOK_finished stepOK_goes keeps_rules)
qed simp_all

lemma upstreamReader_keeps:
  assumes "okS S" and "threadOK (ses S) t"
  shows "stepOK S (upstreamReader E X t S)"
  using assms
  by (cases t)
    (auto simp: case_prod_beta Let_def threadOK_def intro!: stepOK_finished stepOK_goes keeps_rules)

lemma pump_keeps:
  assumes "okS S" and "threadOK (ses S) t"
  shows "stepOK S (pump E X t S)"
proof (cases t)
  case (PumpWait i r c)
  then have r: "r < length (objs (ses S))" using assms by (simp add: threadOK_def)
  show ?thesis
    using PumpWait assms r dequeue_keeps [OF assms(1) r]
    by (auto simp: Let_def threadOK_def intro!: stepOK_finished stepOK_goes keeps_refl)
qed (use assms in \<open>auto simp: case_prod_beta Let_def threadOK_def
       intro!: stepOK_finished stepOK_goes keeps_rules\<close>)

lemma heartbeatLoop_keeps: "okS S \<Longrightarrow> stepOK S (heartbeatLoop E X t S)"
  by (cases t) (auto simp: case_prod_beta Let_def threadOK_def intro!: stepOK_finished stepOK_goes keeps_rules)

lemma pongReply_keeps: "okS S \<Longrightarrow> stepOK S (pongReply E X t S)"
  by (cases t) (auto intro!: stepOK_finished keeps_rules)

lemma dispatchFrame_keeps:
  assumes "okS S"
  shows "stepOK S (dispatchFrame E X i ft p S)"
proof -
  have "keeps S (S\<lparr>ses := (ses S)\<lparr>openSem := n\<rparr>\<rparr>)" for n
    using assms by (intro sameCore_keeps) (simp_all add: sameCore_def)
  then show ?thesis
    using assms heapOK_ref [of "ses S" i]
    by (auto simp: dispatchFrame_def threadOK_def split: option.splits
        intro!: stepOK_finished stepOK_goes keeps_rules)
qed

lemma stepOK_trans:
  "keeps S S1 \<Longrightarrow> stepOK S1 res \<Longrightarrow> stepOK S res"
  by (auto simp: stepOK_def split: option.splits intro: keeps_trans)

lemma readLoop_keeps:
  assumes "okS S" and "threadOK (ses S) t"
  shows "stepOK S (readLoop E X t S)"
proof (cases t)
  case RlRead
  have c: "keeps S (S\<lparr>ses := (ses S)\<lparr>cin := rd\<rparr>\<rparr>)" for rd
    using assms by (intro sameCore_keeps) (simp_all add: sameCore_def)
  have k: "keeps S (received rd n S)" for n rd
    using assms by (intro sameCore_keeps) (simp_all add: sameCore_def)
  have d: "stepOK S (dispatchFrame E X i ft p (received rd n S))" for i ft p n rd
    by (rule stepOK_trans [OF k dispatchFrame_keeps [OF keeps_ok [OF k]]])
  show ?thesis
    unfolding RlRead
    by (auto simp: Let_def threadOK_def split: prod.splits sum.splits option.splits
        intro!: stepOK_goes c k d)
next
  case (RlEnqueue r p)
  then show ?thesis
    using assms by (auto simp: threadOK_def intro!: stepOK_goes enqueue_keeps)
next
  case RlTeardown
  then show ?thesis
    using closeAllStart_keeps [OF assms(1)] by (simp add: stepOK_Some threadOK_def closeAllStart_def)
next
  case (RlRange ks)
  then show ?thesis
    using assms by (auto simp: threadOK_def split: list.splits intro!: stepOK_goes closeAllEntry_keeps keeps_refl)
next
  case RlExit
  then show ?thesis
    using assms by (auto intro!: stepOK_finished sameCore_keeps simp: sameCore_def closeConn_def)
qed (use assms in \<open>auto simp: threadOK_def intro!: stepOK_goes keeps_refl\<close>)

lemma threadStep_keeps:
  "okS S \<Longrightarrow> threadOK (ses S) t \<Longrightarrow> stepOK S (threadStep E X t S)"
  unfolding threadStep_def
  by (cases t) (simp_all only: thread.case stepOK_None handleOpen_keeps upstreamReader_keeps
      pump_keeps pongReply_keeps heartbeatLoop_keeps readLoop_keeps)

lemma schedule_keeps:
  assumes "sessOK (ses S)" and "schedule E X n S = Some S'"
  shows "sessOK (ses S')" and "gbuf S' - gbuf S = queued (ses S') - queued (ses S)"
proof -
  from assms(2) obtain t ts S1 where n: "n < length (threads (ses S))"
    and st: "threadStep E X (threads (ses S) ! n) S = Some (t, ts, S1)"
    and S': "S' = S1\<lparr>ses := (ses S1)\<lparr>threads := (threads (ses S))[n := t] @ ts\<rparr>\<rparr>"
    by (rule schedule_SomeE)
  have "threadOK (ses S) (threads (ses S) ! n)" using assms(1) n by (simp add: sessOK_def)
  then have ok: "stepOK S (Some (t, ts, S1))"
    using threadStep_keeps [of S _ E X] assms(1) st by (metis sessOK_def)
  then have k: "keeps S S1" and t: "threadOK (ses S1) t" and ts: "\<forall>u\<in>set ts. threadOK (ses S1) u"
    by (simp_all add: stepOK_Some)
  have same: "threadOK (ses S') u = threadOK (ses S1) u" for u
    by (simp add: S' threadOK_def split: thread.splits)
  have "\<forall>u\<in>set (threads (ses S)). threadOK (ses S1) u"
    using assms(1) k threadOK_keeps by (metis sessOK_def)
  then have "\<forall>u\<in>set (threads (ses S')). threadOK (ses S') u"
    unfolding same using t ts by (auto simp: S' dest: subsetD [OF set_update_subset_insert])
  then show "sessOK (ses S')"
    using k by (simp add: sessOK_def S' keeps_def heapOK_def countsOK_def queued_def)
  show "gbuf S' - gbuf S = queued (ses S') - queued (ses S)"
    using k by (simp add: S' keeps_def queued_def)
qed

end
