(* ===== verification/World.thy ===== *)
theory World
  imports Accounting
begin

text \<open>
  The whole process: all sessions, the process-wide byte counter, the buffer pools and the
  connection counter, with the three kinds of event that change them: a goroutine of some
  session runs, a connection arrives (\<open>handleTCPv2\<close> up to its read loop), the reaper ticks
  (\<open>reapV2Sessions\<close>, \<open>session_v2.go\<close> lines 133 to 154). The locale \<open>session_inv\<close> states
  what makes a property of a single session hold in every reachable world.
\<close>

record world =
  wsess :: "v2Session list"
  v2GlobalBuffered :: int
  wpools :: bufpools
  connCounter :: int

definition initWorld :: world where
  "initWorld = \<lparr>wsess = [], v2GlobalBuffered = 0, wpools = empty_pools, connCounter = 0\<rparr>"

definition view :: "nat \<Rightarrow> world \<Rightarrow> sstate" where
  "view k W = \<lparr>ses = wsess W ! k, gbuf = v2GlobalBuffered W, bpools = wpools W\<rparr>"

definition putback :: "nat \<Rightarrow> sstate \<Rightarrow> world \<Rightarrow> world" where
  "putback k S W =
     W\<lparr>wsess := (wsess W)[k := ses S], v2GlobalBuffered := gbuf S, wpools := bpools S\<rparr>"

text \<open>
  \<open>handleTCPv2\<close> until its read loop starts. A connection that is not established leaves
  only the counter behind; \<open>now\<close> is the clock when the session is built.
\<close>

definition handleTCPv2 ::
  "crypto \<Rightarrow> srvglobals \<Rightarrow> hsenv \<Rightarrow> int \<Rightarrow> reader \<Rightarrow> writer \<Rightarrow> world \<Rightarrow> world" where
  "handleTCPv2 C G H now conn w W =
     (let i = connCounter W + 1; W1 = W\<lparr>connCounter := i\<rparr>
      in case acceptConn C G H conn w of
           (Established nonceC nonceS kc ks, rd, wr) \<Rightarrow>
             W1\<lparr>wsess := wsess W @ [newSession i rd wr kc ks now]\<rparr>
         | _ \<Rightarrow> W1)"

definition v2SessionIdleTimeout :: int where
  "v2SessionIdleTimeout = 5 * 60 * 1000000000"

definition reapV2Sessions :: "int \<Rightarrow> world \<Rightarrow> world" where
  "reapV2Sessions now W =
     (let cutoff = now - v2SessionIdleTimeout
      in W\<lparr>wsess := map (\<lambda>s. if registered s \<and> lastActivity s < cutoff then closeConn s else s) (wsess W)\<rparr>)"

inductive wstep :: "srvglobals \<Rightarrow> senv \<Rightarrow> world \<Rightarrow> world \<Rightarrow> bool" for G :: srvglobals and E :: senv where
  run: "k < length (wsess W) \<Longrightarrow> schedule E X n (view k W) = Some S' \<Longrightarrow> wstep G E W (putback k S' W)"
| conn: "wstep G E W (handleTCPv2 (crypt E) G H now rd wr W)"
| reap: "wstep G E W (reapV2Sessions now W)"

inductive wreach :: "srvglobals \<Rightarrow> senv \<Rightarrow> world \<Rightarrow> bool" for G :: srvglobals and E :: senv where
  start: "wreach G E initWorld"
| step: "wreach G E W \<Longrightarrow> wstep G E W W' \<Longrightarrow> wreach G E W'"

inductive_cases wstepE: "wstep G E W W'"

lemma handleTCPv2_cases:
  obtains (old) "wsess (handleTCPv2 C G H now rd wr W) = wsess W"
    | (new) i rd' wr' kc ks where
        "wsess (handleTCPv2 C G H now rd wr W) = wsess W @ [newSession i rd' wr' kc ks now]"
proof (cases "acceptConn C G H rd wr")
  case (fields out rd' wr')
  then show thesis using that by (cases out) (auto simp: handleTCPv2_def Let_def)
qed

lemma handleTCPv2_same [simp]:
  "v2GlobalBuffered (handleTCPv2 C G H now rd wr W) = v2GlobalBuffered W"
  "wpools (handleTCPv2 C G H now rd wr W) = wpools W"
  by (simp_all add: handleTCPv2_def Let_def split: prod.splits outcome.splits)

lemma reapV2Sessions_same [simp]:
  "v2GlobalBuffered (reapV2Sessions now W) = v2GlobalBuffered W"
  "wpools (reapV2Sessions now W) = wpools W"
  by (simp_all add: reapV2Sessions_def Let_def)

lemma view_simps [simp]:
  "ses (view k W) = wsess W ! k" "gbuf (view k W) = v2GlobalBuffered W" "bpools (view k W) = wpools W"
  by (simp_all add: view_def)

lemma putback_simps [simp]:
  "wsess (putback k S W) = (wsess W)[k := ses S]" "v2GlobalBuffered (putback k S W) = gbuf S"
  "wpools (putback k S W) = bpools S"
  by (simp_all add: putback_def)

section \<open>The buffer pools\<close>

lemma writeFrame_pools:
  assumes "pools_ok ps"
  shows "pools_ok (snd (snd (writeFrame C R w key seq pt ps)))"
proof (cases "padding R")
  case None
  have "pools_ok (putInnerBuf b (snd (getInnerBuf k n ps)))" for b k n
    using getInnerBuf_sound [OF assms, of k n] putInnerBuf_sound by (metis prod.collapse)
  then show ?thesis using None assms by (simp add: writeFrame_def Let_def case_prod_beta)
next
  case (Some rnd)
  obtain e w' ps' where wf: "writeFrame C R w key seq pt ps = (e, w', ps')" by (metis prod_cases3)
  show ?thesis
  proof (cases "length pt \<le> maxPlaintextSize")
    case True
    then show ?thesis using writeFrame_outcome(1) [OF assms True Some wf] wf by simp
  next
    case False
    then show ?thesis using assms by (simp add: writeFrame_def)
  qed
qed

lemma writeSF_pools: "pools_ok (bpools S) \<Longrightarrow> pools_ok (bpools (snd (writeSF E X i t p S)))"
  by (simp add: writeSF_def writeStreamFrame_def Let_def case_prod_beta writeFrame_pools)

lemma threadStep_pools:
  assumes "pools_ok (bpools S)" and "threadStep E X t S = Some (t', ts, S')"
  shows "pools_ok (bpools S')"
proof (cases t)
  case (Opener i spec)
  then show ?thesis using assms
    by (auto simp: threadStep_def writeSF_pools split: sum.splits if_splits)
next
  case RlRead
  have d: "pools_ok (bpools T) \<Longrightarrow> dispatchFrame E X i ft p T = Some (t', ts, S') \<Longrightarrow> pools_ok (bpools S')"
    for i ft p T
    by (auto simp: dispatchFrame_def writeSF_pools split: if_splits option.splits)
  from RlRead assms(2) have "threadStep E X RlRead S = Some (t', ts, S')" by simp
  then show ?thesis
  proof (cases rule: RlRead_cases)
    case (frame rd pt i ft p)
    then show ?thesis using d [OF _ frame(3)] assms(1) by simp
  qed (use assms(1) in simp_all)
qed (use assms in \<open>auto simp: threadStep_def Let_def case_prod_beta writeSF_pools
      split: if_splits list.splits\<close>)

lemma schedule_pools:
  assumes "pools_ok (bpools S)" and "schedule E X n S = Some S'"
  shows "pools_ok (bpools S')"
  using assms(2) threadStep_pools [OF assms(1)] by (auto elim!: schedule_SomeE)

lemma wreach_pools: "wreach G E W \<Longrightarrow> pools_ok (wpools W)"
proof (induction rule: wreach.induct)
  case start
  then show ?case by (simp add: initWorld_def)
next
  case (step W W')
  from step.hyps(2) show ?case
  proof cases
    case (run k X n S')
    then show ?thesis using schedule_pools [of "view k W" E X n S'] step.IH by simp
  qed (use step.IH in simp_all)
qed

section \<open>Properties of one session\<close>

locale session_inv =
  fixes E :: senv and I :: "v2Session \<Rightarrow> bool"
  assumes inv_new: "I (newSession i rd wr kc ks now)"
    and inv_step: "I (ses S) \<Longrightarrow> pools_ok (bpools S) \<Longrightarrow> schedule E X n S = Some S' \<Longrightarrow> I (ses S')"
    and inv_reap: "I s \<Longrightarrow> I (closeConn s)"
begin

lemma always: "wreach G E W \<Longrightarrow> s \<in> set (wsess W) \<Longrightarrow> I s"
proof (induction arbitrary: s rule: wreach.induct)
  case start
  then show ?case by (simp add: initWorld_def)
next
  case (step W W')
  from step.hyps(2) step.prems show ?case
  proof cases
    case (run k X n S')
    then have "I (wsess W ! k)" using step.IH by simp
    then have "I (ses S')"
      using inv_step [of "view k W" X n S'] run wreach_pools [OF step.hyps(1)] by simp
    then show ?thesis
      using step.prems step.IH run by (auto dest: subsetD [OF set_update_subset_insert])
  next
    case (conn H now rd wr)
    then show ?thesis
      using step.prems step.IH inv_new
      by (cases rule: handleTCPv2_cases [of "crypt E" G H now rd wr W]) auto
  next
    case (reap now)
    then show ?thesis
      using step.prems step.IH inv_reap by (auto simp: reapV2Sessions_def Let_def split: if_splits)
  qed
qed

end

lemma sessOK_new: "sessOK (newSession i rd wr kc ks now)"
  by (simp add: sessOK_def newSession_def heapOK_def countsOK_def queued_def threadOK_def)

lemma closeConn_simps [simp]:
  "streams (closeConn s) = streams s" "objs (closeConn s) = objs s" "threads (closeConn s) = threads s"
  "buffered (closeConn s) = buffered s" "sclosed (closeConn s) = sclosed s"
  "openSem (closeConn s) = openSem s" "sdone (closeConn s) = sdone s"
  "seqWrite (closeConn s) = seqWrite s" "seqRead (closeConn s) = seqRead s"
  "sealed (closeConn s) = sealed s" "hello (closeConn s) = hello s" "keyS2C (closeConn s) = keyS2C s"
  by (simp_all add: closeConn_def)

lemma threadOK_closeConn [simp]: "threadOK (closeConn s) t = threadOK s t"
  by (simp only: threadOK_def closeConn_simps)

lemma sessOK_closeConn: "sessOK s \<Longrightarrow> sessOK (closeConn s)"
  by (simp add: sessOK_def heapOK_def countsOK_def queued_def)

interpretation acc: session_inv E sessOK for E
  by unfold_locales (rule sessOK_new, erule (1) schedule_keeps(1), erule sessOK_closeConn)

section \<open>The global counter\<close>

lemma queued_new [simp]: "queued (newSession i rd wr kc ks now) = 0"
  by (simp add: queued_def newSession_def)

lemma queued_closeConn [simp]: "queued (closeConn s) = queued s"
  by (simp add: queued_def closeConn_def)

lemma queued_nonneg: "sessOK s \<Longrightarrow> 0 \<le> queued s"
  unfolding queued_def
  by (rule sum_list_nonneg_int) (auto simp: sessOK_def heapOK_def streamOK_def)

lemma wreach_global:
  "wreach G E W \<Longrightarrow> v2GlobalBuffered W = sum_list (map queued (wsess W))"
proof (induction rule: wreach.induct)
  case start
  then show ?case by (simp add: initWorld_def)
next
  case (step W W')
  from step.hyps(2) show ?case
  proof cases
    case (run k X n S')
    have "sessOK (wsess W ! k)" using acc.always [OF step.hyps(1)] run by simp
    then have "gbuf S' - v2GlobalBuffered W = queued (ses S') - queued (wsess W ! k)"
      using schedule_keeps(2) [of "view k W" E X n S'] run by simp
    then show ?thesis using run step.IH by (simp add: sum_list_update_int)
  next
    case (conn H now rd wr)
    then show ?thesis
      using step.IH by (cases rule: handleTCPv2_cases [of "crypt E" G H now rd wr W]) auto
  next
    case (reap now)
    have "map queued (wsess (reapV2Sessions now W)) = map queued (wsess W)"
      by (simp add: reapV2Sessions_def Let_def)
    then show ?thesis using reap step.IH by simp
  qed
qed

end
