(* ===== verification/Limits.thy ===== *)
theory Limits
  imports World
begin

text \<open>
  The limits the server promises: at most \<open>v2MaxConcurrentOpens\<close> goroutines open streams in
  a session, at most \<open>v2SessionBufferCap\<close> bytes are queued in it, and the process-wide
  total exceeds \<open>v2GlobalBufferCap\<close> by at most one payload per further session that holds
  queued bytes.
\<close>

section \<open>The kinds of goroutines\<close>

fun readerThread :: "thread \<Rightarrow> bool" where
  "readerThread RlRead = True"
| "readerThread (RlEnqueue _ _) = True"
| "readerThread RlTeardown = True"
| "readerThread RlSnapshot = True"
| "readerThread (RlRange _) = True"
| "readerThread RlExit = True"
| "readerThread _ = False"

fun openerThread :: "thread \<Rightarrow> bool" where
  "openerThread (Opener _ _) = True"
| "openerThread (OpenerDial _ _) = True"
| "openerThread (OpenerStore _ _) = True"
| "openerThread (OpenerCheck _ _) = True"
| "openerThread (OpenerAck _ _) = True"
| "openerThread _ = False"

fun pendingBytes :: "thread \<Rightarrow> nat" where
  "pendingBytes (RlEnqueue _ p) = length p"
| "pendingBytes _ = 0"

definition openers :: "thread list \<Rightarrow> nat" where
  "openers ts = length (filter openerThread ts)"

lemma openers_append [simp]: "openers (ts @ us) = openers ts + openers us"
  by (simp add: openers_def)

lemma openers_Nil [simp]: "openers [] = 0"
  by (simp add: openers_def)

lemma openers_Cons [simp]: "openers (t # ts) = (if openerThread t then 1 else 0) + openers ts"
  by (simp add: openers_def)

lemma openers_update:
  "n < length ts \<Longrightarrow>
   openers (ts[n := t]) + (if openerThread (ts ! n) then 1 else 0) =
   openers ts + (if openerThread t then 1 else 0)"
proof (induction ts arbitrary: n)
  case (Cons u us)
  then show ?case by (cases n) auto
qed simp

section \<open>Effects of the operations on the counters\<close>

lemma openSem_release [simp]: "openSem (ses (releaseOpen S)) = openSem (ses S) - 1"
  by (simp add: releaseOpen_def)

text \<open>Giving bytes back, to the session's budget and to the global one.\<close>

definition gives :: "sstate \<Rightarrow> sstate \<Rightarrow> bool" where
  "gives S S' \<longleftrightarrow> buffered (ses S') \<le> buffered (ses S) \<and> gbuf S' \<le> gbuf S"

lemma gives_refl: "gives S S"
  by (simp add: gives_def)

lemma gives_closeStream: "gives S0 S \<Longrightarrow> gives S0 (closeStream i S)"
  by (auto simp: gives_def closeStream_def reclaim_def Let_def split: option.splits)

lemma gives_closeAllEntry: "gives S0 S \<Longrightarrow> gives S0 (closeAllEntry i S)"
  by (auto simp: gives_def closeAllEntry_def reclaim_def Let_def split: option.splits)

lemma gives_dequeue: "gives S0 S \<Longrightarrow> gives S0 (dequeue r S)"
  by (auto simp: gives_def dequeue_def Let_def)

lemma gives_other:
  "gives S0 S \<Longrightarrow> gives S0 (snd (writeSF E X i t p S))"
  "gives S0 S \<Longrightarrow> gives S0 (closeUpstream r S)"
  "gives S0 S \<Longrightarrow> gives S0 (upstreamWrite r bs S)"
  "gives S0 S \<Longrightarrow> gives S0 (noteCredit r n S)"
  "gives S0 S \<Longrightarrow> gives S0 (releaseOpen S)"
  "gives S0 S \<Longrightarrow> gives S0 (S\<lparr>ses := (ses S)\<lparr>openSem := k\<rparr>\<rparr>)"
  "gives S0 S \<Longrightarrow> gives S0 (S\<lparr>ses := (ses S)\<lparr>objs := h\<rparr>\<rparr>)"
  "gives S0 S \<Longrightarrow> gives S0 (S\<lparr>ses := (ses S)\<lparr>streams := m\<rparr>\<rparr>)"
  by (simp_all add: gives_def)

lemmas gives_rules = gives_refl gives_closeStream gives_closeAllEntry gives_dequeue gives_other

lemma enqueue_adds:
  "buffered (ses (enqueue r p S)) \<le> buffered (ses S) + int (length p)"
  "gbuf (enqueue r p S) \<le> gbuf S + int (length p)"
  by (simp_all add: enqueue_def Let_def)

section \<open>Steps\<close>

lemma splitFrame_payload:
  assumes "splitFrame pt = Some (i, ft, p)"
  shows "length p \<le> 65535"
proof -
  have "length (take 2 (drop 5 pt)) = 2" and "length p \<le> getBE (take 2 (drop 5 pt))"
    using assms by (auto simp: splitFrame_def v2FrameHeader_def Let_def split: if_splits)
  then show ?thesis using getBE_less [of "take 2 (drop 5 pt)"] by simp
qed

text \<open>
  Every goroutine but the read loop leaves the budget alone or gives bytes back, and none of
  them is or starts a read loop.
\<close>

lemma other_step:
  assumes "\<not> readerThread t" and "threadStep E X t S = Some (t', ts, S')"
  shows "\<not> readerThread t' \<and> (\<forall>u\<in>set ts. \<not> readerThread u) \<and> gives S S'"
  using assms
  by (cases t) (auto simp: threadStep_def Let_def case_prod_beta intro!: gives_rules
      split: if_splits sum.splits)

text \<open>
  The read loop adds to the budget only what it has checked: with \<open>b0\<close> and \<open>g0\<close> the
  counters before, and the pending chunk counted as queued.
\<close>

definition budgeted :: "int \<Rightarrow> int \<Rightarrow> thread \<Rightarrow> sstate \<Rightarrow> bool" where
  "budgeted b0 g0 t S \<longleftrightarrow>
     pendingBytes t = 0 \<and> buffered (ses S) \<le> b0 \<and> gbuf S \<le> g0 \<or>
     pendingBytes t \<le> 65535 \<and> buffered (ses S) = b0 \<and> gbuf S = g0 \<and>
     b0 + int (pendingBytes t) \<le> v2SessionBufferCap \<and> g0 + int (pendingBytes t) \<le> v2GlobalBufferCap"

lemma budgeted_gives:
  "gives S S' \<Longrightarrow> pendingBytes t = 0 \<Longrightarrow> budgeted (buffered (ses S)) (gbuf S) t S'"
  by (simp add: budgeted_def gives_def)

lemma dispatchFrame_budget:
  assumes "dispatchFrame E X i ft p S = Some (t', ts, S')" and "length p \<le> 65535"
  shows "(\<forall>u\<in>set ts. \<not> readerThread u) \<and> budgeted (buffered (ses S)) (gbuf S) t' S'"
proof -
  have r: "budgeted (buffered (ses S)) (gbuf S) (RlEnqueue r p) S" if "\<not> overBudget (length p) S" for r S
    using that assms(2) by (simp add: budgeted_def overBudget_def)
  show ?thesis
    using assms(1)
    by (auto simp: dispatchFrame_def intro!: budgeted_gives [where t = RlRead] r gives_rules
        split: if_splits option.splits)
qed

lemma reader_step:
  assumes "readerThread t" and "threadStep E X t S = Some (t', ts, S')"
  shows "(\<forall>u\<in>set ts. \<not> readerThread u) \<and>
         budgeted (buffered (ses S) + int (pendingBytes t)) (gbuf S + int (pendingBytes t)) t' S'"
proof (cases t)
  case RlRead
  with assms(2) have "threadStep E X RlRead S = Some (t', ts, S')" by simp
  then show ?thesis
  proof (cases rule: RlRead_cases)
    case (frame rd pt i ft p)
    then show ?thesis
      using dispatchFrame_budget [OF frame(3) splitFrame_payload [OF frame(2)]] RlRead by simp
  qed (simp_all add: RlRead budgeted_def)
next
  case (RlEnqueue r p)
  then show ?thesis
    using assms enqueue_adds [of r p S] by (auto simp: threadStep_def budgeted_def)
next
  case (RlRange ks)
  then show ?thesis
    using assms by (auto simp: threadStep_def intro!: budgeted_gives gives_rules split: list.splits)
qed (use assms in \<open>auto simp: threadStep_def budgeted_def closeConn_def\<close>)

text \<open>The semaphore follows the number of goroutines that open a stream.\<close>

lemma dispatchFrame_openers:
  assumes "dispatchFrame E X i ft p S = Some (t', ts, S')"
  shows "\<not> openerThread t' \<and> openSem (ses S') = openSem (ses S) + openers ts \<and>
         (0 < openers ts \<longrightarrow> openSem (ses S') \<le> v2MaxConcurrentOpens)"
  using assms by (auto simp: dispatchFrame_def split: if_splits option.splits)

lemma step_openers:
  assumes "threadStep E X t S = Some (t', ts, S')" and "openerThread t \<longrightarrow> 0 < openSem (ses S)"
  shows "openSem (ses S') + (if openerThread t then 1 else 0) =
           openSem (ses S) + (if openerThread t' then 1 else 0) + openers ts \<and>
         (openSem (ses S') \<le> openSem (ses S) \<or> openSem (ses S') \<le> v2MaxConcurrentOpens)"
proof (cases t)
  case RlRead
  with assms(1) have "threadStep E X RlRead S = Some (t', ts, S')" by simp
  then show ?thesis
  proof (cases rule: RlRead_cases)
    case (frame rd pt i ft p)
    then show ?thesis using dispatchFrame_openers [OF frame(3)] RlRead by auto
  qed (simp_all add: RlRead)
next
  case (RlRange ks)
  then show ?thesis
    using assms by (auto simp: threadStep_def split: list.splits)
qed (use assms in \<open>auto simp: threadStep_def Let_def case_prod_beta closeConn_def split: if_splits sum.splits\<close>)

section \<open>The invariants of a session\<close>

definition limitsOK :: "v2Session \<Rightarrow> bool" where
  "limitsOK s \<longleftrightarrow>
     (\<exists>t0 ts. threads s = t0 # ts \<and> (\<forall>u\<in>set ts. \<not> readerThread u) \<and>
        pendingBytes t0 \<le> 65535 \<and> buffered s + int (pendingBytes t0) \<le> v2SessionBufferCap) \<and>
     openSem s = openers (threads s) \<and> openSem s \<le> v2MaxConcurrentOpens"

lemma pendingBytes_other: "\<not> readerThread t \<Longrightarrow> pendingBytes t = 0"
  by (cases t) auto

text \<open>The outcome of a scheduled step for the counters, whichever goroutine ran.\<close>

lemma schedule_budget:
  assumes thr: "threads (ses S) = t0 # us" and us: "\<forall>u\<in>set us. \<not> readerThread u"
    and sch: "schedule E X n S = Some S'"
  obtains t0' us' where "threads (ses S') = t0' # us'" and "\<forall>u\<in>set us'. \<not> readerThread u"
    and "budgeted (buffered (ses S) + int (pendingBytes t0)) (gbuf S + int (pendingBytes t0)) t0' S'
         \<or> t0' = t0 \<and> gives S S'"
proof -
  from sch obtain t ts S1 where n: "n < length (t0 # us)"
    and st: "threadStep E X ((t0 # us) ! n) S = Some (t, ts, S1)"
    and S': "S' = S1\<lparr>ses := (ses S1)\<lparr>threads := (t0 # us)[n := t] @ ts\<rparr>\<rparr>"
    unfolding thr [symmetric] by (rule schedule_SomeE)
  show thesis
  proof (cases n)
    case 0
    show thesis
    proof (cases "readerThread t0")
      case True
      with reader_step [of t0 E X S t ts S1] st 0 us show thesis
        by (intro that [of t "us @ ts"]) (auto simp: S' 0 budgeted_def)
    next
      case False
      with other_step [of t0 E X S t ts S1] st 0 us pendingBytes_other show thesis
        by (intro that [of t "us @ ts"]) (auto simp: S' 0 budgeted_def gives_def)
    qed
  next
    case (Suc m)
    with n us have "\<not> readerThread (us ! m)" by simp
    with other_step [of "us ! m" E X S t ts S1] st Suc us show thesis
      by (intro that [of t0 "us[m := t] @ ts"])
        (auto simp: S' gives_def dest: subsetD [OF set_update_subset_insert])
  qed
qed

lemma limitsOK_openers:
  assumes "limitsOK (ses S)" and sch: "schedule E X n S = Some S'"
  shows "openSem (ses S') = openers (threads (ses S'))" and "openSem (ses S') \<le> v2MaxConcurrentOpens"
proof -
  from sch obtain t ts S1 where n: "n < length (threads (ses S))"
    and st: "threadStep E X (threads (ses S) ! n) S = Some (t, ts, S1)"
    and S': "S' = S1\<lparr>ses := (ses S1)\<lparr>threads := (threads (ses S))[n := t] @ ts\<rparr>\<rparr>"
    by (rule schedule_SomeE)
  have sem: "openSem (ses S) = openers (threads (ses S))" and le: "openSem (ses S) \<le> v2MaxConcurrentOpens"
    using assms(1) by (simp_all add: limitsOK_def)
  have "filter openerThread (threads (ses S)) \<noteq> []" if "openerThread (threads (ses S) ! n)"
    using that nth_mem [OF n] by (auto simp: filter_empty_conv)
  then have "openerThread (threads (ses S) ! n) \<longrightarrow> 0 < openSem (ses S)"
    by (simp add: sem openers_def)
  with step_openers [OF st] openers_update [OF n, of t] sem le
  show "openSem (ses S') = openers (threads (ses S'))" and "openSem (ses S') \<le> v2MaxConcurrentOpens"
    by (auto simp: S' split: if_splits)
qed

lemma limitsOK_step:
  assumes "limitsOK (ses S)" and sch: "schedule E X n S = Some S'"
  shows "limitsOK (ses S')"
proof -
  from assms(1) obtain t0 us where thr: "threads (ses S) = t0 # us" and us: "\<forall>u\<in>set us. \<not> readerThread u"
    and p: "pendingBytes t0 \<le> 65535" "buffered (ses S) + int (pendingBytes t0) \<le> v2SessionBufferCap"
    by (auto simp: limitsOK_def)
  obtain t0' us' where "threads (ses S') = t0' # us'" "\<forall>u\<in>set us'. \<not> readerThread u"
    "budgeted (buffered (ses S) + int (pendingBytes t0)) (gbuf S + int (pendingBytes t0)) t0' S'
       \<or> t0' = t0 \<and> gives S S'"
    by (rule schedule_budget [OF thr us sch])
  with p limitsOK_openers [OF assms] show ?thesis
    by (auto simp: limitsOK_def budgeted_def gives_def)
qed

lemma limitsOK_new: "limitsOK (newSession i rd wr kc ks now)"
  by (simp add: limitsOK_def newSession_def v2_limits)

interpretation lim: session_inv E limitsOK for E
  by unfold_locales (rule limitsOK_new, erule (1) limitsOK_step, simp add: limitsOK_def)

section \<open>The global budget\<close>

text \<open>
  The bytes a session holds or has passed the check for. For any set of sessions the sum
  stays below the cap plus one payload for every session of the set but one: the session
  that checked last saw the queued bytes of all others, and only their pending chunks were
  hidden from it.
\<close>

definition load :: "v2Session \<Rightarrow> int" where
  "load s = queued s + int (pendingBytes (hd (threads s)))"

definition loadsOK :: "v2Session list \<Rightarrow> bool" where
  "loadsOK ss \<longleftrightarrow>
     (\<forall>T \<subseteq> {..<length ss}. T \<noteq> {} \<longrightarrow>
        (\<Sum>k\<in>T. load (ss ! k)) \<le> v2GlobalBufferCap + 65535 * int (card T - 1))"

lemma load_run:
  assumes "sessOK (ses S)" and "limitsOK (ses S)" and sch: "schedule E X n S = Some S'"
  shows "load (ses S') \<le> load (ses S) \<or> gbuf S + load (ses S') - queued (ses S) \<le> v2GlobalBufferCap"
proof -
  from assms(2) obtain t0 us where thr: "threads (ses S) = t0 # us" and us: "\<forall>u\<in>set us. \<not> readerThread u"
    by (auto simp: limitsOK_def)
  obtain t0' us' where thr': "threads (ses S') = t0' # us'"
    and "budgeted (buffered (ses S) + int (pendingBytes t0)) (gbuf S + int (pendingBytes t0)) t0' S'
         \<or> t0' = t0 \<and> gives S S'"
    by (rule schedule_budget [OF thr us sch])
  then show ?thesis
    using schedule_keeps(2) [OF assms(1) sch] thr thr' by (auto simp: load_def budgeted_def gives_def)
qed

lemma sum_update:
  fixes f :: "'a \<Rightarrow> int"
  assumes "k \<in> T" and "T \<subseteq> {..<length xs}"
  shows "(\<Sum>j\<in>T. f (xs[k := x] ! j)) = f x + (\<Sum>j\<in>T - {k}. f (xs ! j))"
proof -
  have fin: "finite T" using assms(2) finite_subset by blast
  have "(\<Sum>j\<in>T - {k}. f (xs[k := x] ! j)) = (\<Sum>j\<in>T - {k}. f (xs ! j))"
    by (rule sum.cong) auto
  then show ?thesis using assms fin by (subst sum.remove [of T k]) auto
qed

lemma loadsOK_step:
  assumes ok: "loadsOK ss" and all: "\<forall>s\<in>set ss. sessOK s \<and> limitsOK s" and k: "k < length ss"
    and g: "g = sum_list (map queued ss)"
    and l: "load s' \<le> load (ss ! k) \<or> g + load s' - queued (ss ! k) \<le> v2GlobalBufferCap"
  shows "loadsOK (ss[k := s'])"
  unfolding loadsOK_def
proof (intro allI impI)
  fix T assume "T \<subseteq> {..<length (ss[k := s'])}" and ne: "T \<noteq> {}"
  then have T: "T \<subseteq> {..<length ss}" and fin: "finite T" using finite_subset by auto
  have old: "(\<Sum>j\<in>T. load (ss ! j)) \<le> v2GlobalBufferCap + 65535 * int (card T - 1)"
    using ok T ne by (simp add: loadsOK_def)
  show "(\<Sum>j\<in>T. load (ss[k := s'] ! j)) \<le> v2GlobalBufferCap + 65535 * int (card T - 1)"
  proof (cases "k \<in> T")
    case False
    then have "(\<Sum>j\<in>T. load (ss[k := s'] ! j)) = (\<Sum>j\<in>T. load (ss ! j))"
      by (intro sum.cong refl arg_cong [of _ _ load] nth_list_update_neq) auto
    then show ?thesis using old by simp
  next
    case kT: True
    have eq: "(\<Sum>j\<in>T. load (ss[k := s'] ! j)) = load s' + (\<Sum>j\<in>T - {k}. load (ss ! j))"
      by (rule sum_update [OF kT T])
    from l show ?thesis
    proof
      assume "load s' \<le> load (ss ! k)"
      moreover have "(\<Sum>j\<in>T. load (ss ! j)) = load (ss ! k) + (\<Sum>j\<in>T - {k}. load (ss ! j))"
        using kT fin by (rule sum.remove [rotated])
      ultimately show ?thesis using eq old by simp
    next
      assume chk: "g + load s' - queued (ss ! k) \<le> v2GlobalBufferCap"
      have "load (ss ! j) \<le> queued (ss ! j) + 65535" if "j \<in> T - {k}" for j
      proof -
        have "limitsOK (ss ! j)" using all T that by (auto dest!: subsetD)
        then show ?thesis by (auto simp: limitsOK_def load_def)
      qed
      then have "(\<Sum>j\<in>T - {k}. load (ss ! j)) \<le> (\<Sum>j\<in>T - {k}. queued (ss ! j) + 65535)"
        by (rule sum_mono)
      also have "\<dots> = (\<Sum>j\<in>T - {k}. queued (ss ! j)) + 65535 * int (card T - 1)"
        using fin kT by (simp add: sum.distrib)
      finally have a: "(\<Sum>j\<in>T - {k}. load (ss ! j)) \<le> (\<Sum>j\<in>T - {k}. queued (ss ! j)) + 65535 * int (card T - 1)" .
      have "(\<Sum>j\<in>T - {k}. queued (ss ! j)) \<le> (\<Sum>j\<in>{..<length ss} - {k}. queued (ss ! j))"
        using T all by (intro sum_mono2) (auto intro: queued_nonneg)
      also have "\<dots> = g - queued (ss ! k)"
        using k sum.remove [of "{..<length ss}" k "\<lambda>j. queued (ss ! j)"]
        by (simp add: g sum_list_sum_nth atLeast0LessThan)
      finally show ?thesis using a chk eq by simp
    qed
  qed
qed

lemma loadsOK_append:
  assumes "loadsOK ss" and "load s = 0"
  shows "loadsOK (ss @ [s])"
  unfolding loadsOK_def
proof (intro allI impI)
  fix T assume T: "T \<subseteq> {..<length (ss @ [s])}" and ne: "T \<noteq> {}"
  let ?T = "T - {length ss}"
  have fin: "finite T" using T finite_subset by blast
  have "(\<Sum>j\<in>T. load ((ss @ [s]) ! j)) = (\<Sum>j\<in>?T. load ((ss @ [s]) ! j))"
    using fin assms(2) by (cases "length ss \<in> T") (simp_all add: sum.remove)
  also have "\<dots> = (\<Sum>j\<in>?T. load (ss ! j))"
    using T by (intro sum.cong) (auto simp: nth_append)
  finally have eq: "(\<Sum>j\<in>T. load ((ss @ [s]) ! j)) = (\<Sum>j\<in>?T. load (ss ! j))" .
  show "(\<Sum>j\<in>T. load ((ss @ [s]) ! j)) \<le> v2GlobalBufferCap + 65535 * int (card T - 1)"
  proof (cases "?T = {}")
    case True
    then show ?thesis unfolding eq by (simp only: sum.empty) (simp add: v2GlobalBufferCap_def)
  next
    case False
    have "?T \<subseteq> {..<length ss}" using T by auto
    then have "(\<Sum>j\<in>?T. load (ss ! j)) \<le> v2GlobalBufferCap + 65535 * int (card ?T - 1)"
      using assms(1) False by (simp add: loadsOK_def)
    moreover have "card ?T \<le> card T" using fin by (intro card_mono) auto
    ultimately show ?thesis unfolding eq by linarith
  qed
qed

lemma wreach_loads: "wreach G E W \<Longrightarrow> loadsOK (wsess W)"
proof (induction rule: wreach.induct)
  case start
  then show ?case by (simp add: initWorld_def loadsOK_def)
next
  case (step W W')
  have all: "\<forall>s\<in>set (wsess W). sessOK s \<and> limitsOK s"
    using acc.always [OF step.hyps(1)] lim.always [OF step.hyps(1)] by blast
  from step.hyps(2) show ?case
  proof cases
    case (run k X n S')
    then have "sessOK (ses (view k W))" and "limitsOK (ses (view k W))" using all by simp_all
    from load_run [OF this run(3)] show ?thesis
      using loadsOK_step [OF step.IH all run(2) wreach_global [OF step.hyps(1)]] run(1) by simp
  next
    case (conn H now rd wr)
    have "load (newSession i rd' wr' kc ks now) = 0" for i rd' wr' kc ks
      by (simp add: load_def newSession_def queued_def)
    then show ?thesis
      using conn step.IH loadsOK_append
      by (cases rule: handleTCPv2_cases [of "crypt E" G H now rd wr W]) auto
  next
    case (reap now)
    have "load (closeConn s) = load s" for s by (simp add: load_def)
    then have "load (wsess W' ! k) = load (wsess W ! k)" if "k < length (wsess W)" for k
      using that reap by (simp add: reapV2Sessions_def Let_def)
    then have "(\<Sum>k\<in>T. load (wsess W' ! k)) = (\<Sum>k\<in>T. load (wsess W ! k))"
      if "T \<subseteq> {..<length (wsess W)}" for T
      using that by (intro sum.cong) auto
    moreover have "length (wsess W') = length (wsess W)" using reap by (simp add: reapV2Sessions_def Let_def)
    ultimately show ?thesis using step.IH by (simp add: loadsOK_def)
  qed
qed

end
