(* ===== verification/Delivery.thy ===== *)
theory Delivery
  imports Limits "HOL-Library.Sublist"
begin

text \<open>
  The client-to-upstream direction of a stream: the bytes the target has received are the
  bytes the client sent, in order, without loss or repetition, up to what still waits in the
  queue or in the hands of the pump; and the credit the client has been given is the number
  of bytes delivered, so that a client that honours its window bounds the queue.
\<close>

section \<open>The state of one stream\<close>

text \<open>
  \<open>flow ch c st\<close>: the pump of \<open>st\<close> holds the chunk \<open>ch\<close> and has \<open>c\<close> delivered bytes
  not yet credited. \<open>base st\<close> needs no pump.
\<close>

definition flow :: "bytes \<Rightarrow> int \<Rightarrow> v2Stream \<Rightarrow> bool" where
  "flow ch c st \<longleftrightarrow>
     (if st_closed st then prefix (uwritten st @ ch) (accepted st)
      else accepted st = uwritten st @ ch @ concat (queue st)) \<and>
     int (length (uwritten st)) = granted st + c"

definition base :: "v2Stream \<Rightarrow> bool" where
  "base st \<longleftrightarrow>
     prefix (uwritten st) (accepted st) \<and>
     length (uwritten st) + length (concat (queue st)) \<le> length (accepted st) \<and>
     granted st \<le> int (length (uwritten st)) \<and> (\<forall>ch\<in>set (queue st). length ch \<le> 65535)"

text \<open>What the steps of all goroutines but the stream's own pump do to a stream.\<close>

definition grows :: "v2Stream \<Rightarrow> v2Stream \<Rightarrow> bool" where
  "grows st st' \<longleftrightarrow>
     st_id st' = st_id st \<and> (\<forall>ch c. flow ch c st \<longrightarrow> flow ch c st') \<and> (base st \<longrightarrow> base st')"

lemma grows_refl: "grows st st"
  by (simp add: grows_def)

lemma grows_trans: "grows a b \<Longrightarrow> grows b c \<Longrightarrow> grows a c"
  by (simp add: grows_def)

lemma grows_push: "\<not> st_closed st \<Longrightarrow> length p \<le> 65535 \<Longrightarrow> grows st (pushChunk p st)"
  by (auto simp: grows_def flow_def base_def pushChunk_def)

lemma grows_shut: "grows st (shutStream st)"
  by (auto simp: grows_def flow_def base_def shutStream_def)

lemma grows_closeUp: "grows st (st\<lparr>uopen := False\<rparr>)"
  by (auto simp: grows_def flow_def base_def)

section \<open>The heap\<close>

definition heapGrows :: "sref option \<Rightarrow> sstate \<Rightarrow> sstate \<Rightarrow> bool" where
  "heapGrows own S S' \<longleftrightarrow>
     length (objs (ses S)) \<le> length (objs (ses S')) \<and>
     (\<forall>r < length (objs (ses S)).
        st_id (objs (ses S') ! r) = st_id (objs (ses S) ! r) \<and>
        (own \<noteq> Some r \<longrightarrow> grows (objs (ses S) ! r) (objs (ses S') ! r)))"

lemma heapGrows_refl: "heapGrows own S S"
  by (simp add: heapGrows_def grows_refl)

lemma heapGrows_same: "heapGrows own S0 S \<Longrightarrow> objs (ses S') = objs (ses S) \<Longrightarrow> heapGrows own S0 S'"
  by (simp add: heapGrows_def)

lemma heapGrows_update:
  assumes g: "heapGrows own S0 S" and h: "objs (ses S') = (objs (ses S))[r := st]"
    and "st_id st = st_id (objs (ses S) ! r)" and "own = Some r \<or> grows (objs (ses S) ! r) st"
  shows "heapGrows own S0 S'"
  unfolding heapGrows_def
proof (intro conjI allI impI)
  show "length (objs (ses S0)) \<le> length (objs (ses S'))" using g h by (simp add: heapGrows_def)
  fix k assume k: "k < length (objs (ses S0))"
  then have l: "k < length (objs (ses S))" using g by (simp add: heapGrows_def)
  show "st_id (objs (ses S') ! k) = st_id (objs (ses S0) ! k)"
    using assms k l by (cases "r = k") (auto simp: heapGrows_def)
  assume "own \<noteq> Some k"
  then show "grows (objs (ses S0) ! k) (objs (ses S') ! k)"
    using assms k l by (cases "r = k") (auto simp: heapGrows_def intro: grows_trans)
qed

lemma objs_update:
  "objs (ses (closeUpstream r S)) = (objs (ses S))[r := (objs (ses S) ! r)\<lparr>uopen := False\<rparr>]"
  "objs (ses (dequeue r S)) = (objs (ses S))[r := popChunk (objs (ses S) ! r)]"
  "objs (ses (upstreamWrite r bs S)) =
     (objs (ses S))[r := (objs (ses S) ! r)\<lparr>uwritten := uwritten (objs (ses S) ! r) @ bs\<rparr>]"
  "objs (ses (noteCredit r n S)) =
     (objs (ses S))[r := (objs (ses S) ! r)\<lparr>granted := granted (objs (ses S) ! r) + n\<rparr>]"
  by (simp_all add: closeUpstream_def dequeue_def upstreamWrite_def noteCredit_def Let_def)

lemma heapGrows_closeUpstream: "heapGrows own S0 S \<Longrightarrow> heapGrows own S0 (closeUpstream r S)"
  by (erule heapGrows_update [OF _ objs_update(1)]) (simp_all add: grows_closeUp)

lemma st_id_same [simp]:
  "st_id (shutStream st) = st_id st" "st_id (pushChunk p st) = st_id st" "st_id (popChunk st) = st_id st"
  by (simp_all add: shutStream_def pushChunk_def popChunk_def)

lemma heapGrows_closeStream: "heapGrows own S0 S \<Longrightarrow> heapGrows own S0 (closeStream i S)"
  by (auto simp: closeStream_def Let_def split: option.splits
      intro: heapGrows_same heapGrows_update [OF _ _ _ disjI2 [OF grows_shut]])

lemma heapGrows_closeAllEntry: "heapGrows own S0 S \<Longrightarrow> heapGrows own S0 (closeAllEntry i S)"
  by (auto simp: closeAllEntry_def Let_def split: option.splits
      intro: heapGrows_same heapGrows_update [OF _ _ _ disjI2 [OF grows_shut]])

lemma heapGrows_enqueue:
  "heapGrows own S0 S \<Longrightarrow> length p \<le> 65535 \<Longrightarrow> heapGrows own S0 (enqueue r p S)"
  by (auto simp: enqueue_def Let_def intro: heapGrows_same heapGrows_update [OF _ _ _ disjI2 [OF grows_push]])

lemma heapGrows_own:
  "heapGrows (Some r) S0 S \<Longrightarrow> heapGrows (Some r) S0 (dequeue r S)"
  "heapGrows (Some r) S0 S \<Longrightarrow> heapGrows (Some r) S0 (upstreamWrite r bs S)"
  "heapGrows (Some r) S0 S \<Longrightarrow> heapGrows (Some r) S0 (noteCredit r n S)"
  by (erule heapGrows_update [OF _ objs_update(2)], simp_all)
    (erule heapGrows_update [OF _ objs_update(3)] heapGrows_update [OF _ objs_update(4)], simp_all)+

lemma heapGrows_alloc:
  "heapGrows own S0 S \<Longrightarrow> heapGrows own S0 (S\<lparr>ses := (ses S)\<lparr>objs := objs (ses S) @ [st]\<rparr>\<rparr>)"
  by (auto simp: heapGrows_def nth_append)

lemma heapGrows_other:
  "heapGrows own S0 S \<Longrightarrow> heapGrows own S0 (snd (writeSF E X i t p S))"
  "heapGrows own S0 S \<Longrightarrow> heapGrows own S0 (releaseOpen S)"
  "heapGrows own S0 S \<Longrightarrow> heapGrows own S0 (received rd now S)"
  "heapGrows own S0 S \<Longrightarrow> heapGrows own S0 (closeAllStart S)"
  "heapGrows own S0 S \<Longrightarrow> heapGrows own S0 (S\<lparr>ses := (ses S)\<lparr>openSem := k\<rparr>\<rparr>)"
  "heapGrows own S0 S \<Longrightarrow> heapGrows own S0 (S\<lparr>ses := (ses S)\<lparr>streams := m\<rparr>\<rparr>)"
  "heapGrows own S0 S \<Longrightarrow> heapGrows own S0 (S\<lparr>ses := (ses S)\<lparr>cin := rd\<rparr>\<rparr>)"
  "heapGrows own S0 S \<Longrightarrow> heapGrows own S0 (S\<lparr>ses := closeConn ((ses S)\<lparr>registered := b\<rparr>)\<rparr>)"
  by (simp_all add: heapGrows_def)

lemmas heapGrows_rules = heapGrows_refl heapGrows_closeUpstream heapGrows_closeStream
  heapGrows_closeAllEntry heapGrows_enqueue heapGrows_own heapGrows_alloc heapGrows_other

section \<open>The goroutine that owns a stream\<close>

text \<open>
  From its allocation on, a stream belongs to the goroutine that opens it, then to its pump.
\<close>

fun owned :: "thread \<Rightarrow> sref option" where
  "owned (OpenerStore _ r) = Some r"
| "owned (OpenerCheck _ r) = Some r"
| "owned (OpenerAck _ r) = Some r"
| "owned (PumpWait _ r _) = Some r"
| "owned (PumpWrite _ r _ _ _) = Some r"
| "owned (PumpCredit _ r _) = Some r"
| "owned _ = None"

fun threadFlow :: "v2Stream list \<Rightarrow> thread \<Rightarrow> bool" where
  "threadFlow h (OpenerStore i r) = (st_id (h ! r) = i \<and> flow [] 0 (h ! r))"
| "threadFlow h (OpenerCheck i r) = (st_id (h ! r) = i \<and> flow [] 0 (h ! r))"
| "threadFlow h (OpenerAck i r) = (st_id (h ! r) = i \<and> flow [] 0 (h ! r))"
| "threadFlow h (PumpWait i r c) =
     (st_id (h ! r) = i \<and> flow [] c (h ! r) \<and> 0 \<le> c \<and> c < v2WindowUpdateThreshold)"
| "threadFlow h (PumpWrite i r ch e c) =
     (st_id (h ! r) = i \<and> flow ch c (h ! r) \<and> length ch \<le> 65535 \<and> 0 \<le> c \<and> c < v2WindowUpdateThreshold)"
| "threadFlow h (PumpCredit i r c) =
     (st_id (h ! r) = i \<and> flow [] c (h ! r) \<and> 0 < c \<and> c < v2WindowUpdateThreshold + 65535)"
| "threadFlow h (UpCheck i r) = (st_id (h ! r) = i)"
| "threadFlow h (UpRead i r) = (st_id (h ! r) = i)"
| "threadFlow h (UpFail i r) = (st_id (h ! r) = i)"
| "threadFlow h (RlEnqueue r p) = (length p \<le> 65535)"
| "threadFlow h _ = True"

lemma threadFlow_grows:
  assumes "threadFlow (objs (ses S)) t" and "heapGrows own S S'" and "owned t = None \<or> own \<noteq> owned t"
    and "\<forall>r\<in>set (trefs t). r < length (objs (ses S))"
  shows "threadFlow (objs (ses S')) t"
  using assms by (cases t) (auto simp: heapGrows_def grows_def)

definition owners :: "thread list \<Rightarrow> sref list" where
  "owners ts = List.map_filter owned ts"

lemma owners_simps [simp]:
  "owners [] = []" "owners (ts @ us) = owners ts @ owners us"
  "owners (t # ts) = (case owned t of None \<Rightarrow> [] | Some r \<Rightarrow> [r]) @ owners ts"
  by (simp_all add: owners_def List.map_filter_def split: option.splits)

lemma dispatchFrame_owned:
  "dispatchFrame E X i ft p S = Some (t', ts, S') \<Longrightarrow> owners (t' # ts) = []"
  by (auto simp: dispatchFrame_def split: if_splits option.splits)

lemma step_owned:
  assumes "threadStep E X t S = Some (t', ts, S')"
  shows "owners (t' # ts) = owners [t] \<or> owners (t' # ts) = [] \<or>
         owners (t' # ts) = [length (objs (ses S))] \<and> owned t = None"
proof (cases t)
  case RlRead
  with assms have "threadStep E X RlRead S = Some (t', ts, S')" by simp
  then show ?thesis by (cases rule: RlRead_cases) (auto dest: dispatchFrame_owned)
qed (use assms in \<open>auto simp: threadStep_def Let_def case_prod_beta split: if_splits list.splits sum.splits\<close>)

lemma owned_trefs: "owned t = Some r \<Longrightarrow> r \<in> set (trefs t)"
  by (cases t) auto

lemma owners_trefs: "r \<in> set (owners ts) \<Longrightarrow> \<exists>t\<in>set ts. r \<in> set (trefs t)"
  by (induction ts) (auto split: option.splits dest!: sym [of "Some _"] owned_trefs)

lemma owners_set: "t \<in> set ts \<Longrightarrow> owned t = Some r \<Longrightarrow> r \<in> set (owners ts)"
  by (induction ts) auto

lemma owners_step:
  assumes d: "distinct (owners ths)" and n: "n < length ths" and b: "\<forall>r\<in>set (owners ths). r < m"
    and new: "owners (t' # ts) = owners [ths ! n] \<or> owners (t' # ts) = [] \<or>
              owners (t' # ts) = [m] \<and> owned (ths ! n) = None"
  shows "distinct (owners (ths[n := t'] @ ts))"
proof -
  let ?a = "owners (take n ths)" and ?b = "owners (drop (Suc n) ths)"
  have old: "owners ths = ?a @ owners [ths ! n] @ ?b"
    by (subst id_take_nth_drop [OF n]) simp
  have "owners (ths[n := t'] @ ts) = ?a @ owners [t'] @ ?b @ owners ts"
    by (subst upd_conv_take_nth_drop [OF n]) simp
  moreover have "owners (t' # ts) = owners [t'] @ owners ts" by simp
  ultimately show ?thesis using d b new unfolding old by (auto split: option.splits)
qed

section \<open>Steps\<close>

definition heapFlow :: "v2Session \<Rightarrow> bool" where
  "heapFlow s \<longleftrightarrow>
     (\<forall>st\<in>set (objs s). base st) \<and> (\<forall>(i, r)\<in>set (streams s). st_id (objs s ! r) = i)"

definition flowStep :: "thread \<Rightarrow> sstate \<Rightarrow> step_result \<Rightarrow> bool" where
  "flowStep t S res \<longleftrightarrow>
     (case res of None \<Rightarrow> True
      | Some (t', ts, S') \<Rightarrow>
          heapGrows (owned t) S S' \<and> threadFlow (objs (ses S')) t' \<and>
          (\<forall>u\<in>set ts. threadFlow (objs (ses S')) u) \<and> heapFlow (ses S'))"

text \<open>Operations that neither allocate nor touch what only the pump may touch.\<close>

definition calm :: "sstate \<Rightarrow> sstate \<Rightarrow> bool" where
  "calm S S' \<longleftrightarrow>
     heapGrows None S S' \<and> length (objs (ses S')) = length (objs (ses S)) \<and>
     set (streams (ses S')) \<subseteq> set (streams (ses S))"

lemma set_delete_subset: "set (AList.delete k al) \<subseteq> set al"
  by (auto simp: AList.delete_eq)

lemma calm_refl: "calm S S"
  by (simp add: calm_def heapGrows_refl)

lemma calm_closeStream: "calm S0 S \<Longrightarrow> calm S0 (closeStream i S)"
  using set_delete_subset [of i "streams (ses S)"] heapGrows_closeStream [of None S0 S i]
  by (auto simp: calm_def) (auto simp: closeStream_def Let_def split: option.splits if_splits)

lemma calm_closeAllEntry: "calm S0 S \<Longrightarrow> calm S0 (closeAllEntry i S)"
  using set_delete_subset [of i "streams (ses S)"] heapGrows_closeAllEntry [of None S0 S i]
  by (auto simp: calm_def) (auto simp: closeAllEntry_def Let_def split: option.splits if_splits)

lemma calm_enqueue: "calm S0 S \<Longrightarrow> length p \<le> 65535 \<Longrightarrow> calm S0 (enqueue r p S)"
  using heapGrows_enqueue [of None S0 S p r] by (auto simp: calm_def) (simp add: enqueue_def Let_def)

lemma calm_closeUpstream: "calm S0 S \<Longrightarrow> calm S0 (closeUpstream r S)"
  using heapGrows_closeUpstream [of None S0 S r] by (auto simp: calm_def objs_update)

lemma calm_other:
  "calm S0 S \<Longrightarrow> calm S0 (snd (writeSF E X i t p S))"
  "calm S0 S \<Longrightarrow> calm S0 (releaseOpen S)"
  "calm S0 S \<Longrightarrow> calm S0 (received rd now S)"
  "calm S0 S \<Longrightarrow> calm S0 (closeAllStart S)"
  "calm S0 S \<Longrightarrow> calm S0 (S\<lparr>ses := (ses S)\<lparr>openSem := k\<rparr>\<rparr>)"
  "calm S0 S \<Longrightarrow> calm S0 (S\<lparr>ses := (ses S)\<lparr>streams := AList.delete i' (streams (ses S))\<rparr>\<rparr>)"
  "calm S0 S \<Longrightarrow> calm S0 (S\<lparr>ses := (ses S)\<lparr>cin := rd\<rparr>\<rparr>)"
  "calm S0 S \<Longrightarrow> calm S0 (S\<lparr>ses := closeConn ((ses S)\<lparr>registered := b\<rparr>)\<rparr>)"
  using set_delete_subset [of i' "streams (ses S)"] by (auto simp: calm_def intro: heapGrows_other)

lemmas calm_rules = calm_refl calm_closeStream calm_closeAllEntry calm_enqueue calm_closeUpstream calm_other

text \<open>A calm run keeps what holds of the heap and of the goroutines.\<close>

lemma calm_heapFlow:
  assumes "calm S S'" and h: "heapFlow (ses S)" and "heapOK (ses S)"
  shows "heapFlow (ses S')"
  unfolding heapFlow_def
proof (intro conjI ballI)
  fix st assume "st \<in> set (objs (ses S'))"
  then obtain r where "r < length (objs (ses S))" and "st = objs (ses S') ! r"
    using assms(1) by (auto simp: calm_def in_set_conv_nth)
  then show "base st" using assms(1) h by (auto simp: calm_def heapGrows_def grows_def heapFlow_def)
next
  fix e assume "e \<in> set (streams (ses S'))"
  then have e: "e \<in> set (streams (ses S))" using assms(1) by (auto simp: calm_def)
  then have "snd e < length (objs (ses S))" using assms(3) by (auto simp: heapOK_def)
  then show "case e of (i, r) \<Rightarrow> st_id (objs (ses S') ! r) = i"
    using assms(1) h e by (fastforce simp: calm_def heapGrows_def heapFlow_def)
qed

lemma threadFlow_calm:
  "calm S S' \<Longrightarrow> threadFlow (objs (ses S)) t \<Longrightarrow> \<forall>r\<in>set (trefs t). r < length (objs (ses S)) \<Longrightarrow>
   threadFlow (objs (ses S')) t"
  by (rule threadFlow_grows [of S t None]) (auto simp: calm_def)

lemma heapGrows_weaken: "heapGrows None S S' \<Longrightarrow> heapGrows own S S'"
  by (simp add: heapGrows_def)

lemma heapGrows_then: "heapGrows own S S1 \<Longrightarrow> heapGrows None S1 S' \<Longrightarrow> heapGrows own S S'"
  by (auto simp: heapGrows_def intro: grows_trans)

lemma flowStep_None [simp]: "flowStep t S None"
  by (simp add: flowStep_def)

lemma flowStep_calm:
  assumes "calm S S'" and "heapFlow (ses S)" and "heapOK (ses S)"
    and "\<And>u. u \<in> set (t' # ts) \<Longrightarrow> threadFlow (objs (ses S)) u \<and> (\<forall>r\<in>set (trefs u). r < length (objs (ses S)))"
  shows "flowStep t S (Some (t', ts, S'))"
  using assms calm_heapFlow [OF assms(1-3)]
  by (auto simp: flowStep_def calm_def intro: heapGrows_weaken threadFlow_calm [OF assms(1)])

text \<open>The same after a step of the pump on its own stream.\<close>

lemma flowStep_own:
  assumes own: "owned t = Some r" and g: "heapGrows (Some r) S T" and "calm T S'"
    and "heapFlow (ses T)" and "heapOK (ses T)"
    and "\<And>u. u \<in> set (t' # ts) \<Longrightarrow> threadFlow (objs (ses T)) u \<and> (\<forall>r\<in>set (trefs u). r < length (objs (ses T)))"
  shows "flowStep t S (Some (t', ts, S'))"
proof -
  have "flowStep t T (Some (t', ts, S'))" by (rule flowStep_calm [OF assms(3-5)]) (rule assms(6))
  moreover have "heapGrows (owned t) S S'"
    using heapGrows_then [OF g] assms(3) own by (simp add: calm_def)
  ultimately show ?thesis by (simp add: flowStep_def)
qed

lemma heapFlow_own:
  assumes "heapFlow (ses S)" and "r < length (objs (ses S))" and "base st"
    and "st_id st = st_id (objs (ses S) ! r)"
  shows "heapFlow ((ses S)\<lparr>objs := (objs (ses S))[r := st]\<rparr>)"
proof -
  have "st_id ((objs (ses S))[r := st] ! k) = st_id (objs (ses S) ! k)" for k
    using assms(2,4) by (cases "k = r") auto
  then show ?thesis
    using assms by (auto simp: heapFlow_def dest: subsetD [OF set_update_subset_insert])
qed

lemma handleOpen_flow:
  assumes "okS S" and "heapFlow (ses S)" and "threadFlow (objs (ses S)) t" and "threadOK (ses S) t"
  shows "flowStep t S (handleOpen E X t S)"
proof (cases t)
  case (OpenerDial i a)
  have "base (newStream i)" and "flow [] 0 (newStream i)" and "st_id (newStream i) = i"
    by (simp_all add: base_def flow_def newStream_def)
  then show ?thesis
    using OpenerDial assms
    by (auto simp: flowStep_def heapFlow_def heapOK_def nth_append
        intro!: heapGrows_rules calm_rules flowStep_calm)
next
  case (OpenerStore i r)
  have "set (AList.update i r al) \<subseteq> insert (i, r) (set al)" for al :: "(u32 \<times> sref) list"
    by (induction al) auto
  with OpenerStore assms have "heapFlow ((ses S)\<lparr>streams := AList.update i r (streams (ses S))\<rparr>)"
    by (fastforce simp: heapFlow_def)
  then have "flowStep t S (Some (OpenerCheck i r, [],
      S\<lparr>ses := (ses S)\<lparr>streams := AList.update i r (streams (ses S))\<rparr>\<rparr>))"
    using OpenerStore assms by (auto simp: flowStep_def intro!: heapGrows_rules)
  then show ?thesis
    using OpenerStore assms by (auto simp: threadOK_def intro!: flowStep_calm calm_rules)
qed (use assms in \<open>auto simp: case_prod_beta Let_def threadOK_def v2_limits
      intro!: flowStep_calm calm_rules split: sum.splits\<close>)

lemma upstreamReader_flow:
  assumes "okS S" and "heapFlow (ses S)" and "threadFlow (objs (ses S)) t" and "threadOK (ses S) t"
  shows "flowStep t S (upstreamReader E X t S)"
  using assms
  by (cases t) (auto simp: case_prod_beta Let_def threadOK_def intro!: flowStep_calm calm_rules)

lemma dispatchFrame_flow:
  assumes "okS S" and "heapFlow (ses S)" and "length p \<le> 65535"
  shows "flowStep t S (dispatchFrame E X i ft p S)"
  using assms heapOK_ref [of "ses S" i]
  by (auto simp: dispatchFrame_def threadOK_def intro!: flowStep_calm calm_rules split: option.splits)

lemma pumpWait_flow:
  assumes "okS S" and "heapFlow (ses S)" and "threadFlow (objs (ses S)) (PumpWait i r c)"
    and r: "r < length (objs (ses S))"
  shows "flowStep (PumpWait i r c) S (pump E X (PumpWait i r c) S)"
proof -
  let ?st = "objs (ses S) ! r"
  have st: "base ?st" "flow [] c ?st" "st_id ?st = i" "0 \<le> c" "c < v2WindowUpdateThreshold"
    using assms r by (auto simp: heapFlow_def)
  have "flowStep (PumpWait i r c) S (Some (PumpWrite i r ch e c, [], dequeue r S))"
    if q: "queue ?st = ch # cs" and nc: "\<not> st_closed ?st" for ch cs e
  proof (rule flowStep_own [where r = r and T = "dequeue r S"])
    have pop: "base (popChunk ?st)" "flow ch c (popChunk ?st)" "length ch \<le> 65535" "st_id (popChunk ?st) = i"
      using st q nc by (auto simp: base_def flow_def popChunk_def)
    show "heapFlow (ses (dequeue r S))"
      using heapFlow_own [OF assms(2) r pop(1)] pop(4) st(3)
      by (simp add: heapFlow_def objs_update)
    show "heapOK (ses (dequeue r S))" using dequeue_keeps [OF assms(1) r] q by (simp add: keeps_def)
    show "threadFlow (objs (ses (dequeue r S))) u \<and> (\<forall>r'\<in>set (trefs u). r' < length (objs (ses (dequeue r S))))"
      if "u \<in> set [PumpWrite i r ch e c]" for u
      using that pop st r by (simp add: objs_update)
  qed (auto intro!: heapGrows_rules calm_rules)
  then show ?thesis
    using assms r
    by (cases "queue ?st") (auto simp: Let_def threadOK_def intro!: flowStep_calm calm_rules)
qed

lemma flow_write:
  assumes "flow ch c st" and "base st" and "streamOK st"
  shows "base (st\<lparr>uwritten := uwritten st @ take k ch\<rparr>)"
proof -
  have "length (take k ch) \<le> length ch" by simp
  moreover have "prefix (uwritten st @ take k ch) (accepted st)"
  proof -
    have "prefix (uwritten st @ ch) (accepted st)"
      using assms(1) by (simp add: flow_def split: if_splits)
    moreover have "prefix (uwritten st @ take k ch) (uwritten st @ ch)" by (simp add: take_is_prefix)
    ultimately show ?thesis by (rule prefix_order.trans [rotated])
  qed
  ultimately show ?thesis
    using assms prefix_length_le [of "uwritten st @ take k ch" "accepted st"]
    by (cases "st_closed st") (auto simp: flow_def base_def streamOK_def)
qed

lemma flow_written: "flow ch c st \<Longrightarrow> flow [] (c + int (length ch)) (st\<lparr>uwritten := uwritten st @ ch\<rparr>)"
  by (auto simp: flow_def)

lemma pumpWrite_flow:
  assumes "okS S" and "heapFlow (ses S)" and "threadFlow (objs (ses S)) (PumpWrite i r ch e c)"
    and r: "r < length (objs (ses S))"
  shows "flowStep (PumpWrite i r ch e c) S (pump E X (PumpWrite i r ch e c) S)"
proof -
  let ?st = "objs (ses S) ! r"
  define T where "T = upstreamWrite r (take (wrote X) ch) S"
  have st: "base ?st" "flow ch c ?st" "st_id ?st = i" "0 \<le> c" "c < v2WindowUpdateThreshold"
    "length ch \<le> 65535" "streamOK ?st"
    using assms r by (auto simp: heapFlow_def heapOK_def)
  have hf: "heapFlow (ses T)"
    using heapFlow_own [OF assms(2) r flow_write [OF st(2,1,7), of "wrote X"]]
    by (simp add: heapFlow_def objs_update T_def)
  have hk: "heapOK (ses T)" using upstreamWrite_keeps [OF assms(1) r] by (simp add: keeps_def T_def)
  have fl: "flow [] (c + int (length ch)) (objs (ses T) ! r)" if "length ch \<le> wrote X"
    using flow_written [OF st(2)] that r by (simp add: objs_update T_def)
  have len: "r < length (objs (ses T))" and ide: "st_id (objs (ses T) ! r) = i"
    using r st by (simp_all add: objs_update T_def)
  have own: "flowStep (PumpWrite i r ch e c) S (Some (t', [], S'))"
    if "calm T S'" and "threadFlow (objs (ses T)) t'" and "\<forall>r\<in>set (trefs t'). r < length (objs (ses T))" for t' S'
    using that hf hk
    by (intro flowStep_own [where r = r and T = T]) (auto simp: T_def intro!: heapGrows_rules)
  have "flowStep (PumpWrite i r ch e c) S
      (Some (Finished, [], closeStream i (closeUpstream r (snd (writeSF E X i v2TypeClose [] T)))))"
    by (rule own) (auto intro!: calm_rules)
  moreover have "flowStep (PumpWrite i r ch e c) S (Some (PumpCredit i r (c + int (length ch)), [], T))"
    if "length ch \<le> wrote X" and "0 < c + int (length ch)"
    using fl that len ide st(5,6) by (intro own) (auto intro!: calm_rules)
  moreover have "flowStep (PumpWrite i r ch e c) S (Some (PumpWait i r (c + int (length ch)), [], T))"
    if "length ch \<le> wrote X" and "c + int (length ch) < v2WindowUpdateThreshold"
    using fl that len ide st(4) by (intro own) (auto intro!: calm_rules)
  moreover have "v2WindowUpdateThreshold \<le> c + int (length ch) \<Longrightarrow> 0 < c + int (length ch)"
    by (simp add: v2_limits)
  ultimately show ?thesis
    by (cases e) (simp_all add: T_def [symmetric] Let_def case_prod_beta)
qed

lemma pumpCredit_flow:
  assumes "okS S" and "heapFlow (ses S)" and "threadFlow (objs (ses S)) (PumpCredit i r c)"
    and r: "r < length (objs (ses S))"
  shows "flowStep (PumpCredit i r c) S (pump E X (PumpCredit i r c) S)"
proof -
  let ?st = "objs (ses S) ! r"
  let ?S0 = "snd (writeSF E X i v2TypeWindowUpdate (putBE 4 (nat c)) S)"
  let ?S1 = "noteCredit r c ?S0"
  have st: "base ?st" "flow [] c ?st" "st_id ?st = i"
    using assms r by (auto simp: heapFlow_def)
  have st1: "base (?st\<lparr>granted := granted ?st + c\<rparr>)" "flow [] 0 (?st\<lparr>granted := granted ?st + c\<rparr>)"
    using st by (auto simp: base_def flow_def)
  have k0: "keeps S ?S0" using assms(1) by (auto intro: keeps_rules)
  have hf: "heapFlow (ses ?S1)"
    using heapFlow_own [OF assms(2) r st1(1)] by (simp add: heapFlow_def objs_update)
  have hk: "heapOK (ses ?S1)"
    using noteCredit_keeps [OF keeps_ok [OF k0]] r by (simp add: keeps_def)
  have "flowStep (PumpCredit i r c) S (Some (PumpWait i r 0, [], ?S1))"
    using hf hk st1 st r
    by (intro flowStep_own [where r = r and T = ?S1])
      (auto simp: objs_update threadOK_def v2_limits intro!: heapGrows_rules calm_rules)
  then show ?thesis
    using assms by (auto simp: case_prod_beta threadOK_def intro!: flowStep_calm calm_rules)
qed

lemma pump_flow:
  assumes "okS S" and "heapFlow (ses S)" and "threadFlow (objs (ses S)) t" and "threadOK (ses S) t"
  shows "flowStep t S (pump E X t S)"
  using assms pumpWait_flow pumpWrite_flow pumpCredit_flow
  by (cases t) (simp_all only: threadOK_def trefs.simps list.set ball_simps pump.simps flowStep_None)

lemma readLoop_flow:
  assumes "okS S" and "heapFlow (ses S)" and "threadFlow (objs (ses S)) t" and "threadOK (ses S) t"
    and step: "threadStep E X t S = readLoop E X t S"
  shows "flowStep t S (readLoop E X t S)"
proof (cases t)
  case RlRead
  show ?thesis
  proof (cases "readLoop E X t S")
    case (Some res)
    obtain t' ts S' where res: "res = (t', ts, S')" by (metis prod_cases3)
    from Some res step RlRead have "threadStep E X RlRead S = Some (t', ts, S')" by simp
    then show ?thesis
    proof (cases rule: RlRead_cases)
      case (frame rd pt i ft p)
      let ?S1 = "received rd (onow X) S"
      have "calm S ?S1" by (intro calm_rules)
      moreover have "okS ?S1"
        using assms(1) by (simp add: heapOK_def countsOK_def queued_def)
      ultimately have "flowStep t ?S1 (dispatchFrame E X i ft p ?S1)"
        using assms calm_heapFlow by (intro dispatchFrame_flow splitFrame_payload [OF frame(2)]) auto
      then show ?thesis
        unfolding Some res frame(3) using RlRead by (simp add: flowStep_def heapGrows_def)
    qed (use assms Some res RlRead in \<open>auto simp: threadOK_def intro!: flowStep_calm calm_rules\<close>)
  qed simp
qed (use assms in \<open>auto simp: threadOK_def intro!: flowStep_calm calm_rules
      split: list.splits\<close>)

lemma pongReply_flow: "heapFlow (ses S) \<Longrightarrow> heapOK (ses S) \<Longrightarrow> flowStep t S (pongReply E X t S)"
  by (cases t) (auto intro!: flowStep_calm calm_rules)

lemma heartbeatLoop_flow: "heapFlow (ses S) \<Longrightarrow> heapOK (ses S) \<Longrightarrow> flowStep t S (heartbeatLoop E X t S)"
  by (cases t) (auto simp: case_prod_beta Let_def intro!: flowStep_calm calm_rules)

lemma threadStep_flow:
  assumes "okS S" and "heapFlow (ses S)" and "threadFlow (objs (ses S)) t" and "threadOK (ses S) t"
  shows "flowStep t S (threadStep E X t S)"
  using handleOpen_flow [OF assms] upstreamReader_flow [OF assms] pump_flow [OF assms]
    readLoop_flow [OF assms] pongReply_flow [of S] heartbeatLoop_flow [of S] assms
  by (cases t) (simp_all only: threadStep_def thread.case flowStep_None)

section \<open>The invariant of a session\<close>

definition flowOK :: "v2Session \<Rightarrow> bool" where
  "flowOK s \<longleftrightarrow>
     heapFlow s \<and> (\<forall>t\<in>set (threads s). threadFlow (objs s) t) \<and> distinct (owners (threads s))"

lemma owners_apart:
  assumes "distinct (owners ths)" and "n < length ths" and "k < length ths" and "k \<noteq> n"
  shows "owned (ths ! k) = None \<or> owned (ths ! n) \<noteq> owned (ths ! k)"
proof (rule ccontr)
  assume "\<not> ?thesis"
  then obtain r where r: "owned (ths ! k) = Some r" "owned (ths ! n) = Some r" by auto
  have "ths = take n ths @ ths ! n # drop (Suc n) ths" using assms(2) by (rule id_take_nth_drop)
  then have d: "distinct (owners (take n ths) @ [r] @ owners (drop (Suc n) ths))"
    using assms(1) r by (metis append_Cons append_Nil option.simps(5) owners_simps(2,3))
  have "ths ! k \<in> set (take n ths) \<or> ths ! k \<in> set (drop (Suc n) ths)"
  proof (cases "k < n")
    case True
    then show ?thesis using assms(3) by (auto simp: in_set_conv_nth)
  next
    case False
    then have "ths ! k = drop (Suc n) ths ! (k - Suc n)" and "k - Suc n < length (drop (Suc n) ths)"
      using assms(3,4) by auto
    then show ?thesis by (metis nth_mem)
  qed
  then show False using d owners_set [OF _ r(1)] by auto
qed

lemma flowOK_step:
  assumes ok: "sessOK (ses S)" and fl: "flowOK (ses S)" and sch: "schedule E X n S = Some S'"
  shows "flowOK (ses S')"
proof -
  let ?ths = "threads (ses S)"
  from sch obtain t ts S1 where n: "n < length ?ths"
    and st: "threadStep E X (?ths ! n) S = Some (t, ts, S1)"
    and S': "S' = S1\<lparr>ses := (ses S1)\<lparr>threads := ?ths[n := t] @ ts\<rparr>\<rparr>"
    by (rule schedule_SomeE)
  have okS: "okS S" and hf: "heapFlow (ses S)" using ok fl by (simp_all add: sessOK_def flowOK_def)
  have tf: "threadFlow (objs (ses S)) (?ths ! k)" and tok: "threadOK (ses S) (?ths ! k)"
    if "k < length ?ths" for k
    using ok fl that by (simp_all add: sessOK_def flowOK_def)
  from threadStep_flow [OF okS hf tf [OF n] tok [OF n], of E X]
  have g: "heapGrows (owned (?ths ! n)) S S1" and t: "threadFlow (objs (ses S1)) t"
    and ts: "\<forall>u\<in>set ts. threadFlow (objs (ses S1)) u" and h: "heapFlow (ses S1)"
    unfolding st by (simp_all add: flowStep_def)
  have d: "distinct (owners ?ths)" using fl by (simp add: flowOK_def)
  have b: "\<forall>r\<in>set (owners ?ths). r < length (objs (ses S))"
    using ok owners_trefs by (fastforce simp: sessOK_def threadOK_def)
  have other: "threadFlow (objs (ses S1)) (?ths ! k)" if "k < length ?ths" and "k \<noteq> n" for k
    using threadFlow_grows [OF tf [OF that(1)] g] owners_apart [OF d n that] tok [OF that(1)]
    by (simp add: threadOK_def)
  have "threadFlow (objs (ses S1)) u" if "u \<in> set (?ths[n := t])" for u
    using that other t n by (auto simp: in_set_conv_nth nth_list_update split: if_splits)
  then have "\<forall>u\<in>set (threads (ses S')). threadFlow (objs (ses S')) u"
    using ts by (auto simp: S')
  moreover have "distinct (owners (threads (ses S')))"
    using owners_step [OF d n b step_owned [OF st]] by (simp add: S')
  moreover have "heapFlow (ses S')" using h by (simp add: S' heapFlow_def)
  ultimately show ?thesis by (simp add: flowOK_def)
qed

lemma flowOK_new: "flowOK (newSession i rd wr kc ks now)"
  by (simp add: flowOK_def newSession_def heapFlow_def)

lemma flowOK_closeConn: "flowOK s \<Longrightarrow> flowOK (closeConn s)"
  by (simp add: flowOK_def heapFlow_def)

interpretation dlv: session_inv E "\<lambda>s. sessOK s \<and> flowOK s" for E
  by unfold_locales
    (auto intro: sessOK_new flowOK_new flowOK_step schedule_keeps(1) sessOK_closeConn flowOK_closeConn)

text \<open>A client that honours its window keeps the queue of the stream within it.\<close>

lemma window_bounds_queue:
  assumes "base st" and "streamOK st" and "int (length (accepted st)) \<le> v2InitialWindow + granted st"
  shows "qbytes st \<le> v2InitialWindow"
  using assms by (auto simp: base_def streamOK_def)

lemma queued_bound:
  assumes "\<And>st. st \<in> set sts \<Longrightarrow> qbytes st \<le> v2InitialWindow \<and> (st_closed st \<longrightarrow> qbytes st = 0)"
  shows "sum_list (map qbytes sts) \<le> v2InitialWindow * int (length (filter (\<lambda>st. \<not> st_closed st) sts))"
  using assms
proof (induction sts)
  case (Cons st sts)
  then have "sum_list (map qbytes sts) \<le> v2InitialWindow * int (length (filter (\<lambda>st. \<not> st_closed st) sts))"
    and "qbytes st \<le> v2InitialWindow" and "st_closed st \<longrightarrow> qbytes st = 0"
    by auto
  then show ?case by (simp add: algebra_simps)
qed simp

lemma length_filter_update:
  "P y = P (xs ! r) \<Longrightarrow> length (filter P (xs[r := y])) = length (filter P xs)"
proof (induction xs arbitrary: r)
  case (Cons x xs)
  then show ?case by (cases r) auto
qed simp

text \<open>Room for one more payload of stream \<open>r\<close> within its window.\<close>

lemma budget_room:
  assumes q: "\<And>st. st \<in> set sts \<Longrightarrow> qbytes st \<le> v2InitialWindow \<and> (st_closed st \<longrightarrow> qbytes st = 0)"
    and r: "r < length sts" "\<not> st_closed (sts ! r)" and n: "qbytes (sts ! r) + n \<le> v2InitialWindow"
  shows "sum_list (map qbytes sts) + n \<le> v2InitialWindow * int (length (filter (\<lambda>st. \<not> st_closed st) sts))"
proof -
  let ?st = "(sts ! r)\<lparr>qbytes := qbytes (sts ! r) + n\<rparr>"
  have "qbytes x \<le> v2InitialWindow \<and> (st_closed x \<longrightarrow> qbytes x = 0)" if "x \<in> set (sts[r := ?st])" for x
    using that q n r(2) by (auto dest!: subsetD [OF set_update_subset_insert])
  from queued_bound [OF this]
  have "sum_list (map qbytes (sts[r := ?st])) \<le>
      v2InitialWindow * int (length (filter (\<lambda>st. \<not> st_closed st) (sts[r := ?st])))" .
  then show ?thesis
    using r(1) length_filter_update [of "\<lambda>st. \<not> st_closed st" ?st sts r] by (simp add: sum_list_update_int)
qed

text \<open>Within the windows, and with at most 32 streams open, the next payload fits the budget of the session.\<close>

lemma session_room:
  assumes ok: "sessOK s" "flowOK s" and "\<not> sclosed s"
    and honest: "\<And>st. st \<in> set (objs s) \<Longrightarrow> int (length (accepted st)) \<le> v2InitialWindow + granted st"
    and few: "length (filter (\<lambda>st. \<not> st_closed st) (objs s)) \<le> 32"
    and r: "r < length (objs s)" "\<not> st_closed (objs s ! r)"
    and next_ok: "int (length (accepted (objs s ! r)) + length p) \<le> v2InitialWindow + granted (objs s ! r)"
  shows "(\<forall>st\<in>set (objs s). qbytes st \<le> v2InitialWindow) \<and> buffered s + int (length p) \<le> v2SessionBufferCap"
proof -
  have st: "base st" "streamOK st" if "st \<in> set (objs s)" for st
    using ok that by (simp_all add: sessOK_def heapOK_def flowOK_def heapFlow_def)
  have q: "qbytes st \<le> v2InitialWindow \<and> (st_closed st \<longrightarrow> qbytes st = 0)" if "st \<in> set (objs s)" for st
    using window_bounds_queue [OF st [OF that] honest [OF that]] st(2) [OF that] by (simp add: streamOK_def)
  have n: "qbytes (objs s ! r) + int (length p) \<le> v2InitialWindow"
    using st [OF nth_mem [OF r(1)]] next_ok by (auto simp: base_def streamOK_def)
  have "sum_list (map qbytes (objs s)) + int (length p)
      \<le> v2InitialWindow * int (length (filter (\<lambda>st. \<not> st_closed st) (objs s)))"
    by (rule budget_room [OF q r n])
  moreover have "buffered s = sum_list (map qbytes (objs s))"
    using ok assms(3) by (simp add: sessOK_def countsOK_def queued_def)
  ultimately show ?thesis using q few by (simp add: v2_limits)
qed

end
