(* ===== verification/Teardown.thy ===== *)
theory Teardown
  imports Delivery
begin

text \<open>
  The end of a session. While stream identifiers are not reused, no upstream connection
  outlives \<open>closeAll\<close> and the goroutines that were opening streams, in whatever order the
  steps of \<open>handleOpen\<close>, \<open>closeStream\<close> and \<open>closeAll\<close> interleave.
\<close>

section \<open>Which goroutine will close an open connection\<close>

fun covered :: "thread \<Rightarrow> u32 \<Rightarrow> bool" where
  "covered RlSnapshot i = True"
| "covered (RlRange ks) i = (i \<in> set ks)"
| "covered _ i = False"

definition mapped :: "v2Session \<Rightarrow> sref \<Rightarrow> bool" where
  "mapped s r \<longleftrightarrow> map_of (streams s) (st_id (objs s ! r)) = Some r"

definition kept :: "v2Session \<Rightarrow> sref \<Rightarrow> bool" where
  "kept s r \<longleftrightarrow>
     \<not> uopen (objs s ! r) \<or> (\<exists>i. OpenerStore i r \<in> set (threads s)) \<or>
     mapped s r \<and> (\<not> sclosed s \<or> (\<exists>i. OpenerCheck i r \<in> set (threads s)) \<or>
                   covered (hd (threads s)) (st_id (objs s ! r)))"

definition tidy :: "v2Session \<Rightarrow> bool" where
  "tidy s \<longleftrightarrow> distinct (map st_id (objs s)) \<longrightarrow> (\<forall>r < length (objs s). kept s r)"

text \<open>Operations after which every connection still open is still in the map if it was.\<close>

definition tame :: "sstate \<Rightarrow> sstate \<Rightarrow> bool" where
  "tame S S' \<longleftrightarrow>
     keeps S S' \<and> length (objs (ses S')) = length (objs (ses S)) \<and> sclosed (ses S') = sclosed (ses S) \<and>
     (\<forall>r < length (objs (ses S)).
        st_id (objs (ses S') ! r) = st_id (objs (ses S) ! r) \<and>
        (uopen (objs (ses S') ! r) \<longrightarrow>
           uopen (objs (ses S) ! r) \<and> (mapped (ses S) r \<longrightarrow> mapped (ses S') r)))"

lemma tame_refl: "okS S \<Longrightarrow> tame S S"
  by (simp add: tame_def keeps_refl)

lemma tame_trans: "tame S0 S \<Longrightarrow> tame S S' \<Longrightarrow> tame S0 S'"
  by (auto simp: tame_def intro: keeps_trans)

lemma tame_then: "tame S0 S \<Longrightarrow> (okS S \<Longrightarrow> tame S S') \<Longrightarrow> tame S0 S'"
  using tame_trans keeps_ok by (metis tame_def)

lemma tame_same:
  assumes "okS S" and "keeps S S'" and "objs (ses S') = objs (ses S)" and "streams (ses S') = streams (ses S)"
    and "sclosed (ses S') = sclosed (ses S)"
  shows "tame S S'"
  using assms by (simp add: tame_def mapped_def)

text \<open>Replacing one stream.\<close>

lemma tame_update:
  assumes "keeps S S'" and h: "objs (ses S') = (objs (ses S))[r := st]" and "streams (ses S') = streams (ses S)"
    and "sclosed (ses S') = sclosed (ses S)" and "st_id st = st_id (objs (ses S) ! r)"
    and "uopen st \<longrightarrow> uopen (objs (ses S) ! r)"
  shows "tame S S'"
proof -
  have "st_id (objs (ses S') ! k) = st_id (objs (ses S) ! k) \<and>
      (uopen (objs (ses S') ! k) \<longrightarrow> uopen (objs (ses S) ! k))" if "k < length (objs (ses S))" for k
    using that assms by (cases "k = r") auto
  then show ?thesis using assms by (simp add: tame_def mapped_def)
qed

lemma map_of_delete: "map_of (AList.delete k al) i = (if i = k then None else map_of al i)"
  by (simp add: AList.delete_conv)

lemma tame_closeStream_keeps:
  assumes "okS S"
  shows "tame S (closeStream i S)"
proof (cases "map_of (streams (ses S)) i")
  case None
  then show ?thesis using assms by (simp add: closeStream_def tame_refl)
next
  case (Some r)
  let ?S' = "closeStream i S"
  have r: "r < length (objs (ses S))" using heapOK_ref Some assms by blast
  have st: "streamOK (objs (ses S) ! r)" using heapOK_nth r assms by blast
  have o: "objs (ses ?S') = (objs (ses S))[r := (if st_closed (objs (ses S) ! r) then objs (ses S) ! r
      else shutStream (objs (ses S) ! r))]"
    and m: "streams (ses ?S') = AList.delete i (streams (ses S))"
    using Some r by (simp_all add: closeStream_def Let_def)
  have "\<not> uopen (objs (ses ?S') ! r)"
    using st r unfolding o by (auto simp: streamOK_def shutStream_def)
  moreover have "st_id (objs (ses ?S') ! k) = st_id (objs (ses S) ! k)" for k
    using r unfolding o by (cases "k = r") auto
  moreover have "uopen (objs (ses ?S') ! k) \<longrightarrow> uopen (objs (ses S) ! k)" for k
    using calculation(1) unfolding o by (cases "k = r") auto
  moreover have "length (objs (ses ?S')) = length (objs (ses S))" unfolding o by simp
  ultimately show ?thesis
    using closeStream_keeps [OF assms, of i] Some by (auto simp: tame_def mapped_def m map_of_delete)
qed

lemma tame_closeAllEntry_keeps:
  assumes "okS S" and "sclosed (ses S)"
  shows "tame S (closeAllEntry i S)"
    and "mapped (ses S) r \<Longrightarrow> st_id (objs (ses S) ! r) = i \<Longrightarrow> \<not> uopen (objs (ses (closeAllEntry i S)) ! r)"
proof -
  have same: "objs (ses (closeAllEntry i S)) = objs (ses (closeStream i S))"
    "streams (ses (closeAllEntry i S)) = streams (ses (closeStream i S))"
    by (simp_all add: closeAllEntry_def closeStream_def Let_def split: option.splits)
  from tame_closeStream_keeps [OF assms(1), of i] show "tame S (closeAllEntry i S)"
    using closeAllEntry_keeps [OF assms, of i] by (auto simp: tame_def mapped_def same)
  assume mp: "mapped (ses S) r" and i: "st_id (objs (ses S) ! r) = i"
  then have r: "r < length (objs (ses S))" using heapOK_ref assms by (auto simp: mapped_def)
  show "\<not> uopen (objs (ses (closeAllEntry i S)) ! r)"
    using mp i r heapOK_nth [of "ses S" r] assms
    by (auto simp: closeAllEntry_def mapped_def Let_def streamOK_def shutStream_def)
qed

lemma tame_closeStream: "tame S0 S \<Longrightarrow> tame S0 (closeStream i S)"
  by (erule tame_then) (rule tame_closeStream_keeps)

lemma tame_writeSF: "tame S0 S \<Longrightarrow> tame S0 (snd (writeSF E X i t p S))"
  by (erule tame_then) (auto intro!: tame_same keeps_rules)

lemma tame_releaseOpen: "tame S0 S \<Longrightarrow> tame S0 (releaseOpen S)"
  by (erule tame_then) (auto intro!: tame_same keeps_rules)

lemma tame_length: "tame S0 S \<Longrightarrow> length (objs (ses S)) = length (objs (ses S0))"
  by (simp add: tame_def)

lemma tame_closeUpstream:
  "tame S0 S \<Longrightarrow> r < length (objs (ses S0)) \<Longrightarrow> tame S0 (closeUpstream r S)"
  by (rule tame_then, assumption, rule tame_update [OF _ objs_update(1)])
    (simp_all add: closeUpstream_keeps tame_def)

lemma tame_upstreamWrite:
  "tame S0 S \<Longrightarrow> r < length (objs (ses S0)) \<Longrightarrow> tame S0 (upstreamWrite r bs S)"
  by (rule tame_then, assumption, rule tame_update [OF _ objs_update(3)])
    (simp_all add: upstreamWrite_keeps tame_def)

lemma tame_noteCredit:
  "tame S0 S \<Longrightarrow> r < length (objs (ses S0)) \<Longrightarrow> tame S0 (noteCredit r n S)"
  by (rule tame_then, assumption, rule tame_update [OF _ objs_update(4)])
    (simp_all add: noteCredit_keeps tame_def)

lemmas tame_rules = tame_refl tame_closeStream tame_writeSF tame_releaseOpen tame_closeUpstream
  tame_upstreamWrite tame_noteCredit

section \<open>Threads\<close>

text \<open>
  A goroutine that is not about to store or to check its stream takes a tame step; the read
  loop's bookkeeping of the teardown moves on only past connections that are closed.
\<close>

lemma kept_tame:
  assumes t: "tame S S1" and r: "r < length (objs (ses S))" and k: "kept (ses S) r"
    and S': "ses S' = (ses S1)\<lparr>threads := ths'\<rparr>"
    and st: "\<And>i. OpenerStore i r \<in> set (threads (ses S)) \<Longrightarrow> kept (ses S') r \<or> OpenerStore i r \<in> set ths'"
    and ch: "\<And>i. OpenerCheck i r \<in> set (threads (ses S)) \<Longrightarrow> kept (ses S') r \<or> OpenerCheck i r \<in> set ths'"
    and cv: "covered (hd (threads (ses S))) (st_id (objs (ses S) ! r)) \<Longrightarrow> mapped (ses S) r \<Longrightarrow>
               \<not> uopen (objs (ses S1) ! r) \<or> covered (hd ths') (st_id (objs (ses S) ! r))"
  shows "kept (ses S') r"
proof (rule ccontr)
  assume n: "\<not> kept (ses S') r"
  then have "uopen (objs (ses S1) ! r)" by (simp add: kept_def S')
  then have "uopen (objs (ses S) ! r)" and id: "st_id (objs (ses S1) ! r) = st_id (objs (ses S) ! r)"
    and mp: "mapped (ses S) r \<Longrightarrow> mapped (ses S') r"
    using t r by (auto simp: tame_def S' mapped_def)
  with k n st ch cv t show False
    by (auto simp: kept_def S' tame_def)
qed

fun special :: "thread \<Rightarrow> bool" where
  "special (OpenerDial _ _) = True"
| "special (OpenerStore _ _) = True"
| "special (OpenerCheck _ _) = True"
| "special RlTeardown = True"
| "special RlSnapshot = True"
| "special (RlRange _) = True"
| "special _ = False"

lemma tame_dequeue:
  assumes "okS S" and "r < length (objs (ses S))" and "queue (objs (ses S) ! r) \<noteq> []"
  shows "tame S (dequeue r S)"
  by (rule tame_update [OF dequeue_keeps [OF assms] objs_update(2)]) (simp_all add: popChunk_def)

lemma tame_enqueue:
  assumes "okS S" and "r < length (objs (ses S))"
  shows "tame S (enqueue r p S)"
proof (cases "st_closed (objs (ses S) ! r)")
  case True
  then show ?thesis using assms by (simp add: enqueue_def Let_def tame_refl)
next
  case False
  then have "objs (ses (enqueue r p S)) = (objs (ses S))[r := pushChunk p (objs (ses S) ! r)]"
    by (simp add: enqueue_def Let_def)
  then show ?thesis
    by (rule tame_update [OF enqueue_keeps [OF assms]]) (simp_all add: pushChunk_def)
qed

lemma dispatchFrame_tame:
  assumes "okS S" and "dispatchFrame E X i ft p S = Some (t', ts, S')"
  shows "tame S S'"
proof -
  have "tame S (S\<lparr>ses := (ses S)\<lparr>openSem := n\<rparr>\<rparr>)" for n
    using assms(1) by (intro tame_same sameCore_keeps) (simp_all add: sameCore_def)
  then show ?thesis
    using assms by (auto simp: dispatchFrame_def intro!: tame_rules split: if_splits option.splits)
qed

lemma step_tame:
  assumes "okS S" and "threadOK (ses S) t" and "threadStep E X t S = Some (t', ts, S')" and "\<not> special t"
  shows "tame S S'"
proof (cases t)
  case (PumpWait i r c)
  then show ?thesis
    using assms tame_dequeue [of S r]
    by (auto simp: threadStep_def Let_def threadOK_def intro!: tame_rules split: if_splits)
next
  case RlRead
  have recv: "tame S (received rd m S)" and okr: "okS (received rd m S)" for rd m
    using assms(1)
    by (auto intro!: tame_same sameCore_keeps simp: sameCore_def heapOK_def countsOK_def queued_def)
  have "tame S (S\<lparr>ses := (ses S)\<lparr>cin := rd\<rparr>\<rparr>)" for rd
    using assms(1) by (intro tame_same sameCore_keeps) (simp_all add: sameCore_def)
  moreover have "threadStep E X RlRead S = Some (t', ts, S')" using RlRead assms by simp
  ultimately show ?thesis
    using recv okr dispatchFrame_tame tame_trans by (elim RlRead_cases) blast+
next
  case (RlEnqueue r p)
  then show ?thesis using assms by (auto simp: threadStep_def threadOK_def intro: tame_enqueue)
next
  case RlExit
  then show ?thesis
    using assms by (auto simp: threadStep_def intro!: tame_same sameCore_keeps simp: sameCore_def)
qed (use assms in \<open>auto simp: threadStep_def Let_def case_prod_beta threadOK_def
      intro!: tame_rules split: if_splits sum.splits\<close>)

lemma covered_special: "\<not> special t \<Longrightarrow> \<not> covered t i"
  by (cases t) auto

text \<open>Replacing a goroutine that neither stores nor checks keeps those that do.\<close>

lemma in_update: "u \<in> set ths \<Longrightarrow> u \<noteq> ths ! n \<Longrightarrow> u \<in> set (ths[n := t] @ ts)"
  by (auto simp: in_set_conv_nth) (metis nth_list_update_neq)

lemma hd_update:
  "n < length ths \<Longrightarrow> n \<noteq> 0 \<Longrightarrow> hd (ths[n := t] @ ts) = hd ths"
  by (cases ths; cases n) auto

lemma kept_plain:
  assumes n: "n < length (threads (ses S))" and t: "tame S S1" and r: "r < length (objs (ses S))"
    and k: "kept (ses S) r" and nc: "\<And>i. \<not> covered (threads (ses S) ! n) i"
    and ns: "\<And>i. threads (ses S) ! n \<noteq> OpenerStore i r" "\<And>i. threads (ses S) ! n \<noteq> OpenerCheck i r"
    and S': "ses S' = (ses S1)\<lparr>threads := (threads (ses S))[n := t'] @ ts\<rparr>"
  shows "kept (ses S') r"
proof (rule kept_tame [OF t r k S'])
  fix i
  assume "OpenerStore i r \<in> set (threads (ses S))"
  then show "kept (ses S') r \<or> OpenerStore i r \<in> set ((threads (ses S))[n := t'] @ ts)"
    using ns(1) in_update by metis
next
  fix i
  assume "OpenerCheck i r \<in> set (threads (ses S))"
  then show "kept (ses S') r \<or> OpenerCheck i r \<in> set ((threads (ses S))[n := t'] @ ts)"
    using ns(2) in_update by metis
next
  assume c: "covered (hd (threads (ses S))) (st_id (objs (ses S) ! r))"
  then have "n \<noteq> 0" using nc n by (cases "threads (ses S)"; cases n) auto
  then show "\<not> uopen (objs (ses S1) ! r) \<or> covered (hd ((threads (ses S))[n := t'] @ ts)) (st_id (objs (ses S) ! r))"
    using c hd_update [OF n] by simp
qed

section \<open>The steps that matter\<close>

lemma kept_closed: "\<not> uopen (objs s ! r) \<Longrightarrow> kept s r"
  by (simp add: kept_def)

lemma uopen_closeUpstream: "r < length (objs (ses S)) \<Longrightarrow> \<not> uopen (objs (ses (closeUpstream r S)) ! r)"
  by (simp add: objs_update)

lemma dial_tidy:
  assumes ok: "okS S" and n: "n < length (threads (ses S))" and t: "threads (ses S) ! n = OpenerDial i a"
    and k: "\<And>r. r < length (objs (ses S)) \<Longrightarrow> kept (ses S) r"
    and st: "threadStep E X (threads (ses S) ! n) S = Some (t', ts, S1)"
    and S': "ses S' = (ses S1)\<lparr>threads := (threads (ses S))[n := t'] @ ts\<rparr>" and r: "r < length (objs (ses S'))"
  shows "kept (ses S') r"
proof (cases "dialOK X")
  case False
  then have "S1 = releaseOpen (snd (writeSF E X i v2TypeOpenErr (bytes_of ''dial failed'') S))"
    using st t by (simp add: threadStep_def split: if_splits)
  then have "tame S S1" using ok by (auto intro!: tame_rules)
  moreover from this r have "r < length (objs (ses S))" by (simp add: S' tame_def)
  ultimately show ?thesis using k by (intro kept_plain [OF n _ _ _ _ _ _ S']) (auto simp: t)
next
  case True
  then have S1: "S1 = S\<lparr>ses := (ses S)\<lparr>objs := objs (ses S) @ [newStream i]\<rparr>\<rparr>"
    and t': "t' = OpenerStore i (length (objs (ses S)))" and ts: "ts = []"
    using st t by (simp_all add: threadStep_def split: if_splits)
  show ?thesis
  proof (cases "r < length (objs (ses S))")
    case old: True
    have "u \<in> set (threads (ses S)) \<Longrightarrow> u \<noteq> OpenerDial i a \<Longrightarrow> u \<in> set ((threads (ses S))[n := t'])" for u
      using in_update [of u _ n t' "[]"] t by simp
    moreover have "covered (hd (threads (ses S))) j \<Longrightarrow> covered (hd ((threads (ses S))[n := t'])) j" for j
      using hd_update [OF n, of t' "[]"] t n by (cases "n = 0"; cases "threads (ses S)") auto
    ultimately show ?thesis
      using k [OF old] old by (fastforce simp: kept_def mapped_def S' S1 ts nth_append)
  next
    case False
    then have "r = length (objs (ses S))" using r by (simp add: S' S1)
    then have "OpenerStore i r \<in> set (threads (ses S'))" using n by (simp add: S' t' ts set_update_memI)
    then show ?thesis by (auto simp: kept_def)
  qed
qed

lemma store_tidy:
  assumes ok: "okS S" and n: "n < length (threads (ses S))" and t: "threads (ses S) ! n = OpenerStore i r0"
    and r0: "r0 < length (objs (ses S))" and id0: "st_id (objs (ses S) ! r0) = i"
    and k: "kept (ses S) r" and r: "r < length (objs (ses S))"
    and st: "threadStep E X (threads (ses S) ! n) S = Some (t', ts, S1)"
    and S': "ses S' = (ses S1)\<lparr>threads := (threads (ses S))[n := t'] @ ts\<rparr>"
  shows "kept (ses S') r"
proof (cases "map_of (streams (ses S)) i")
  case (Some x)
  then have S1: "S1 = releaseOpen (closeUpstream r0 S)" using st t by (simp add: threadStep_def)
  show ?thesis
  proof (cases "r = r0")
    case True
    then show ?thesis using uopen_closeUpstream [OF r0] by (intro kept_closed) (simp add: S' S1)
  next
    case False
    have "tame S S1" unfolding S1 using ok r0 by (intro tame_rules) auto
    then show ?thesis using k r False by (intro kept_plain [OF n _ _ _ _ _ _ S']) (auto simp: t)
  qed
next
  case None
  then have S1: "S1 = S\<lparr>ses := (ses S)\<lparr>streams := AList.update i r0 (streams (ses S))\<rparr>\<rparr>"
    and t': "t' = OpenerCheck i r0"
    using st t by (simp_all add: threadStep_def)
  have "tame S S1"
    using store_keeps [OF ok r0, of i] None by (auto simp: S1 tame_def mapped_def update_conv')
  show ?thesis
  proof (cases "r = r0")
    case True
    have "mapped (ses S') r" using id0 True by (simp add: mapped_def S' S1 update_conv')
    moreover have "OpenerCheck i r \<in> set (threads (ses S'))" using True n by (simp add: S' t' set_update_memI)
    ultimately show ?thesis by (auto simp: kept_def)
  next
    case False
    then show ?thesis using k r \<open>tame S S1\<close> by (intro kept_plain [OF n _ _ _ _ _ _ S']) (auto simp: t)
  qed
qed

lemma check_tidy:
  assumes ok: "okS S" and n: "n < length (threads (ses S))" and t: "threads (ses S) ! n = OpenerCheck i r0"
    and r0: "r0 < length (objs (ses S))" and id0: "st_id (objs (ses S) ! r0) = i"
    and d: "distinct (map st_id (objs (ses S)))"
    and k: "kept (ses S) r" and r: "r < length (objs (ses S))"
    and st: "threadStep E X (threads (ses S) ! n) S = Some (t', ts, S1)"
    and S': "ses S' = (ses S1)\<lparr>threads := (threads (ses S))[n := t'] @ ts\<rparr>"
  shows "kept (ses S') r"
proof (cases "sclosed (ses S)")
  case True
  let ?S0 = "S\<lparr>ses := (ses S)\<lparr>streams := AList.delete i (streams (ses S))\<rparr>\<rparr>"
  have S1: "S1 = releaseOpen (closeUpstream r0 ?S0)" using True st t by (simp add: threadStep_def)
  show ?thesis
  proof (cases "r = r0")
    case True
    then show ?thesis using uopen_closeUpstream [of r0 ?S0] r0 by (intro kept_closed) (simp add: S' S1)
  next
    case False
    have k1: "keeps S (closeUpstream r0 ?S0)"
      using keeps_rules(5) [OF unstore_keeps [OF ok, of i], of r0] r0 by simp
    have "st_id (objs (ses S) ! x) \<noteq> i" if "x < length (objs (ses S))" and "x \<noteq> r0" for x
      using d that r0 id0 by (auto simp: distinct_conv_nth)
    then have "tame S (closeUpstream r0 ?S0)"
      using k1 r0 by (auto simp: tame_def objs_update mapped_def map_of_delete nth_list_update)
    then have "tame S S1" unfolding S1 by (rule tame_rules)
    then show ?thesis using k r False by (intro kept_plain [OF n _ _ _ _ _ _ S']) (auto simp: t)
  qed
next
  case False
  then have S1: "S1 = S" and t': "t' = OpenerAck i r0" and ts: "ts = []"
    using st t by (simp_all add: threadStep_def)
  have "u \<in> set (threads (ses S)) \<Longrightarrow> u \<noteq> OpenerCheck i r0 \<Longrightarrow> u \<in> set ((threads (ses S))[n := t'])" for u
    using in_update [of u _ n t' "[]"] t by simp
  then show ?thesis using k False by (fastforce simp: kept_def mapped_def S' S1 ts)
qed

lemma teardown_tidy:
  assumes ok: "okS S" and thr: "threads (ses S) = t0 # us" and t0: "t0 = RlTeardown \<or> t0 = RlSnapshot \<or> t0 = RlRange ks"
    and tok: "threadOK (ses S) t0" and k: "kept (ses S) r" and r: "r < length (objs (ses S))"
    and st: "threadStep E X t0 S = Some (t', ts, S1)" and S': "ses S' = (ses S1)\<lparr>threads := t' # us @ ts\<rparr>"
  shows "kept (ses S') r"
  using t0
proof (elim disjE)
  assume "t0 = RlTeardown"
  then show ?thesis using k thr st S' by (auto simp: threadStep_def kept_def mapped_def closeAllStart_def)
next
  assume t0: "t0 = RlSnapshot"
  have "mapped (ses S) r \<Longrightarrow> st_id (objs (ses S) ! r) \<in> set (map fst (streams (ses S)))"
    by (auto simp: mapped_def dest!: map_of_SomeD intro: rev_image_eqI)
  with t0 show ?thesis using k thr st S' by (auto simp: threadStep_def kept_def mapped_def)
next
  assume t0: "t0 = RlRange ks"
  show ?thesis
  proof (cases ks)
    case Nil
    then show ?thesis using t0 k thr st S' by (auto simp: threadStep_def kept_def mapped_def)
  next
    case (Cons k' rest)
    then have t': "t' = RlRange rest" "ts = []" and S1: "S1 = closeAllEntry k' S"
      using st t0 by (simp_all add: threadStep_def)
    have cl: "sclosed (ses S)" using tok t0 by (simp add: threadOK_def)
    note tm = tame_closeAllEntry_keeps [OF ok cl, where i = k']
    show ?thesis
    proof (rule kept_tame [OF tm(1) r k, where ths' = "RlRange rest # us"])
      show "ses S' = (ses (closeAllEntry k' S))\<lparr>threads := RlRange rest # us\<rparr>" using S' t' S1 by simp
    qed (use thr t0 Cons tm(2) in auto)
  qed
qed

lemma tidy_step:
  assumes ok: "sessOK (ses S)" and fl: "flowOK (ses S)" and li: "limitsOK (ses S)" and td: "tidy (ses S)"
    and sch: "schedule E X n S = Some S'"
  shows "tidy (ses S')"
  unfolding tidy_def
proof (intro impI allI)
  fix r assume d': "distinct (map st_id (objs (ses S')))" and r': "r < length (objs (ses S'))"
  let ?ths = "threads (ses S)"
  from sch obtain t' ts S1 where n: "n < length ?ths"
    and st: "threadStep E X (?ths ! n) S = Some (t', ts, S1)"
    and "S' = S1\<lparr>ses := (ses S1)\<lparr>threads := ?ths[n := t'] @ ts\<rparr>\<rparr>"
    by (rule schedule_SomeE)
  then have S': "ses S' = (ses S1)\<lparr>threads := ?ths[n := t'] @ ts\<rparr>" by simp
  have okS: "okS S" and hf: "heapFlow (ses S)" and tok: "threadOK (ses S) (?ths ! n)"
    and tf: "threadFlow (objs (ses S)) (?ths ! n)"
    using ok fl n by (simp_all add: sessOK_def flowOK_def)
  from threadStep_flow [OF okS hf tf tok, of E X] have g: "heapGrows (owned (?ths ! n)) S S1"
    unfolding st by (simp add: flowStep_def)
  have len: "length (objs (ses S)) \<le> length (objs (ses S1))" using g by (simp add: heapGrows_def)
  have "map st_id (objs (ses S)) = take (length (objs (ses S))) (map st_id (objs (ses S1)))"
    using g by (intro nth_equalityI) (auto simp: heapGrows_def)
  then have d: "distinct (map st_id (objs (ses S)))" using d' by (simp add: S' distinct_take)
  then have k: "\<And>x. x < length (objs (ses S)) \<Longrightarrow> kept (ses S) x" using td by (simp add: tidy_def)
  show "kept (ses S') r"
  proof (cases "special (?ths ! n)")
    case False
    have tm: "tame S S1" by (rule step_tame [OF okS tok st False])
    then have r: "r < length (objs (ses S))" using r' by (simp add: S' tame_def)
    show ?thesis
      using False by (intro kept_plain [OF n tm r k [OF r] _ _ _ S']) (auto simp: covered_special)
  next
    case True
    show ?thesis
    proof (cases "\<exists>i a. ?ths ! n = OpenerDial i a")
      case True
      then show ?thesis using dial_tidy [OF okS n _ k st S' r'] by blast
    next
      case False
      with True st have "length (objs (ses S1)) = length (objs (ses S))"
        using tame_closeAllEntry_keeps(1) [OF okS] tok
        by (cases "?ths ! n") (auto simp: threadStep_def objs_update closeAllStart_def tame_def threadOK_def
            split: if_splits list.splits)
      then have r: "r < length (objs (ses S))" using r' by (simp add: S')
      from True False consider (store) i x where "?ths ! n = OpenerStore i x"
        | (check) i x where "?ths ! n = OpenerCheck i x"
        | (tear) ks where "?ths ! n = RlTeardown \<or> ?ths ! n = RlSnapshot \<or> ?ths ! n = RlRange ks"
        by (cases "?ths ! n") auto
      then show ?thesis
      proof cases
        case store
        then show ?thesis using store_tidy [OF okS n store _ _ k [OF r] r st S'] tok tf by (simp add: threadOK_def)
      next
        case check
        then show ?thesis using check_tidy [OF okS n check _ _ d k [OF r] r st S'] tok tf by (simp add: threadOK_def)
      next
        case tear
        from li obtain t0 us where thr: "?ths = t0 # us" and us: "\<forall>u\<in>set us. \<not> readerThread u"
          by (auto simp: limitsOK_def)
        have "readerThread (?ths ! n)" using tear by auto
        then have n0: "n = 0" using us n thr by (cases n) auto
        have t0: "?ths ! n = t0" using n0 thr by simp
        show ?thesis
        proof (rule teardown_tidy [OF okS thr _ _ k [OF r] r])
          show "t0 = RlTeardown \<or> t0 = RlSnapshot \<or> t0 = RlRange ks" using tear t0 by simp
          show "threadOK (ses S) t0" using tok t0 by simp
          show "threadStep E X t0 S = Some (t', ts, S1)" using st t0 by simp
          show "ses S' = (ses S1)\<lparr>threads := t' # us @ ts\<rparr>" using S' n0 thr by simp
        qed
      qed
    qed
  qed
qed

lemma tidy_new: "tidy (newSession i rd wr kc ks now)"
  by (simp add: tidy_def newSession_def)

lemma tidy_closeConn: "tidy s \<Longrightarrow> tidy (closeConn s)"
  by (simp add: tidy_def kept_def mapped_def)

interpretation tear: session_inv E "\<lambda>s. sessOK s \<and> flowOK s \<and> limitsOK s \<and> tidy s" for E
proof unfold_locales
  fix i rd wr kc ks now
  show "sessOK (newSession i rd wr kc ks now) \<and> flowOK (newSession i rd wr kc ks now) \<and>
      limitsOK (newSession i rd wr kc ks now) \<and> tidy (newSession i rd wr kc ks now)"
    by (simp add: sessOK_new flowOK_new limitsOK_new tidy_new)
next
  fix S X n S'
  assume "sessOK (ses S) \<and> flowOK (ses S) \<and> limitsOK (ses S) \<and> tidy (ses S)" and "schedule E X n S = Some S'"
  then show "sessOK (ses S') \<and> flowOK (ses S') \<and> limitsOK (ses S') \<and> tidy (ses S')"
    using schedule_keeps(1) flowOK_step limitsOK_step tidy_step by blast
next
  fix s
  assume "sessOK s \<and> flowOK s \<and> limitsOK s \<and> tidy s"
  then show "sessOK (closeConn s) \<and> flowOK (closeConn s) \<and> limitsOK (closeConn s) \<and> tidy (closeConn s)"
    by (simp add: sessOK_closeConn flowOK_closeConn tidy_closeConn limitsOK_def)
qed

end
