(* ===== verification/Wire.thy ===== *)
theory Wire
  imports World "HOL-Library.Sublist"
begin

text \<open>
  What a session puts on the client's connection: after the server's hello, the frames of
  its calls of \<open>writeStreamFrame\<close>, each under its own sequence number, in order, and cut off
  only where the connection broke.
\<close>

section \<open>Stream frames\<close>

lemma streamFrame_length: "length (streamFrame i t p) = v2FrameHeader + length p"
  by (simp add: streamFrame_def v2FrameHeader_def)

text \<open>The header checks of the receiver undo the header of the sender.\<close>

lemma splitFrame_streamFrame:
  assumes "length p \<le> maxPlaintextSize - v2FrameHeader"
  shows "splitFrame (streamFrame i t p) = Some (i, t, p)"
proof -
  have p: "length p < 256 ^ 2" using assms by (simp add: frame_consts v2FrameHeader_def)
  have i: "unat i < 256 ^ 4" using unsigned_less [of i] by simp
  have drop5: "drop 5 (streamFrame i t p) = putBE 2 (length p) @ p"
    and nth4: "streamFrame i t p ! 4 = t"
    and take4: "take 4 (streamFrame i t p) = putBE 4 (unat i)"
    and drop7: "drop 7 (streamFrame i t p) = p"
    by (simp_all add: streamFrame_def nth_append)
  have "getBE (putBE 4 (unat i)) = unat i" and "getBE (putBE 2 (length p)) = length p"
    using i p by (simp_all only: getBE_putBE_small)
  then show ?thesis
    by (simp add: splitFrame_def Let_def streamFrame_length drop5 nth4 take4 drop7
        v2FrameHeader_def)
qed

text \<open>A frame that passes the checks and carries nothing after its payload is a stream frame.\<close>

lemma streamFrame_splitFrame:
  assumes "splitFrame pt = Some (i, t, p)"
  shows "\<exists>junk. pt = streamFrame i t p @ junk"
proof -
  let ?n = "getBE (take 2 (drop 5 pt))"
  from assms have len: "7 \<le> length pt" and n: "?n \<le> length pt - 7"
    and i: "i = word_of_nat (getBE (take 4 pt))" and t: "t = pt ! 4" and p: "p = take ?n (drop 7 pt)"
    by (auto simp: splitFrame_def v2FrameHeader_def Let_def split: if_splits)
  have l4: "length (take 4 pt) = 4" and l2: "length (take 2 (drop 5 pt)) = 2" using len by simp_all
  have "getBE (take 4 pt) < 256 ^ 4" using getBE_less [of "take 4 pt"] l4 by simp
  then have "unat i = getBE (take 4 pt)" unfolding i by (simp add: unat_of_nat take_bit_nat_eq_self)
  then have a: "putBE 4 (unat i) = take 4 pt" using putBE_getBE_eq [of "take 4 pt"] l4 by simp
  have "length p = ?n" using n p by simp
  then have b: "putBE 2 (length p) = take 2 (drop 5 pt)" using putBE_getBE_eq [of "take 2 (drop 5 pt)"] l2 by simp
  have lt: "4 < length pt" and suc: "drop (Suc 4) pt = drop 5 pt" using len by simp_all
  have "pt = take 4 pt @ [pt ! 4] @ drop 5 pt"
    using id_take_nth_drop [OF lt] unfolding suc append_Cons append_Nil .
  also have "drop 5 pt = take 2 (drop 5 pt) @ drop 7 pt"
    using append_take_drop_id [of 2 "drop 5 pt"] by simp
  also have "drop 7 pt = p @ drop ?n (drop 7 pt)" unfolding p by (simp only: append_take_drop_id)
  finally show ?thesis
    by (intro exI [of _ "drop ?n (drop 7 pt)"]) (simp add: streamFrame_def a b t)
qed

section \<open>The outgoing byte stream\<close>

text \<open>The bytes of one call: none when the system's randomness failed.\<close>

definition wireEnc ::
  "crypto \<times> bytes \<Rightarrow> nat \<times> (nat \<Rightarrow> byte) option \<Rightarrow> u64 \<Rightarrow> bytes \<Rightarrow> bytes" where
  "wireEnc ck rr seq pt =
     (case snd rr of None \<Rightarrow> [] | Some rnd \<Rightarrow> frameBytes (fst ck) (fst rr) rnd (snd ck) seq pt)"

definition outgoing :: "crypto \<Rightarrow> v2Session \<Rightarrow> bytes" where
  "outgoing C s = hello s @ encAll (wireEnc (C, keyS2C s)) 1 (sealed s)"

definition wireOK :: "crypto \<Rightarrow> v2Session \<Rightarrow> bool" where
  "wireOK C s \<longleftrightarrow>
     seqWrite s = 1 + word_of_nat (length (sealed s)) \<and>
     (\<forall>pt\<in>snd ` set (sealed s). \<exists>i t p. pt = streamFrame i t p \<and> length p \<le> maxPlaintextSize - v2FrameHeader) \<and>
     prefix (wout (cout s)) (outgoing C s) \<and>
     (wbreak (cout s) \<noteq> Some 0 \<longrightarrow> wout (cout s) = outgoing C s)"

lemma writeConn_break: "writeConn w bs = (False, w') \<Longrightarrow> wbreak w' = Some 0"
  by (auto simp: writeConn_def split: option.splits if_splits)

lemma writeConn_dead:
  "wbreak w = Some 0 \<Longrightarrow> writeConn w bs = (ok, w') \<Longrightarrow> wbreak w' = Some 0 \<and> wout w' = wout w"
  by (auto simp: writeConn_def split: if_splits)

lemma writeTwo_break: "writeTwo w a b = (False, w') \<Longrightarrow> wbreak w' = Some 0"
  by (auto simp: writeTwo_def split: prod.splits if_splits dest: writeConn_break)

lemma writeTwo_dead:
  assumes "wbreak w = Some 0" and "writeTwo w a b = (ok, w')"
  shows "wbreak w' = Some 0 \<and> wout w' = wout w"
proof (cases "writeConn w a")
  case (Pair ok1 w1)
  then have w1: "wbreak w1 = Some 0 \<and> wout w1 = wout w" using writeConn_dead [OF assms(1)] by blast
  then show ?thesis
    using assms(2) Pair writeConn_dead [of w1 b ok w'] by (auto simp: writeTwo_def split: if_splits)
qed

text \<open>One call of \<open>writeFrame\<close> on a connection that is whole, or broken for good.\<close>

lemma writeFrame_wire:
  assumes "pools_ok ps" and "length pt \<le> maxPlaintextSize"
    and wf: "writeFrame C R w key seq pt ps = (e, w', ps')"
  shows "if wbreak w = Some 0 then wbreak w' = Some 0 \<and> wout w' = wout w
         else prefix (wout w') (wout w @ wireEnc (C, key) (roll R, padding R) seq pt) \<and>
              (wbreak w' \<noteq> Some 0 \<longrightarrow> wout w' = wout w @ wireEnc (C, key) (roll R, padding R) seq pt)"
proof (cases "padding R")
  case None
  then show ?thesis
    using assms(2,3) by (auto simp: writeFrame_def wireEnc_def Let_def split: prod.splits)
next
  case (Some rnd)
  let ?ct = "aead_seal C key (frameNonce seq)
               (innerFrame (pickPadRung (roll R) (length pt + 2)) rnd pt)"
  obtain ok v where v: "writeTwo w (putBE 2 (length ?ct)) ?ct = (ok, v)" by fastforce
  from writeFrame_eq [OF assms(1,2) Some, of C w key seq] wf v have w': "w' = v" by auto
  have enc: "wireEnc (C, key) (roll R, padding R) seq pt = putBE 2 (length ?ct) @ ?ct"
    by (simp add: wireEnc_def Some frameBytes_def Let_def)
  show ?thesis
  proof (cases "wbreak w = Some 0")
    case True
    then show ?thesis using writeTwo_dead [OF True v] w' by simp
  next
    case False
    have "prefix (wout v) (wout w @ putBE 2 (length ?ct) @ ?ct)"
      using writeTwo_outcome [OF v] by (auto simp: take_is_prefix split: if_splits simp del: take_append)
    moreover have "wout v = wout w @ putBE 2 (length ?ct) @ ?ct" if "wbreak v \<noteq> Some 0"
      using writeTwo_outcome [OF v] writeTwo_break [of w _ _ v] v that by (cases ok) auto
    ultimately show ?thesis using False w' enc by simp
  qed
qed

lemma prefix_more: "prefix a b \<Longrightarrow> prefix a (b @ c)"
  by (simp add: prefix_prefix)

lemma writeSF_wire:
  assumes ok: "wireOK C (ses S)" and "pools_ok (bpools S)" and C: "crypt E = C"
  shows "wireOK C (ses (snd (writeSF E X i t p S)))"
proof (cases "maxPlaintextSize - v2FrameHeader < length p")
  case True
  then show ?thesis using ok by (simp add: writeSF_def writeStreamFrame_def)
next
  case False
  let ?s = "ses S" and ?pt = "streamFrame i t p" and ?rr = "(roll (orand X), padding (orand X))"
  obtain e w' ps' where wf: "writeFrame C (orand X) (cout ?s) (keyS2C ?s) (seqWrite ?s) ?pt (bpools S) = (e, w', ps')"
    by (metis prod_cases3)
  let ?s' = "ses (snd (writeSF E X i t p S))"
  have s': "cout ?s' = w'" "seqWrite ?s' = seqWrite ?s + 1" "sealed ?s' = sealed ?s @ [(?rr, ?pt)]"
    using False wf by (simp_all add: writeSF_def writeStreamFrame_def C Let_def)
  have len: "length ?pt \<le> maxPlaintextSize"
    using False by (simp add: streamFrame_length v2FrameHeader_def frame_consts)
  have seq: "seqWrite ?s = 1 + word_of_nat (length (sealed ?s))" using ok by (simp add: wireOK_def)
  have out: "outgoing C ?s' = outgoing C ?s @ wireEnc (C, keyS2C ?s) ?rr (seqWrite ?s) ?pt"
    by (simp add: outgoing_def s' encAll_snoc seq)
  have "prefix (wout w') (outgoing C ?s') \<and> (wbreak w' \<noteq> Some 0 \<longrightarrow> wout w' = outgoing C ?s')"
    using writeFrame_wire [OF assms(2) len wf] ok unfolding out
    by (auto simp: wireOK_def prefix_more split: if_splits)
  moreover have "\<exists>i' t' p'. ?pt = streamFrame i' t' p' \<and> length p' \<le> maxPlaintextSize - v2FrameHeader"
    using False not_less by blast
  then have "\<forall>pt\<in>snd ` set (sealed ?s'). \<exists>i t p. pt = streamFrame i t p \<and>
      length p \<le> maxPlaintextSize - v2FrameHeader"
    using ok unfolding wireOK_def s' by auto
  ultimately show ?thesis by (simp add: wireOK_def s' seq)
qed

lemma wireOK_same [simp]:
  "wireOK C (ses (releaseOpen S)) = wireOK C (ses S)" "wireOK C (ses (closeUpstream r S)) = wireOK C (ses S)"
  "wireOK C (ses (dequeue r S)) = wireOK C (ses S)" "wireOK C (ses (upstreamWrite r bs S)) = wireOK C (ses S)"
  "wireOK C (ses (noteCredit r n S)) = wireOK C (ses S)" "wireOK C (ses (closeStream i S)) = wireOK C (ses S)"
  "wireOK C (ses (closeAllEntry i S)) = wireOK C (ses S)" "wireOK C (ses (closeAllStart S)) = wireOK C (ses S)"
  "wireOK C (ses (enqueue r p S)) = wireOK C (ses S)" "wireOK C (ses (received rd now S)) = wireOK C (ses S)"
  by (simp_all add: wireOK_def outgoing_def)

lemma wireOK_fields [simp]:
  "wireOK C (s\<lparr>openSem := k\<rparr>) = wireOK C s" "wireOK C (s\<lparr>objs := h\<rparr>) = wireOK C s"
  "wireOK C (s\<lparr>streams := m\<rparr>) = wireOK C s" "wireOK C (s\<lparr>cin := rd\<rparr>) = wireOK C s"
  "wireOK C (s\<lparr>threads := ts\<rparr>) = wireOK C s" "wireOK C (s\<lparr>registered := b\<rparr>) = wireOK C s"
  by (simp_all add: wireOK_def outgoing_def)

lemma wireOK_closeConn: "wireOK C s \<Longrightarrow> wireOK C (closeConn s)"
  by (auto simp: wireOK_def outgoing_def closeConn_def)

lemma dispatchFrame_wire:
  assumes "wireOK (crypt E) (ses S)" and "pools_ok (bpools S)"
    and "dispatchFrame E X i ft p S = Some (t', ts, S')"
  shows "wireOK (crypt E) (ses S')"
  using assms by (auto simp: dispatchFrame_def writeSF_wire split: if_splits option.splits)

lemma threadStep_wire:
  assumes "wireOK (crypt E) (ses S)" and "pools_ok (bpools S)" and "threadStep E X t S = Some (t', ts, S')"
  shows "wireOK (crypt E) (ses S')"
proof (cases t)
  case RlRead
  with assms have "threadStep E X RlRead S = Some (t', ts, S')" by simp
  then show ?thesis
  proof (cases rule: RlRead_cases)
    case (frame rd pt i ft p)
    then show ?thesis using dispatchFrame_wire [OF _ _ frame(3)] assms by simp
  qed (use assms in simp_all)
qed (use assms in \<open>auto simp: threadStep_def Let_def case_prod_beta writeSF_wire wireOK_closeConn
      split: if_splits list.splits sum.splits\<close>)

lemma wireOK_step:
  assumes "wireOK (crypt E) (ses S)" and "pools_ok (bpools S)" and "schedule E X n S = Some S'"
  shows "wireOK (crypt E) (ses S')"
  using assms(3) threadStep_wire [OF assms(1,2)] by (auto elim!: schedule_SomeE)

lemma wireOK_new: "wireOK C (newSession i rd wr kc ks now)"
  by (simp add: wireOK_def outgoing_def newSession_def)

interpretation wire: session_inv E "wireOK (crypt E)" for E
  by unfold_locales (rule wireOK_new, erule (2) wireOK_step, erule wireOK_closeConn)

section \<open>What the client recovers\<close>

definition sentFrames ::
  "((nat \<times> (nat \<Rightarrow> byte) option) \<times> bytes) list \<Rightarrow> ((nat \<times> (nat \<Rightarrow> byte)) \<times> bytes) list" where
  "sentFrames fs = map (\<lambda>f. ((fst (fst f), the (snd (fst f))), snd f)) fs"

lemma encAll_wireEnc:
  "(\<forall>f\<in>set fs. snd (fst f) \<noteq> None) \<Longrightarrow> encAll (wireEnc ck) seq fs = encAll (srvEnc ck) seq (sentFrames fs)"
  by (induction fs arbitrary: seq) (auto simp: wireEnc_def srvEnc_def sentFrames_def)

lemma wireOK_decodes:
  assumes ok: "wireOK C s" and "aead_ok C" and w: "wbreak (cout s) \<noteq> Some 0"
    and all: "\<forall>f\<in>set (sealed s). snd (fst f) \<noteq> None"
  shows "decAll (srvDec (C, keyS2C s)) 1 (length (sealed s))
           \<lparr>inbuf = drop (length (hello s)) (wout (cout s)), rend = e\<rparr>
         = (map snd (sealed s), None, \<lparr>inbuf = [], rend = e\<rparr>)"
proof -
  have "length pt \<le> maxPlaintextSize" if "pt \<in> snd ` set (sealed s)" for pt
    using ok that by (fastforce simp: wireOK_def streamFrame_length v2FrameHeader_def frame_consts)
  then have len: "length pt \<le> maxPlaintextSize" if "(r, pt) \<in> set (sentFrames (sealed s))" for r pt
    using that by (auto simp: sentFrames_def)
  have "drop (length (hello s)) (wout (cout s)) = encAll (srvEnc (C, keyS2C s)) 1 (sentFrames (sealed s)) @ []"
    using ok w all by (simp add: wireOK_def outgoing_def encAll_wireEnc)
  moreover have "map snd (sentFrames (sealed s)) = map snd (sealed s)"
    and "length (sentFrames (sealed s)) = length (sealed s)"
    by (simp_all add: sentFrames_def)
  ultimately show ?thesis
    using srv.dec_all [of "(C, keyS2C s)" "sentFrames (sealed s)" 1 "[]" e] assms(2) len by simp
qed

lemma seq_inj:
  assumes "i < n" and "j < n" and "n \<le> 2 ^ 64" and "1 + word_of_nat i = (1 + word_of_nat j :: u64)"
  shows "i = j"
proof -
  have "unat (word_of_nat i :: u64) = unat (word_of_nat j :: u64)" using assms(4) by simp
  then show ?thesis using assms(1-3) by (simp add: unat_of_nat take_bit_nat_eq_self)
qed

end
