(* ===== verification/Demo.thy ===== *)
theory Demo
  imports Teardown Wire
begin

text \<open>
  Concrete runs of the model: a client that authenticates, opens stream 1 and sends five
  bytes on it. They show that the situations the theorems speak about occur.
\<close>

section \<open>Running the scheduler\<close>

fun runSession :: "senv \<Rightarrow> nat \<Rightarrow> (nat \<times> stepin) list \<Rightarrow> world \<Rightarrow> world option" where
  "runSession E k [] W = Some W"
| "runSession E k ((n, X) # xs) W =
     (if k < length (wsess W)
      then (case schedule E X n (view k W) of None \<Rightarrow> None | Some S \<Rightarrow> runSession E k xs (putback k S W))
      else None)"

lemma runSession_wreach: "wreach G E W \<Longrightarrow> runSession E k xs W = Some W' \<Longrightarrow> wreach G E W'"
proof (induction E k xs W rule: runSession.induct)
  case (2 E k n X xs W)
  then show ?case by (auto split: if_splits option.splits intro: wreach.step wstep.run)
qed simp

section \<open>The demonstration\<close>

definition demo_psk :: bytes where "demo_psk = replicate 32 7"

definition demo_config :: pskDerivedConfig where
  "demo_config =
     \<lparr>alpnOrder = [''http/1.1''], heartbeatMinMs = 20000, heartbeatMaxMs = 45000, heartbeatPadMin = 32,
      heartbeatPadMax = 512, idleThresholdMs = 10000, camouflageStatus = 404\<rparr>"

definition demo_globals :: srvglobals where
  "demo_globals = \<lparr>srvPsk = demo_psk, pskCfg = demo_config, pickedCamouflage = None\<rparr>"

definition demo_env :: senv where
  "demo_env = \<lparr>crypt = demo_crypto, unilow = (\<lambda>s. s), allowedDomains = [], scfg = demo_config\<rparr>"

definition demo_hsenv :: hsenv where
  "demo_hsenv = \<lparr>hsdate = ''Mon, 01 Jan 2026 00:00:00 GMT'', dl1 = True, dl2 = True,
     hsr = \<lparr>nonceRnd = Some (\<lambda>_. 2), padRoll = 3, padRnd = Some (\<lambda>_. 0)\<rparr>\<rparr>"

definition demo_step :: stepin where
  "demo_step = \<lparr>orand = \<lparr>roll = 99, innerPick = 0, ctPick = 0, padding = Some (\<lambda>_. 0)\<rparr>, onow = 1,
     ready = True, dialOK = True, wrote = 65535, rdata = [], rfail = False, fire = True, hbroll = 0, hbrnd = (\<lambda>_. 0)\<rparr>"

text \<open>The client's frames: OPEN of \<open>1.2.3.4:80\<close> as stream 1, then DATA.\<close>

definition demo_key :: bytes where
  "demo_key = the (deriveKey demo_crypto demo_psk (replicate 16 1) (replicate 16 2) ''c2s-key'')"

definition demo_frames :: "bytes list \<Rightarrow> bytes" where
  "demo_frames pts = encAll (srvEnc (demo_crypto, demo_key)) 1 (map (\<lambda>p. ((99, \<lambda>_. 0), p)) pts)"

definition demo_open :: bytes where
  "demo_open = streamFrame 1 v2TypeOpen [1, 1, 2, 3, 4, 0, 80]"

definition demo_data :: bytes where
  "demo_data = streamFrame 1 v2TypeData [104, 101, 108, 108, 111]"

definition demo_reader :: "bytes list \<Rightarrow> reader" where
  "demo_reader pts =
     \<lparr>inbuf = helloBytes demo_crypto demo_psk ''c2s-hs'' (replicate 16 1) [] @ demo_frames pts, rend = EOF\<rparr>"

definition demo_start :: "bytes list \<Rightarrow> world" where
  "demo_start pts =
     handleTCPv2 demo_crypto demo_globals demo_hsenv 0 (demo_reader pts) \<lparr>wout = [], wbreak = None\<rparr> initWorld"

lemma demo_start_reach: "wreach demo_globals demo_env (demo_start pts)"
proof -
  have "wstep demo_globals demo_env initWorld (demo_start pts)"
    using wstep.conn [of demo_globals demo_env initWorld demo_hsenv 0 "demo_reader pts" "\<lparr>wout = [], wbreak = None\<rparr>"]
    by (simp add: demo_start_def demo_env_def)
  then show ?thesis by (rule wreach.step [OF wreach.start])
qed

text \<open>The session after the handshake.\<close>

definition demo_skey :: bytes where
  "demo_skey = the (deriveKey demo_crypto demo_psk (replicate 16 1) (replicate 16 2) ''s2c-key'')"

definition demo_hello :: bytes where
  "demo_hello = helloBytes demo_crypto demo_psk ''s2c-hs'' (replicate 16 2) [0, 0, 0]"

lemma demo_accept:
  "acceptConn demo_crypto demo_globals demo_hsenv (demo_reader pts) \<lparr>wout = [], wbreak = None\<rparr>
     = (Established (replicate 16 1) (replicate 16 2) demo_key demo_skey,
        \<lparr>inbuf = demo_frames pts, rend = EOF\<rparr>, \<lparr>wout = demo_hello, wbreak = None\<rparr>)"
proof -
  have n: "length (replicate 16 (1 :: byte)) = nonceLen" "\<not> looksLikeHTTP (replicate 16 (1 :: byte))"
    "length ([] :: bytes) \<le> maxHandshakePad"
    by (simp add: nonceLen_def) (code_simp, simp)
  have c: "readClientHandshake demo_crypto demo_psk (demo_reader pts) =
      (Inr (replicate 16 1), \<lparr>inbuf = demo_frames pts, rend = EOF\<rparr>)"
    unfolding demo_reader_def by (rule readClientHandshake_hello [OF demo_hmac_ok n(1,3,2)])
  have s: "writeServerHandshake demo_crypto demo_psk (hsr demo_hsenv) \<lparr>wout = [], wbreak = None\<rparr>
      = (Some (replicate 16 2), \<lparr>wout = demo_hello, wbreak = None\<rparr>)"
    by (simp add: writeServerHandshake_def demo_hsenv_def nonceLen_def writeConn_unbroken demo_hello_def
        helloBytes_shape map_replicate_const upt_rec numeral_eq_Suc)
  have "deriveKey demo_crypto demo_psk (replicate 16 1) (replicate 16 2) ''c2s-key'' = Some demo_key"
    and "deriveKey demo_crypto demo_psk (replicate 16 1) (replicate 16 2) ''s2c-key'' = Some demo_skey"
    by (simp_all add: demo_key_def demo_skey_def deriveKey_def demo_crypto_def)
  then show ?thesis
    using c s by (simp add: acceptConn_def demo_globals_def demo_hsenv_def)
qed

definition demo_session :: "bytes list \<Rightarrow> v2Session" where
  "demo_session pts =
     newSession 1 \<lparr>inbuf = demo_frames pts, rend = EOF\<rparr> \<lparr>wout = demo_hello, wbreak = None\<rparr> demo_key demo_skey 0"

lemma demo_start_eq:
  "demo_start pts = \<lparr>wsess = [demo_session pts], v2GlobalBuffered = 0, wpools = empty_pools, connCounter = 1\<rparr>"
  by (simp add: demo_start_def handleTCPv2_def demo_accept initWorld_def demo_session_def)

text \<open>Rewriting rules under which runs of the demonstration evaluate.\<close>

lemma demo_frames_simps:
  "demo_frames [] = []"
  "length p \<le> maxPlaintextSize - v2FrameHeader \<Longrightarrow>
   readFrame demo_crypto
     \<lparr>inbuf = encAll (srvEnc (demo_crypto, demo_key)) seq (((99, \<lambda>_. 0), streamFrame i t p) # fs), rend = EOF\<rparr>
     demo_key seq
   = (Inr (streamFrame i t p), \<lparr>inbuf = encAll (srvEnc (demo_crypto, demo_key)) (seq + 1) fs, rend = EOF\<rparr>)"
  "readFrame demo_crypto \<lparr>inbuf = encAll (srvEnc (demo_crypto, demo_key)) seq [], rend = EOF\<rparr> key seq'
   = (Inl (ReadFailed EOF), \<lparr>inbuf = [], rend = EOF\<rparr>)"
  by (simp_all add: demo_frames_def srvEnc_def readFrame_frameBytes demo_aead_ok streamFrame_length
      v2FrameHeader_def frame_consts del: encAll.simps(1))
    (simp_all add: readFrame_def readFull_def)

lemma demo_target: "parseTarget [1, 1, 2, 3, 4, 0, 80] = Inr ''1.2.3.4:80''"
  by code_simp

lemmas demo_run_simps = schedule_def threadStep_def view_def putback_def demo_env_def demo_step_def
  demo_session_def newSession_def Let_def received_def touch_def dispatchFrame_def
  demo_frames_simps splitFrame_streamFrame frame_consts v2FrameHeader_def v2_types v2_limits
  demo_target isTargetAllowed_def enqueue_def newStream_def overBudget_def pushChunk_def

definition demo_trace :: "(nat \<times> stepin) list" where
  "demo_trace = map (\<lambda>n. (n, demo_step)) [0, 2, 2, 2, 0, 0]"

lemma demo_run:
  "\<exists>W s st. runSession demo_env 0 demo_trace (demo_start [demo_open, demo_data]) = Some W \<and>
     wsess W = [s] \<and> objs s = [st] \<and> streams s = [(1, 0)] \<and> queue st = [[104, 101, 108, 108, 111]] \<and>
     accepted st = [104, 101, 108, 108, 111] \<and> qbytes st = 5 \<and> buffered s = 5 \<and> v2GlobalBuffered W = 5 \<and>
     uwritten st = [] \<and> granted st = 0 \<and> \<not> st_closed st \<and> \<not> sclosed s"
  unfolding demo_start_eq demo_open_def demo_data_def demo_trace_def demo_session_def demo_frames_def
  by (simp add: demo_run_simps del: encAll.simps)

text \<open>
  The session ends while its opener is between storing and checking: \<open>closeAll\<close> sees the
  stream, and the opener finds the session closed.
\<close>

definition quiet_step :: stepin where
  "quiet_step = demo_step\<lparr>fire := False\<rparr>"

definition demo_end_trace :: "(nat \<times> stepin) list" where
  "demo_end_trace = map (\<lambda>n. (n, demo_step)) [0, 2, 2, 2, 0, 0, 0, 0, 0, 0, 2] @ [(1, quiet_step)]"

lemmas demo_end_simps = demo_run_simps quiet_step_def closeAllStart_def closeAllEntry_def closeConn_def
  closeUpstream_def releaseOpen_def shutStream_def reclaim_def

lemma demo_end_run:
  "\<exists>W s st. runSession demo_env 0 demo_end_trace (demo_start [demo_open]) = Some W \<and>
     wsess W = [s] \<and> objs s = [st] \<and> threads s = [Finished, Finished, Finished] \<and> sclosed s \<and>
     \<not> uopen st \<and> st_id st = 1 \<and> v2GlobalBuffered W = 0"
  unfolding demo_start_eq demo_open_def demo_end_trace_def demo_session_def demo_frames_def
  by (simp add: demo_end_simps del: encAll.simps)

section \<open>Two leaks\<close>

text \<open>
  The cleanup in \<open>handleOpen\<close> for a session that closed meanwhile removes the stream from
  the map and closes its connection, but does not give its queued bytes back. When it runs
  before \<open>closeAll\<close> reaches the stream, data the client had already sent on it stays counted
  in \<open>v2GlobalBuffered\<close> although every goroutine of the session has ended.
\<close>

definition leak_trace :: "(nat \<times> stepin) list" where
  "leak_trace = map (\<lambda>n. (n, demo_step)) [0, 2, 2, 2, 0, 0, 0, 0, 2, 0, 0, 0] @ [(1, quiet_step)]"

lemma leak_run:
  "\<exists>W s. runSession demo_env 0 leak_trace (demo_start [demo_open, demo_data]) = Some W \<and>
     wsess W = [s] \<and> threads s = [Finished, Finished, Finished] \<and> streams s = [] \<and> v2GlobalBuffered W = 5"
  unfolding demo_start_eq demo_open_def demo_data_def leak_trace_def demo_session_def demo_frames_def
  by (simp add: demo_end_simps del: encAll.simps)

text \<open>
  The same cleanup removes whatever the map holds under its identifier. If the client closed
  the stream and opened another one with the same identifier in the meantime, that one
  disappears from the map; \<open>closeAll\<close> does not find it, its connection stays open and its
  pump waits for ever.
\<close>

definition demo_close :: bytes where
  "demo_close = streamFrame 1 v2TypeClose []"

definition reuse_trace :: "(nat \<times> stepin) list" where
  "reuse_trace = map (\<lambda>n. (n, demo_step)) [0, 2, 2, 2, 0, 0, 3, 3, 3, 3, 3, 0, 0, 2, 0, 0, 0] @ [(1, quiet_step)]"

text \<open>The write of OPEN_OK on the intact connection.\<close>

lemma demo_ack:
  "\<exists>ps. pools_ok ps \<and> writeFrame demo_crypto \<lparr>roll = 99, innerPick = 0, ctPick = 0, padding = Some (\<lambda>_. 0)\<rparr>
      \<lparr>wout = demo_hello, wbreak = None\<rparr> demo_skey 1 (streamFrame 1 6 (putBE 4 4194304)) empty_pools =
      (None, \<lparr>wout = demo_hello @ frameBytes demo_crypto 99 (\<lambda>_. 0) demo_skey 1 (streamFrame 1 6 (putBE 4 4194304)),
              wbreak = None\<rparr>, ps)"
  using writeFrame_unbroken [of empty_pools "streamFrame 1 6 (putBE 4 4194304)"
      "\<lparr>roll = 99, innerPick = 0, ctPick = 0, padding = Some (\<lambda>_. 0)\<rparr>" "\<lambda>_. 0"
      "\<lparr>wout = demo_hello, wbreak = None\<rparr>" demo_crypto demo_skey 1]
  by (simp add: streamFrame_length v2FrameHeader_def frame_consts)

lemma reuse_run:
  "\<exists>W s. runSession demo_env 0 reuse_trace (demo_start [demo_open, demo_close, demo_open]) = Some W \<and>
     wsess W = [s] \<and> streams s = [] \<and> sclosed s \<and> \<not> registered s \<and>
     threads s = [Finished, Finished, Finished, Finished, UpCheck 1 1, PumpWait 1 1 0] \<and>
     uopen (objs s ! 1) \<and> pump E X (PumpWait 1 1 0) (view 0 W) = None"
proof -
  from demo_ack obtain ps where w: "writeFrame demo_crypto
      \<lparr>roll = 99, innerPick = 0, ctPick = 0, padding = Some (\<lambda>_. 0)\<rparr>
      \<lparr>wout = demo_hello, wbreak = None\<rparr> demo_skey 1 (streamFrame 1 6 (putBE 4 4194304)) empty_pools =
      (None, \<lparr>wout = demo_hello @ frameBytes demo_crypto 99 (\<lambda>_. 0) demo_skey 1 (streamFrame 1 6 (putBE 4 4194304)),
              wbreak = None\<rparr>, ps)"
    by blast
  show ?thesis
    unfolding demo_start_eq demo_open_def demo_close_def reuse_trace_def demo_session_def demo_frames_def
    by (simp add: demo_end_simps closeStream_def writeSF_def writeStreamFrame_def w del: encAll.simps)
qed

text \<open>An upload as far as the credit the pump is about to send.\<close>

definition credit_trace :: "(nat \<times> stepin) list" where
  "credit_trace = map (\<lambda>n. (n, demo_step)) [0, 2, 2, 2, 2, 2, 0, 0, 4, 4]"

lemma credit_run:
  "\<exists>W s st. runSession demo_env 0 credit_trace (demo_start [demo_open, demo_data]) = Some W \<and>
     wsess W = [s] \<and> objs s = [st] \<and>
     threads s = [RlRead, Heartbeat, Finished, UpCheck 1 0, PumpCredit 1 0 5] \<and>
     uwritten st = [104, 101, 108, 108, 111] \<and> length (sealed s) = 1 \<and>
     cout s = \<lparr>wout = demo_hello @ frameBytes demo_crypto 99 (\<lambda>_. 0) demo_skey 1 (streamFrame 1 6 (putBE 4 4194304)),
               wbreak = None\<rparr> \<and> sealed s = [((99, Some (\<lambda>_. 0)), streamFrame 1 6 (putBE 4 4194304))] \<and>
     hello s = demo_hello \<and> keyS2C s = demo_skey"
proof -
  from demo_ack obtain ps where w: "writeFrame demo_crypto
      \<lparr>roll = 99, innerPick = 0, ctPick = 0, padding = Some (\<lambda>_. 0)\<rparr>
      \<lparr>wout = demo_hello, wbreak = None\<rparr> demo_skey 1 (streamFrame 1 6 (putBE 4 4194304)) empty_pools =
      (None, \<lparr>wout = demo_hello @ frameBytes demo_crypto 99 (\<lambda>_. 0) demo_skey 1 (streamFrame 1 6 (putBE 4 4194304)),
              wbreak = None\<rparr>, ps)"
    by blast
  show ?thesis
    unfolding demo_start_eq demo_open_def demo_data_def credit_trace_def demo_session_def demo_frames_def
    by (simp add: demo_end_simps writeSF_def writeStreamFrame_def w dequeue_def popChunk_def upstreamWrite_def
        del: encAll.simps)
qed

section \<open>The runs as reachable worlds\<close>

lemma demo_reached:
  "\<exists>W s st. wreach demo_globals demo_env W \<and>
     wsess W = [s] \<and> objs s = [st] \<and> streams s = [(1, 0)] \<and> queue st = [[104, 101, 108, 108, 111]] \<and>
     accepted st = [104, 101, 108, 108, 111] \<and> qbytes st = 5 \<and> buffered s = 5 \<and> v2GlobalBuffered W = 5 \<and>
     uwritten st = [] \<and> granted st = 0 \<and> \<not> st_closed st \<and> \<not> sclosed s"
  using demo_run runSession_wreach [OF demo_start_reach] by meson

lemma demo_end_reached:
  "\<exists>W s st. wreach demo_globals demo_env W \<and>
     wsess W = [s] \<and> objs s = [st] \<and> threads s = [Finished, Finished, Finished] \<and> sclosed s \<and>
     \<not> uopen st \<and> st_id st = 1 \<and> v2GlobalBuffered W = 0"
  using demo_end_run runSession_wreach [OF demo_start_reach] by meson

lemma credit_reached:
  "\<exists>W s st. wreach demo_globals demo_env W \<and> wsess W = [s] \<and> objs s = [st] \<and>
     threads s = [RlRead, Heartbeat, Finished, UpCheck 1 0, PumpCredit 1 0 5] \<and>
     uwritten st = [104, 101, 108, 108, 111] \<and> length (sealed s) = 1 \<and>
     cout s = \<lparr>wout = demo_hello @ frameBytes demo_crypto 99 (\<lambda>_. 0) demo_skey 1 (streamFrame 1 6 (putBE 4 4194304)),
               wbreak = None\<rparr> \<and> sealed s = [((99, Some (\<lambda>_. 0)), streamFrame 1 6 (putBE 4 4194304))] \<and>
     hello s = demo_hello \<and> keyS2C s = demo_skey"
  using credit_run runSession_wreach [OF demo_start_reach] by meson

lemma demo_started: "wreach demo_globals demo_env (demo_start pts) \<and> demo_session pts \<in> set (wsess (demo_start pts))"
  using demo_start_reach by (simp add: demo_start_eq)

end
