(* ===== verification/Lifecycle.thy ===== *)
theory Lifecycle
  imports Demo
begin

text \<open>
  What a session may dial, how it ends and how it stays alive: only targets of the allowlist
  are dialled, a session whose connection the reaper closed runs its teardown to the end,
  and the heartbeat never stops because of an oversized frame.
\<close>

section \<open>Invariant\<close>

text \<open>The read loop is goroutine 0. \<open>ending\<close>: it has entered \<open>closeAll\<close>.\<close>

fun ending :: "thread \<Rightarrow> bool" where
  "ending RlSnapshot = True"
| "ending (RlRange _) = True"
| "ending RlExit = True"
| "ending Finished = True"
| "ending _ = False"

fun permitted :: "senv \<Rightarrow> thread \<Rightarrow> bool" where
  "permitted E (OpenerDial i a) \<longleftrightarrow>
     isTargetAllowed (unilow E) (allowedDomains E) a \<and> (\<exists>spec. parseTarget spec = Inr a)"
| "permitted E _ \<longleftrightarrow> True"

definition lifeOK :: "senv \<Rightarrow> v2Session \<Rightarrow> bool" where
  "lifeOK E s \<longleftrightarrow>
     (\<exists>t0 ts. threads s = t0 # ts \<and> (readerThread t0 \<or> t0 = Finished) \<and>
        (\<forall>u\<in>set ts. \<not> readerThread u) \<and> (sclosed s \<longleftrightarrow> ending t0) \<and> (registered s \<longleftrightarrow> t0 \<noteq> Finished)) \<and>
     (\<forall>t\<in>set (threads s). permitted E t)"

text \<open>The steps of the other goroutines change neither flag.\<close>

lemma step_life_other:
  assumes "threadStep E X t S = Some (t', ts, S')" and "\<not> readerThread t"
  shows "\<not> readerThread t' \<and> (\<forall>u\<in>set ts. \<not> readerThread u \<and> permitted E u) \<and> permitted E t' \<and>
         sclosed (ses S') = sclosed (ses S) \<and> registered (ses S') = registered (ses S)"
  using assms
  by (cases t) (auto simp: threadStep_def Let_def case_prod_beta split: if_splits sum.splits)

lemma dispatchFrame_life:
  assumes "dispatchFrame E X i ft p S = Some (t', ts, S')"
  shows "readerThread t' \<and> \<not> ending t' \<and> (\<forall>u\<in>set ts. \<not> readerThread u \<and> permitted E u) \<and> permitted E t' \<and>
         sclosed (ses S') = sclosed (ses S) \<and> registered (ses S') = registered (ses S)"
  using assms by (auto simp: dispatchFrame_def split: if_splits option.splits)

lemma step_life_reader:
  assumes st: "threadStep E X t S = Some (t', ts, S')" and "readerThread t"
    and "sclosed (ses S) \<longleftrightarrow> ending t" and "registered (ses S) \<longleftrightarrow> t \<noteq> Finished"
  shows "(readerThread t' \<or> t' = Finished) \<and> (\<forall>u\<in>set ts. \<not> readerThread u \<and> permitted E u) \<and>
         permitted E t' \<and> (sclosed (ses S') \<longleftrightarrow> ending t') \<and> (registered (ses S') \<longleftrightarrow> t' \<noteq> Finished)"
proof (cases t)
  case RlRead
  from RlRead st have "threadStep E X RlRead S = Some (t', ts, S')" by simp
  then show ?thesis
  proof (cases rule: RlRead_cases)
    case (frame rd pt i ft p)
    with dispatchFrame_life [OF frame(3)] assms(3,4) RlRead show ?thesis by auto
  qed (use assms(3,4) RlRead in auto)
qed (use assms in \<open>auto simp: threadStep_def closeAllStart_def closeConn_def split: list.splits\<close>)

lemma lifeOK_step:
  assumes ok: "lifeOK E (ses S)" and sch: "schedule E X n S = Some S'"
  shows "lifeOK E (ses S')"
proof -
  from ok obtain t0 us where thr: "threads (ses S) = t0 # us" and t0: "readerThread t0 \<or> t0 = Finished"
    and us: "\<forall>u\<in>set us. \<not> readerThread u" and fl: "sclosed (ses S) \<longleftrightarrow> ending t0" "registered (ses S) \<longleftrightarrow> t0 \<noteq> Finished"
    and pm: "\<forall>t\<in>set (t0 # us). permitted E t"
    by (auto simp: lifeOK_def)
  from sch obtain t ts S1 where n: "n < length (t0 # us)"
    and st: "threadStep E X ((t0 # us) ! n) S = Some (t, ts, S1)"
    and S': "S' = S1\<lparr>ses := (ses S1)\<lparr>threads := (t0 # us)[n := t] @ ts\<rparr>\<rparr>"
    unfolding thr [symmetric] by (rule schedule_SomeE)
  show ?thesis
  proof (cases n)
    case 0
    with st t0 have "readerThread t0" by (auto simp: threadStep_def)
    from step_life_reader [OF _ this fl, of E X t ts S1] st 0 us pm show ?thesis
      by (auto simp: lifeOK_def S')
  next
    case (Suc m)
    with n us have "\<not> readerThread (us ! m)" by simp
    with step_life_other [of E X "us ! m" S t ts S1] st Suc us pm t0 fl show ?thesis
      by (auto simp: lifeOK_def S' dest: subsetD [OF set_update_subset_insert])
  qed
qed

lemma closeConn_registered [simp]: "registered (closeConn s) = registered s"
  by (simp add: closeConn_def)

interpretation life: session_inv E "lifeOK E" for E
  by unfold_locales (simp add: lifeOK_def newSession_def, erule (1) lifeOK_step, simp add: lifeOK_def)

section \<open>The teardown runs to its end\<close>

text \<open>Running goroutine 0 alone, step by step.\<close>

fun runReader :: "senv \<Rightarrow> stepin list \<Rightarrow> sstate \<Rightarrow> sstate option" where
  "runReader E [] S = Some S"
| "runReader E (X # Xs) S = (case schedule E X 0 S of None \<Rightarrow> None | Some S1 \<Rightarrow> runReader E Xs S1)"

definition atReader :: "thread \<Rightarrow> sstate \<Rightarrow> bool" where
  "atReader t S \<longleftrightarrow> (\<exists>ts. threads (ses S) = t # ts)"

definition ended :: "v2Session \<Rightarrow> bool" where
  "ended s \<longleftrightarrow> hd (threads s) = Finished \<and> \<not> registered s \<and> sclosed s \<and> streams s = []"

lemma closeAllEntry_streams:
  "streams (ses (closeAllEntry k S)) = filter (\<lambda>e. fst e \<noteq> k) (streams (ses S))"
proof (cases "map_of (streams (ses S)) k")
  case None
  then have "filter (\<lambda>e. fst e \<noteq> k) (streams (ses S)) = streams (ses S)"
    by (intro filter_True) (force simp: map_of_eq_None_iff)
  with None show ?thesis by (simp add: closeAllEntry_def Let_def)
next
  case (Some r)
  then show ?thesis by (auto simp: closeAllEntry_def Let_def AList.delete_eq intro!: filter_cong)
qed

lemma run_range:
  "atReader (RlRange ks) S \<Longrightarrow> sclosed (ses S) \<Longrightarrow> fst ` set (streams (ses S)) \<subseteq> set ks \<Longrightarrow>
   length Xs = length ks + 2 \<Longrightarrow> \<exists>S'. runReader E Xs S = Some S' \<and> ended (ses S')"
proof (induction ks arbitrary: S Xs)
  case Nil
  then obtain X Y where "Xs = [X, Y]" by (auto simp: length_Suc_conv numeral_2_eq_2)
  with Nil show ?case
    by (auto simp: atReader_def schedule_def threadStep_def ended_def)
next
  case (Cons k ks)
  then obtain X Ys where Xs: "Xs = X # Ys" "length Ys = length ks + 2" by (auto simp: length_Suc_conv)
  from Cons.prems(1) obtain ts where ts: "threads (ses S) = RlRange (k # ks) # ts" by (auto simp: atReader_def)
  let ?S = "closeAllEntry k S"
  let ?T = "?S\<lparr>ses := (ses ?S)\<lparr>threads := RlRange ks # ts\<rparr>\<rparr>"
  have "schedule E X 0 S = Some ?T" by (simp add: schedule_def threadStep_def ts)
  moreover have "\<exists>S'. runReader E Ys ?T = Some S' \<and> ended (ses S')"
    using Cons.prems(2,3) Xs(2) by (intro Cons.IH) (auto simp: atReader_def closeAllEntry_streams)
  ultimately show ?case by (simp add: Xs)
qed

lemma run_teardown:
  assumes "atReader RlTeardown S" and "length Xs = length (streams (ses S)) + 4"
  shows "\<exists>S'. runReader E Xs S = Some S' \<and> ended (ses S')"
proof -
  from assms(2) obtain X Y Zs where Xs: "Xs = X # Y # Zs" "length Zs = length (streams (ses S)) + 2"
    by (auto simp: length_Suc_conv numeral_eq_Suc)
  from assms(1) obtain ts where ts: "threads (ses S) = RlTeardown # ts" by (auto simp: atReader_def)
  let ?T = "(closeAllStart S)\<lparr>ses := (ses (closeAllStart S))\<lparr>threads := RlRange (map fst (streams (ses S))) # ts\<rparr>\<rparr>"
  have "runReader E Xs S = runReader E Zs ?T"
    by (simp add: Xs schedule_def threadStep_def ts closeAllStart_def)
  moreover have "\<exists>S'. runReader E Zs ?T = Some S' \<and> ended (ses S')"
    using Xs(2)
    by (intro run_range [where ks = "map fst (streams (ses S))"]) (simp_all add: atReader_def closeAllStart_def)
  ultimately show ?thesis by simp
qed

lemma run_closed_read:
  assumes "atReader RlRead S" and "inbuf (cin (ses S)) = []" and "length Xs = length (streams (ses S)) + 5"
  shows "\<exists>S'. runReader E Xs S = Some S' \<and> ended (ses S')"
proof -
  from assms(3) obtain X Ys where Xs: "Xs = X # Ys" "length Ys = length (streams (ses S)) + 4"
    by (auto simp: length_Suc_conv numeral_eq_Suc)
  from assms(1) obtain ts where ts: "threads (ses S) = RlRead # ts" by (auto simp: atReader_def)
  obtain err rd where rf: "readFrame (crypt E) (cin (ses S)) (keyC2S (ses S)) (seqRead (ses S)) = (Inl err, rd)"
    using assms(2) by (simp add: readFrame_def readFull_def)
  let ?T = "S\<lparr>ses := (ses S)\<lparr>cin := rd, threads := RlTeardown # ts\<rparr>\<rparr>"
  have "runReader E Xs S = runReader E Ys ?T"
    by (simp add: Xs schedule_def threadStep_def ts rf)
  moreover have "\<exists>S'. runReader E Ys ?T = Some S' \<and> ended (ses S')"
    using Xs(2) by (intro run_teardown) (auto simp: atReader_def)
  ultimately show ?thesis by simp
qed

text \<open>However far the read loop was, once the connection is closed it ends after boundedly many steps.\<close>

lemma run_closed:
  assumes "lifeOK E (ses S)" and "\<not> sclosed (ses S)" and "inbuf (cin (ses S)) = []"
  shows "\<exists>n \<le> length (streams (ses S)) + 6. \<forall>Xs. length Xs = n \<longrightarrow>
           (\<exists>S'. runReader E Xs S = Some S' \<and> ended (ses S'))"
proof -
  from assms(1,2) obtain t0 ts where ts: "threads (ses S) = t0 # ts" and r: "readerThread t0" "\<not> ending t0"
    by (auto simp: lifeOK_def)
  then have at: "atReader t0 S" by (simp add: atReader_def)
  from r show ?thesis
  proof (cases t0)
    case RlRead
    then show ?thesis
      using run_closed_read [of S _ E] at assms(3) by (intro exI [of _ "length (streams (ses S)) + 5"]) simp
  next
    case RlTeardown
    then show ?thesis
      using run_teardown [of S _ E] at by (intro exI [of _ "length (streams (ses S)) + 4"]) simp
  next
    case (RlEnqueue r p)
    let ?S = "enqueue r p S"
    let ?T = "?S\<lparr>ses := (ses ?S)\<lparr>threads := RlRead # ts\<rparr>\<rparr>"
    have "schedule E X 0 S = Some ?T" for X by (simp add: schedule_def threadStep_def ts RlEnqueue)
    moreover have "\<exists>S'. runReader E Ys ?T = Some S' \<and> ended (ses S')"
      if "length Ys = length (streams (ses S)) + 5" for Ys
      using that assms(3) by (intro run_closed_read) (auto simp: atReader_def)
    ultimately have "\<exists>S'. runReader E Xs S = Some S' \<and> ended (ses S')"
      if "length Xs = length (streams (ses S)) + 6" for Xs
      using that by (cases Xs) auto
    then show ?thesis by (intro exI [of _ "length (streams (ses S)) + 6"]) simp
  qed auto
qed

section \<open>Properties\<close>

text \<open>C17. Nothing outside the allowlist is ever dialled: in every reachable state, an address a goroutine is
  dialling is the address of a well-formed target and passes \<open>isTargetAllowed\<close>.\<close>

theorem only_allowed_targets_dialled:
  assumes "wreach G E W" and "s \<in> set (wsess W)" and "OpenerDial i a \<in> set (threads s)"
  shows "isTargetAllowed (unilow E) (allowedDomains E) a \<and> (\<exists>spec. parseTarget spec = Inr a)"
proof -
  have "lifeOK E s" by (rule life.always [OF assms(1,2)])
  then have "permitted E (OpenerDial i a)" using assms(3) by (auto simp: lifeOK_def)
  then show ?thesis by simp
qed

lemma dial_reached:
  "\<exists>W s. wreach demo_globals demo_env W \<and> wsess W = [s] \<and> threads s = [RlRead, Heartbeat, OpenerDial 1 ''1.2.3.4:80'']"
proof -
  have "\<exists>W s. runSession demo_env 0 [(0, demo_step), (2, demo_step)] (demo_start [demo_open]) = Some W \<and> wsess W = [s] \<and>
      threads s = [RlRead, Heartbeat, OpenerDial 1 ''1.2.3.4:80'']"
    unfolding demo_start_eq demo_open_def demo_session_def demo_frames_def
    by (simp add: demo_run_simps del: encAll.simps)
  then show ?thesis using runSession_wreach [OF demo_start_reach] by meson
qed

theorem only_allowed_targets_dialled_witness:
  "\<exists>W s. wreach demo_globals demo_env W \<and> s \<in> set (wsess W) \<and> OpenerDial 1 ''1.2.3.4:80'' \<in> set (threads s) \<and>
     isTargetAllowed (unilow demo_env) (allowedDomains demo_env) ''1.2.3.4:80''"
proof -
  from dial_reached obtain W s where w: "wreach demo_globals demo_env W" "wsess W = [s]"
    "OpenerDial 1 ''1.2.3.4:80'' \<in> set (threads s)" by force
  then have "s \<in> set (wsess W)" by simp
  with only_allowed_targets_dialled [OF w(1) this w(3)] w show ?thesis by blast
qed

text \<open>C18. The reaper ends idle sessions: after it closed the connection of a session that is not yet closing, the
  session's read loop, run on its own with whatever the environment supplies, never blocks and reaches its end in at
  most \<open>6\<close> steps more than there are streams, with \<open>closeAll\<close> done, the map empty and the session deregistered.\<close>

theorem reaped_session_ends:
  assumes "wreach G E W" and "k < length (wsess W)" and "\<not> sclosed (wsess W ! k)"
    and "lastActivity (wsess W ! k) < now - v2SessionIdleTimeout"
  shows "\<exists>n \<le> length (streams (wsess W ! k)) + 6. \<forall>Xs. length Xs = n \<longrightarrow>
     (\<exists>S'. runReader E Xs (view k (reapV2Sessions now W)) = Some S' \<and>
        hd (threads (ses S')) = Finished \<and> \<not> registered (ses S') \<and> sclosed (ses S') \<and> streams (ses S') = [])"
proof -
  let ?s = "wsess W ! k"
  have ok: "lifeOK E ?s" using life.always [OF assms(1)] assms(2) by simp
  then have "registered ?s" using assms(3) by (auto simp: lifeOK_def)
  then have r: "wsess (reapV2Sessions now W) ! k = closeConn ?s"
    using assms(2,4) by (simp add: reapV2Sessions_def Let_def)
  have "lifeOK E (closeConn ?s)" using ok by (simp add: lifeOK_def)
  with run_closed [of E "view k (reapV2Sessions now W)"] assms(3) show ?thesis
    by (simp add: r ended_def) (simp add: closeConn_def)
qed

theorem reaped_session_ends_witness:
  "\<exists>n \<le> 6. \<forall>Xs. length Xs = n \<longrightarrow>
     (\<exists>S'. runReader demo_env Xs (view 0 (reapV2Sessions 300000000001 (demo_start [demo_open]))) = Some S' \<and>
        hd (threads (ses S')) = Finished)"
proof -
  have "0 < length (wsess (demo_start [demo_open]))" and "\<not> sclosed (wsess (demo_start [demo_open]) ! 0)"
    and "lastActivity (wsess (demo_start [demo_open]) ! 0) < 300000000001 - v2SessionIdleTimeout"
    and "streams (wsess (demo_start [demo_open]) ! 0) = []"
    by (simp_all add: demo_start_eq demo_session_def newSession_def v2SessionIdleTimeout_def)
  with reaped_session_ends [OF demo_start_reach, of 0 "[demo_open]" 300000000001] show ?thesis by fastforce
qed

text \<open>The heartbeat does not die of its own frames: with any configuration derived from a pre-shared key (and,
  by the clamps, with any configuration whose minimal padding is not negative) every PING fits a frame, so on a working
  connection the loop writes it and goes on.\<close>

lemma heartbeat_survives:
  assumes "0 \<le> heartbeatPadMin (scfg E)" and "fire X" and "pools_ok (bpools S)"
    and "padding (orand X) \<noteq> None" and "wbreak (cout (ses S)) = None"
  shows "(\<exists>S'. heartbeatLoop E X Heartbeat S = Some (Heartbeat, [], S')) \<and>
     (case heartbeatPadding (scfg E) of (padMin, padRange) \<Rightarrow>
        0 \<le> padMin \<and> 0 \<le> padRange \<and> padMin + padRange \<le> int (maxPlaintextSize - v2FrameHeader)) \<and>
     0 \<le> snd (heartbeatInterval (scfg E))"
proof -
  obtain m g where hp: "heartbeatPadding (scfg E) = (m, g)" by fastforce
  then have b: "0 \<le> m" "0 \<le> g" "m + g \<le> 16375"
    using assms(1) by (auto simp: heartbeatPadding_def Let_def frame_consts v2FrameHeader_def split: if_splits)
  define pad where "pad = map (hbrnd X) [0..<nat (m + int (hbroll X mod nat (g + 1)))]"
  have "hbroll X mod nat (g + 1) < nat (g + 1)" using b by (intro mod_less_divisor) simp
  then have "m + int (hbroll X mod nat (g + 1)) \<le> 16375" using b by linarith
  then have "length pad \<le> 16375" by (simp add: pad_def)
  then have lp: "\<not> maxPlaintextSize - v2FrameHeader < length pad"
    and li: "length (streamFrame 0 v2TypePing pad) \<le> maxPlaintextSize"
    by (simp_all add: frame_consts v2FrameHeader_def streamFrame_length)
  obtain rnd where rnd: "padding (orand X) = Some rnd" using assms(4) by blast
  obtain w ps where "writeFrame (crypt E) (orand X) (cout (ses S)) (keyS2C (ses S)) (seqWrite (ses S))
      (streamFrame 0 v2TypePing pad) (bpools S) = (None, w, ps)"
    using writeFrame_unbroken [OF assms(3) li rnd assms(5)] by blast
  then have "fst (writeSF E X 0 v2TypePing pad S)"
    using lp by (simp add: writeSF_def writeStreamFrame_def Let_def)
  then have "\<exists>S'. heartbeatLoop E X Heartbeat S = Some (Heartbeat, [], S')"
    using assms(2) by (auto simp: hp Let_def case_prod_beta pad_def)
  with b hp show ?thesis
    by (simp add: heartbeatInterval_def Let_def frame_consts v2FrameHeader_def)
qed

end
