(* ===== verification/Release.thy ===== *)
theory Release
  imports Lifecycle
begin

text \<open>
  What the teardown leaves behind for the goroutines of a stream. The map of a closed session holds only entries that
  \<open>closeAll\<close> has still to visit or whose opener has still to notice; and while no identifier is used twice, every goroutine
  that owns a stored stream finds it closed, or in the map where somebody will close it. So, once the openers are done, no
  pump waits on a stream nobody will close.
\<close>

section \<open>The map\<close>

definition mapKept :: "v2Session \<Rightarrow> bool" where
  "mapKept s \<longleftrightarrow>
     (\<forall>i r. map_of (streams s) i = Some r \<longrightarrow>
        \<not> sclosed s \<or> OpenerCheck i r \<in> set (threads s) \<or> covered (hd (threads s)) i)"

lemma map_closeStream:
  "map_of (streams (ses (closeStream i S))) k = (if k = i then None else map_of (streams (ses S)) k)"
  "map_of (streams (ses (closeAllEntry i S))) k = (if k = i then None else map_of (streams (ses S)) k)"
  by (auto simp: closeStream_def closeAllEntry_def Let_def map_of_delete split: option.splits)

lemma map_of_updated: "map_of (AList.update i r al) k = (if k = i then Some r else map_of al k)"
  by (simp add: AList.update_conv)

lemma dispatchFrame_entry:
  assumes "dispatchFrame E X j ft p S = Some (t', ts, S')"
  shows "map_of (streams (ses S')) i = Some r \<Longrightarrow> map_of (streams (ses S)) i = Some r" and "sclosed (ses S') = sclosed (ses S)"
  using assms by (auto simp: dispatchFrame_def map_closeStream split: if_splits option.splits)

lemma step_entry:
  assumes st: "threadStep E X u S = Some (t', ts, S')"
  shows "map_of (streams (ses S')) i = Some r \<Longrightarrow>
      map_of (streams (ses S)) i = Some r \<and> (\<forall>r0. u = OpenerCheck i r0 \<longrightarrow> \<not> sclosed (ses S)) \<and>
        (\<forall>ks. u = RlRange (i # ks) \<longrightarrow> False) \<or> t' = OpenerCheck i r"
    and "sclosed (ses S') \<Longrightarrow> sclosed (ses S) \<or> u = RlTeardown \<and> t' = RlSnapshot"
proof -
  have "(map_of (streams (ses S')) i = Some r \<longrightarrow>
      map_of (streams (ses S)) i = Some r \<and> (\<forall>r0. u = OpenerCheck i r0 \<longrightarrow> \<not> sclosed (ses S)) \<and>
        (\<forall>ks. u = RlRange (i # ks) \<longrightarrow> False) \<or> t' = OpenerCheck i r) \<and>
    (sclosed (ses S') \<longrightarrow> sclosed (ses S) \<or> u = RlTeardown \<and> t' = RlSnapshot)"
  proof (cases u)
    case RlRead
    with st have "threadStep E X RlRead S = Some (t', ts, S')" by simp
    then show ?thesis
      using RlRead by (cases rule: RlRead_cases) (auto dest: dispatchFrame_entry simp: received_def touch_def)
  qed (use st in \<open>auto simp: threadStep_def Let_def case_prod_beta map_closeStream map_of_delete map_of_updated closeAllStart_def
        split: if_splits list.splits sum.splits option.splits\<close>)
  then show "map_of (streams (ses S')) i = Some r \<Longrightarrow>
      map_of (streams (ses S)) i = Some r \<and> (\<forall>r0. u = OpenerCheck i r0 \<longrightarrow> \<not> sclosed (ses S)) \<and>
        (\<forall>ks. u = RlRange (i # ks) \<longrightarrow> False) \<or> t' = OpenerCheck i r"
    and "sclosed (ses S') \<Longrightarrow> sclosed (ses S) \<or> u = RlTeardown \<and> t' = RlSnapshot" by blast+
qed

lemma range_cover:
  assumes "threadStep E X u S = Some (t', ts, S')" and "covered u i" and "map_of (streams (ses S)) i = Some r"
    and "\<forall>ks. u \<noteq> RlRange (i # ks)"
  shows "covered t' i"
proof (cases u)
  case RlSnapshot
  have "i \<in> fst ` set (streams (ses S))" using map_of_SomeD [OF assms(3)] by force
  then have "covered (RlRange (map fst (streams (ses S)))) i" by simp
  with RlSnapshot show ?thesis using assms(1) by (auto simp: threadStep_def simp del: covered.simps)
next
  case (RlRange ks)
  then show ?thesis using assms by (cases ks) (auto simp: threadStep_def)
qed (use assms in simp_all)

lemma mapKept_step:
  assumes life: "lifeOK E (ses S)" and k: "mapKept (ses S)" and sch: "schedule E X n S = Some S'"
  shows "mapKept (ses S')"
  unfolding mapKept_def
proof (intro allI impI)
  fix i r assume e: "map_of (streams (ses S')) i = Some r"
  let ?ths = "threads (ses S)"
  from sch obtain t' ts S1 where n: "n < length ?ths" and st: "threadStep E X (?ths ! n) S = Some (t', ts, S1)"
    and S': "S' = S1\<lparr>ses := (ses S1)\<lparr>threads := ?ths[n := t'] @ ts\<rparr>\<rparr>"
    by (rule schedule_SomeE)
  from life obtain t0 us where th: "?ths = t0 # us" and us: "\<forall>u\<in>set us. \<not> readerThread u" by (auto simp: lifeOK_def)
  have new: "t' \<in> set (?ths[n := t'] @ ts)" using n by (simp add: set_update_memI)
  have n0: "n = 0" if "readerThread (?ths ! n)" using that us n th by (cases n) auto
  from e have e1: "map_of (streams (ses S1)) i = Some r" by (simp add: S')
  from step_entry(1) [OF st e1] consider (check) "t' = OpenerCheck i r"
    | (old) "map_of (streams (ses S)) i = Some r" "\<forall>r0. ?ths ! n = OpenerCheck i r0 \<longrightarrow> \<not> sclosed (ses S)"
        "\<forall>ks. ?ths ! n \<noteq> RlRange (i # ks)" by blast
  then show "\<not> sclosed (ses S') \<or> OpenerCheck i r \<in> set (threads (ses S')) \<or> covered (hd (threads (ses S'))) i"
  proof cases
    case check
    then show ?thesis using new by (simp add: S')
  next
    case old
    from k old(1) consider (live) "\<not> sclosed (ses S)" | (opener) "OpenerCheck i r \<in> set ?ths" "sclosed (ses S)"
      | (cover) "covered (hd ?ths) i" by (auto simp: mapKept_def)
    then show ?thesis
    proof cases
      case live
      show ?thesis
      proof (cases "sclosed (ses S1)")
        case True
        with live step_entry(2) [OF st] have "?ths ! n = RlTeardown" "t' = RlSnapshot" by blast+
        with n0 have "hd (?ths[n := t'] @ ts) = RlSnapshot" by (simp add: th)
        then show ?thesis by (simp add: S')
      qed (simp add: S')
    next
      case opener
      then have "OpenerCheck i r \<noteq> ?ths ! n" using old(2) by metis
      from in_update [OF opener(1) this] show ?thesis by (simp add: S')
    next
      case cover
      show ?thesis
      proof (cases "n = 0")
        case True
        then have "covered t' i" using range_cover [OF st _ old(1,3)] cover by (simp add: th)
        then show ?thesis using True by (simp add: S' th)
      next
        case False
        then show ?thesis using cover hd_update [OF n] by (simp add: S')
      qed
    qed
  qed
qed

section \<open>The goroutines of a stored stream\<close>

definition told :: "v2Session \<Rightarrow> sref \<Rightarrow> bool" where
  "told s r \<longleftrightarrow> st_closed (objs s ! r) \<or> mapped s r"

definition allTold :: "v2Session \<Rightarrow> bool" where
  "allTold s \<longleftrightarrow>
     (distinct (map st_id (objs s)) \<longrightarrow>
       (\<forall>t\<in>set (threads s). \<forall>r. owned t = Some r \<longrightarrow> (\<exists>i. t = OpenerStore i r) \<or> told s r))"

lemma told_update:
  assumes "told (ses S) r" and "r < length (objs (ses S))" and "objs (ses S') = (objs (ses S))[k := st]"
    and "streams (ses S') = streams (ses S)" and "st_id st = st_id (objs (ses S) ! k)"
    and "st_closed (objs (ses S) ! k) \<Longrightarrow> st_closed st"
  shows "told (ses S') r"
  using assms by (cases "k = r") (auto simp: told_def mapped_def)

lemma told_same: "told (ses S) r \<Longrightarrow> objs (ses S') = objs (ses S) \<Longrightarrow> streams (ses S') = streams (ses S) \<Longrightarrow> told (ses S') r"
  by (simp add: told_def mapped_def)

lemma told_close:
  assumes t: "told (ses S) r" and r: "r < length (objs (ses S))"
  shows "told (ses (closeStream i S)) r" "told (ses (closeAllEntry i S)) r"
proof -
  have "told (ses (closeStream i S)) r \<and> told (ses (closeAllEntry i S)) r"
  proof (cases "map_of (streams (ses S)) i")
    case None
    then show ?thesis using t by (simp add: closeStream_def closeAllEntry_def)
  next
    case (Some x)
    then show ?thesis
      using t r by (cases "x = r")
        (auto simp: closeStream_def closeAllEntry_def Let_def told_def mapped_def map_of_delete shutStream_def)
  qed
  then show "told (ses (closeStream i S)) r" "told (ses (closeAllEntry i S)) r" by blast+
qed

lemma told_ops:
  assumes "told (ses S) r" and "r < length (objs (ses S))"
  shows "told (ses (closeUpstream k S)) r" "told (ses (dequeue k S)) r" "told (ses (upstreamWrite k bs S)) r"
    "told (ses (noteCredit k n S)) r" "told (ses (enqueue k p S)) r"
proof -
  show "told (ses (closeUpstream k S)) r" by (rule told_update [OF assms objs_update(1)]) simp_all
  show "told (ses (dequeue k S)) r" by (rule told_update [OF assms objs_update(2)]) (simp_all add: popChunk_def dequeue_def Let_def)
  show "told (ses (upstreamWrite k bs S)) r" by (rule told_update [OF assms objs_update(3)]) (simp_all add: upstreamWrite_def Let_def)
  show "told (ses (noteCredit k n S)) r" by (rule told_update [OF assms objs_update(4)]) (simp_all add: noteCredit_def Let_def)
  show "told (ses (enqueue k p S)) r"
    using assms by (cases "k = r") (auto simp: enqueue_def Let_def told_def mapped_def pushChunk_def)
qed

text \<open>Both facts together, so that the operations of a step compose.\<close>

definition toldIn :: "sref \<Rightarrow> sstate \<Rightarrow> bool" where
  "toldIn r S \<longleftrightarrow> told (ses S) r \<and> r < length (objs (ses S))"

lemma toldIn_rules:
  "toldIn r S \<Longrightarrow> toldIn r (closeStream i S)" "toldIn r S \<Longrightarrow> toldIn r (closeAllEntry i S)"
  "toldIn r S \<Longrightarrow> toldIn r (closeUpstream k S)" "toldIn r S \<Longrightarrow> toldIn r (dequeue k S)"
  "toldIn r S \<Longrightarrow> toldIn r (upstreamWrite k bs S)" "toldIn r S \<Longrightarrow> toldIn r (noteCredit k m S)"
  "toldIn r S \<Longrightarrow> toldIn r (enqueue k p S)" "toldIn r S \<Longrightarrow> toldIn r (releaseOpen S)"
  "toldIn r S \<Longrightarrow> toldIn r (snd (writeSF E X i t q S))" "toldIn r S \<Longrightarrow> toldIn r (received rd now S)"
  "toldIn r S \<Longrightarrow> toldIn r (S\<lparr>ses := (ses S)\<lparr>openSem := j\<rparr>\<rparr>)" "toldIn r S \<Longrightarrow> toldIn r (closeAllStart S)"
  "toldIn r S \<Longrightarrow> toldIn r (S\<lparr>ses := (ses S)\<lparr>cin := rd\<rparr>\<rparr>)"
  "toldIn r S \<Longrightarrow> toldIn r (S\<lparr>ses := closeConn ((ses S)\<lparr>registered := b\<rparr>)\<rparr>)"
  "toldIn r S \<Longrightarrow> toldIn r (S\<lparr>ses := (ses S)\<lparr>objs := objs (ses S) @ [st]\<rparr>\<rparr>)"
proof -
  have len: "length (objs (ses (closeStream i S))) = length (objs (ses S))"
    "length (objs (ses (closeAllEntry i S))) = length (objs (ses S))" "length (objs (ses (enqueue k p S))) = length (objs (ses S))"
    by (simp_all add: closeStream_def closeAllEntry_def enqueue_def Let_def split: option.splits)
  show "toldIn r S \<Longrightarrow> toldIn r (closeStream i S)" "toldIn r S \<Longrightarrow> toldIn r (closeAllEntry i S)"
    "toldIn r S \<Longrightarrow> toldIn r (closeUpstream k S)" "toldIn r S \<Longrightarrow> toldIn r (dequeue k S)"
    "toldIn r S \<Longrightarrow> toldIn r (upstreamWrite k bs S)" "toldIn r S \<Longrightarrow> toldIn r (noteCredit k m S)"
    "toldIn r S \<Longrightarrow> toldIn r (enqueue k p S)"
    by (simp_all add: toldIn_def told_close told_ops len) (simp_all add: objs_update)
qed (auto simp: toldIn_def closeAllStart_def nth_append received_def touch_def told_def mapped_def)

lemma dispatchFrame_told: "dispatchFrame E X j ft p S = Some (t', ts, S') \<Longrightarrow> toldIn r S \<Longrightarrow> toldIn r S'"
  by (auto simp: dispatchFrame_def intro!: toldIn_rules split: if_splits option.splits)

lemma step_told:
  assumes st: "threadStep E X u S = Some (t', ts, S')" and t: "toldIn r S"
    and ck: "\<And>i x. u = OpenerCheck i x \<Longrightarrow> sclosed (ses S) \<Longrightarrow> st_id (objs (ses S) ! r) \<noteq> i"
  shows "toldIn r S'"
proof (cases u)
  case RlRead
  with st have "threadStep E X RlRead S = Some (t', ts, S')" by simp
  then show ?thesis
    using t by (cases rule: RlRead_cases) (auto intro: toldIn_rules dispatchFrame_told)
next
  case (OpenerStore i x)
  have "toldIn r (S\<lparr>ses := (ses S)\<lparr>streams := AList.update i x (streams (ses S))\<rparr>\<rparr>)" if "map_of (streams (ses S)) i = None"
    using t that by (auto simp: toldIn_def told_def mapped_def map_of_updated)
  then show ?thesis using st t OpenerStore by (auto simp: threadStep_def intro!: toldIn_rules split: if_splits)
next
  case (OpenerCheck i x)
  have "toldIn r (S\<lparr>ses := (ses S)\<lparr>streams := AList.delete i (streams (ses S))\<rparr>\<rparr>)" if "sclosed (ses S)"
    using t ck [OF OpenerCheck that] by (auto simp: toldIn_def told_def mapped_def map_of_delete)
  then show ?thesis using st t OpenerCheck by (auto simp: threadStep_def intro!: toldIn_rules split: if_splits)
qed (use st t in \<open>auto simp: threadStep_def Let_def case_prod_beta intro!: toldIn_rules split: if_splits list.splits sum.splits\<close>)

lemma step_told_own:
  assumes st: "threadStep E X u S = Some (t', ts, S')" and f: "threadFlow (objs (ses S)) u"
    and u: "\<And>r. owned u = Some r \<Longrightarrow> r < length (objs (ses S)) \<and> ((\<exists>i. u = OpenerStore i r) \<or> told (ses S) r)"
    and v: "v \<in> set (t' # ts)" "owned v = Some r"
  shows "(\<exists>i. v = OpenerStore i r) \<or> told (ses S') r"
proof -
  have r: "r \<in> set (owners (t' # ts))" by (rule owners_set [OF v])
  show ?thesis
  proof (cases "\<exists>i x. u = OpenerStore i x")
    case True
    then obtain i x where x: "u = OpenerStore i x" by blast
    then show ?thesis
      using st v f by (auto simp: threadStep_def told_def mapped_def map_of_updated split: if_splits)
  next
    case False
    from step_owned [OF st] r consider (own) "owned u = Some r" | (dial) "r = length (objs (ses S))" "owned u = None"
      by (auto split: option.splits)
    then show ?thesis
    proof cases
      case own
      then have t: "toldIn r S" using u False by (auto simp: toldIn_def)
      have "toldIn r S'" by (rule step_told [OF st t]) (use st v in \<open>auto simp: threadStep_def\<close>)
      then show ?thesis by (simp add: toldIn_def)
    next
      case dial
      have "\<exists>i. v = OpenerStore i r"
      proof (cases u)
        case RlRead
        with st have "threadStep E X RlRead S = Some (t', ts, S')" by simp
        then show ?thesis using v by (cases rule: RlRead_cases) (auto simp: dispatchFrame_def split: if_splits option.splits)
      qed (use st v dial in \<open>auto simp: threadStep_def Let_def case_prod_beta split: if_splits list.splits sum.splits\<close>)
      then show ?thesis by blast
    qed
  qed
qed

lemma updated_cases:
  assumes "v \<in> set (ths[n := t'] @ ts)"
  shows "v \<in> set (t' # ts) \<or> (\<exists>k < length ths. k \<noteq> n \<and> v = ths ! k)"
proof (cases "v \<in> set ts")
  case False
  then obtain k where "k < length ths" "v = ths[n := t'] ! k" using assms by (auto simp: in_set_conv_nth)
  then show ?thesis by (cases "k = n") auto
qed simp

lemma allTold_step:
  assumes ok: "sessOK (ses S)" and fl: "flowOK (ses S)" and al: "allTold (ses S)" and sch: "schedule E X n S = Some S'"
  shows "allTold (ses S')"
  unfolding allTold_def
proof (intro impI ballI allI)
  fix v r assume d': "distinct (map st_id (objs (ses S')))" and v: "v \<in> set (threads (ses S'))" "owned v = Some r"
  let ?ths = "threads (ses S)"
  from sch obtain t' ts S1 where n: "n < length ?ths" and st: "threadStep E X (?ths ! n) S = Some (t', ts, S1)"
    and S': "S' = S1\<lparr>ses := (ses S1)\<lparr>threads := ?ths[n := t'] @ ts\<rparr>\<rparr>"
    by (rule schedule_SomeE)
  have okS: "okS S" and hf: "heapFlow (ses S)" using ok fl by (simp_all add: sessOK_def flowOK_def)
  have tf: "threadFlow (objs (ses S)) u" and tok: "threadOK (ses S) u" if "u \<in> set ?ths" for u
    using ok fl that by (simp_all add: sessOK_def flowOK_def)
  have u: "?ths ! n \<in> set ?ths" using n by simp
  have g: "heapGrows (owned (?ths ! n)) S S1"
    using threadStep_flow [OF okS hf tf [OF u] tok [OF u], of E X] unfolding st by (simp add: flowStep_def)
  have "map st_id (objs (ses S)) = take (length (objs (ses S))) (map st_id (objs (ses S1)))"
    using g by (intro nth_equalityI) (auto simp: heapGrows_def)
  then have d: "distinct (map st_id (objs (ses S)))" using d' by (simp add: S' distinct_take)
  have IH: "r < length (objs (ses S)) \<and> ((\<exists>i. w = OpenerStore i r) \<or> told (ses S) r)" if "w \<in> set ?ths" "owned w = Some r" for w r
    using al d that tok [OF that(1)] owned_trefs [OF that(2)] by (auto simp: allTold_def threadOK_def)
  have "told (ses S') r = told (ses S1) r" by (simp add: S' told_def mapped_def)
  moreover from v(1) consider (new) "v \<in> set (t' # ts)" | (old) k where "k < length ?ths" "k \<noteq> n" "v = ?ths ! k"
    using updated_cases [of v ?ths n t' ts] by (auto simp: S')
  then have "(\<exists>i. v = OpenerStore i r) \<or> told (ses S1) r"
  proof cases
    case new
    show ?thesis by (rule step_told_own [OF st tf [OF u] IH [OF u] new v(2)])
  next
    case old
    have vs: "v \<in> set ?ths" using old by simp
    have ap: "owned (?ths ! n) \<noteq> Some r" using owners_apart [of ?ths n k] fl old v(2) n by (auto simp: flowOK_def)
    show ?thesis
    proof (cases "\<exists>i. v = OpenerStore i r")
      case False
      then have t: "toldIn r S" using IH [OF vs v(2)] by (auto simp: toldIn_def)
      have "toldIn r S1"
      proof (rule step_told [OF st t])
        fix i x assume x: "?ths ! n = OpenerCheck i x"
        then have "x \<noteq> r" "x < length (objs (ses S))" "st_id (objs (ses S) ! x) = i"
          using ap tok [OF u] tf [OF u] by (auto simp: threadOK_def)
        moreover have "r < length (objs (ses S))" using t by (simp add: toldIn_def)
        ultimately show "st_id (objs (ses S) ! r) \<noteq> i" using d by (metis length_map nth_eq_iff_index_eq nth_map)
      qed
      then show ?thesis by (simp add: toldIn_def)
    qed blast
  qed
  ultimately show "(\<exists>i. v = OpenerStore i r) \<or> told (ses S') r" by simp
qed

text \<open>The invariant of the teardown with both facts.\<close>

definition releaseOK :: "senv \<Rightarrow> v2Session \<Rightarrow> bool" where
  "releaseOK E s \<longleftrightarrow>
     (sessOK s \<and> flowOK s \<and> limitsOK s \<and> tidy s) \<and> (sessOK s \<and> lifeOK E s) \<and> mapKept s \<and> allTold s"

interpretation rel: session_inv E "releaseOK E" for E
proof unfold_locales
  fix i rd wr kc ks now
  show "releaseOK E (newSession i rd wr kc ks now)"
    using tear.inv_new [of i rd wr kc ks now] life.inv_new [of E i rd wr kc ks now]
    by (simp add: releaseOK_def mapKept_def allTold_def) (simp add: newSession_def)
next
  fix S X n S'
  assume ok: "releaseOK E (ses S)" "pools_ok (bpools S)" and sch: "schedule E X n S = Some S'"
  have "sessOK (ses S') \<and> flowOK (ses S') \<and> limitsOK (ses S') \<and> tidy (ses S')"
    using tear.inv_step [OF _ ok(2) sch] ok(1) by (simp add: releaseOK_def)
  moreover have "lifeOK E (ses S')" using life.inv_step [OF _ ok(2) sch] ok(1) by (simp add: releaseOK_def)
  moreover have "mapKept (ses S')" using mapKept_step [OF _ _ sch] ok(1) unfolding releaseOK_def by blast
  moreover have "allTold (ses S')" using allTold_step [OF _ _ _ sch] ok(1) unfolding releaseOK_def by blast
  ultimately show "releaseOK E (ses S')" by (simp add: releaseOK_def)
next
  fix s assume ok: "releaseOK E s"
  have "sessOK (closeConn s) \<and> flowOK (closeConn s) \<and> limitsOK (closeConn s) \<and> tidy (closeConn s)"
    using tear.inv_reap ok by (simp add: releaseOK_def)
  moreover have "lifeOK E (closeConn s)" using life.inv_reap ok by (simp add: releaseOK_def)
  ultimately show "releaseOK E (closeConn s)"
    using ok by (simp add: releaseOK_def mapKept_def allTold_def told_def mapped_def)
qed

text \<open>Once the openers are done and the read loop has ended, the map is empty and every stream with a pump is closed.\<close>

lemma released:
  assumes ok: "releaseOK E s" and d: "distinct (map st_id (objs s))" and fin: "hd (threads s) = Finished" and c: "sclosed s"
    and no: "\<not> list_ex openerThread (threads s)"
  shows "streams s = []" and "t \<in> set (threads s) \<Longrightarrow> owned t = Some r \<Longrightarrow> st_closed (objs s ! r)"
    and "r < length (objs s) \<Longrightarrow> \<not> uopen (objs s ! r)"
proof -
  have "map_of (streams s) i = None" for i
  proof (rule ccontr)
    assume "map_of (streams s) i \<noteq> None"
    then obtain r where "map_of (streams s) i = Some r" by blast
    then have "OpenerCheck i r \<in> set (threads s)" using ok c fin by (auto simp: releaseOK_def mapKept_def)
    then show False using no by (auto simp: list_ex_iff)
  qed
  then show m: "streams s = []" by (metis list.exhaust map_of_eq_None_iff map_of_eq_empty_iff)
  have op: "\<not> openerThread v" if "v \<in> set (threads s)" for v using no that by (auto simp: list_ex_iff)
  show "st_closed (objs s ! r)" if t: "t \<in> set (threads s)" "owned t = Some r"
  proof -
    from ok d t have "(\<exists>i. t = OpenerStore i r) \<or> told s r" unfolding releaseOK_def allTold_def by blast
    then show ?thesis using op [OF t(1)] m by (auto simp: told_def mapped_def)
  qed
  show "\<not> uopen (objs s ! r)" if r: "r < length (objs s)"
  proof -
    have "kept s r" using ok d r unfolding releaseOK_def tidy_def by blast
    moreover have "OpenerStore i r \<notin> set (threads s)" "OpenerCheck i r \<notin> set (threads s)" for i
      using op [of "OpenerStore i r"] op [of "OpenerCheck i r"] by auto
    ultimately show ?thesis using fin c by (auto simp: kept_def)
  qed
qed

end
