(* ===== verification/Winddown.thy ===== *)
theory Winddown
  imports Release
begin

text \<open>
  What is left of a session after its read loop has ended: the goroutines still in the table have a
  bounded number of steps to go, whatever the scheduler, the upstream connections and the other
  sessions do; a goroutine can block only in a dial, on an upstream connection still open, or on the empty queue of a
  stream nobody has closed; and while no identifier is used twice, the last two do not happen once the openers are done.
\<close>

section \<open>A closed connection\<close>

lemma writeTwo_closed: "wbreak w = Some 0 \<Longrightarrow> a \<noteq> [] \<Longrightarrow> fst (writeTwo w a b) = False"
  by (simp add: writeTwo_def writeConn_def Let_def)

lemma writeSF_closed:
  assumes d: "wbreak (cout (ses S)) = Some 0" and p: "pools_ok (bpools S)"
  shows "fst (writeSF E X i t p' S) = False" "wbreak (cout (ses (snd (writeSF E X i t p' S)))) = Some 0"
proof -
  let ?pt = "streamFrame i t p'"
  have "fst (writeSF E X i t p' S) = False \<and> wbreak (cout (ses (snd (writeSF E X i t p' S)))) = Some 0"
  proof (cases "maxPlaintextSize - v2FrameHeader < length p'")
    case True
    then show ?thesis using d by (simp add: writeSF_def writeStreamFrame_def)
  next
    case False
    then have len: "length ?pt \<le> maxPlaintextSize" by (simp add: streamFrame_length v2FrameHeader_def frame_consts)
    obtain e w' ps' where wf: "writeFrame (crypt E) (orand X) (cout (ses S)) (keyS2C (ses S)) (seqWrite (ses S)) ?pt (bpools S) = (e, w', ps')"
      by (metis prod_cases3)
    have "e \<noteq> None"
    proof (cases "padding (orand X)")
      case None
      then show ?thesis using wf len by (auto simp: writeFrame_def Let_def split: prod.splits)
    next
      case (Some rnd)
      have ne: "putBE 2 n \<noteq> []" for n by (metis length_putBE list.size(3) zero_neq_numeral)
      show ?thesis
        using writeFrame_eq [OF p len Some, of "crypt E" "cout (ses S)" "keyS2C (ses S)" "seqWrite (ses S)"] wf
          writeTwo_closed [OF d ne] by (auto simp: case_prod_beta)
    qed
    moreover have "wbreak w' = Some 0" using writeFrame_wire [OF p len wf] d by simp
    ultimately show ?thesis using False wf by (simp add: writeSF_def writeStreamFrame_def Let_def)
  qed
  then show "fst (writeSF E X i t p' S) = False" "wbreak (cout (ses (snd (writeSF E X i t p' S)))) = Some 0" by blast+
qed

text \<open>After its exit the session is done and its connection closed.\<close>

definition goneOK :: "senv \<Rightarrow> v2Session \<Rightarrow> bool" where
  "goneOK E s \<longleftrightarrow>
     sessOK s \<and> lifeOK E s \<and> (sclosed s \<longrightarrow> sdone s) \<and> (\<not> registered s \<longrightarrow> wbreak (cout s) = Some 0)"

lemma step_gone:
  assumes "threadStep E X u S = Some (t, ts, S')" and "pools_ok (bpools S)"
  shows "(sclosed (ses S) \<longrightarrow> sdone (ses S)) \<longrightarrow> sclosed (ses S') \<longrightarrow> sdone (ses S')"
    and "wbreak (cout (ses S)) = Some 0 \<Longrightarrow> wbreak (cout (ses S')) = Some 0"
    and "registered (ses S) \<Longrightarrow> \<not> registered (ses S') \<Longrightarrow> wbreak (cout (ses S')) = Some 0"
proof -
  have "((sclosed (ses S) \<longrightarrow> sdone (ses S)) \<longrightarrow> sclosed (ses S') \<longrightarrow> sdone (ses S')) \<and>
      (wbreak (cout (ses S)) = Some 0 \<longrightarrow> wbreak (cout (ses S')) = Some 0) \<and>
      (registered (ses S) \<and> \<not> registered (ses S') \<longrightarrow> wbreak (cout (ses S')) = Some 0)"
  proof (cases u)
    case RlRead
    with assms have "threadStep E X RlRead S = Some (t, ts, S')" by simp
    then show ?thesis
      by (cases rule: RlRead_cases)
        (use assms(2) writeSF_closed in \<open>auto simp: dispatchFrame_def received_def touch_def split: if_splits option.splits\<close>)
  qed (use assms writeSF_closed in \<open>auto simp: threadStep_def Let_def case_prod_beta closeAllStart_def closeConn_def
        split: if_splits list.splits sum.splits\<close>)
  then show "(sclosed (ses S) \<longrightarrow> sdone (ses S)) \<longrightarrow> sclosed (ses S') \<longrightarrow> sdone (ses S')"
    and "wbreak (cout (ses S)) = Some 0 \<Longrightarrow> wbreak (cout (ses S')) = Some 0"
    and "registered (ses S) \<Longrightarrow> \<not> registered (ses S') \<Longrightarrow> wbreak (cout (ses S')) = Some 0"
    by blast+
qed

interpretation gone: session_inv E "goneOK E" for E
proof unfold_locales
  show "goneOK E (newSession i rd wr kc ks now)" for i rd wr kc ks now
    using life.inv_new [of E i rd wr kc ks now] by (simp add: goneOK_def sessOK_new) (simp add: newSession_def)
  show "goneOK E (closeConn s)" if "goneOK E s" for s
    using that life.inv_reap by (auto simp: goneOK_def sessOK_closeConn) (simp_all add: closeConn_def)
  show "goneOK E (ses S')" if ok: "goneOK E (ses S)" "pools_ok (bpools S)" and sch: "schedule E X n S = Some S'" for S X n S'
  proof -
    from sch obtain t ts S1 where st: "threadStep E X (threads (ses S) ! n) S = Some (t, ts, S1)"
      and S': "S' = S1\<lparr>ses := (ses S1)\<lparr>threads := (threads (ses S))[n := t] @ ts\<rparr>\<rparr>"
      by (rule schedule_SomeE)
    have "(sclosed (ses S') \<longrightarrow> sdone (ses S')) \<and> (\<not> registered (ses S') \<longrightarrow> wbreak (cout (ses S')) = Some 0)"
      using step_gone [OF st ok(2)] ok(1) by (auto simp: goneOK_def S')
    then show ?thesis using ok sch schedule_keeps(1) lifeOK_step by (auto simp: goneOK_def)
  qed
qed

section \<open>The work left\<close>

text \<open>An upper bound on the steps of a goroutine once the session is gone.\<close>

fun work :: "v2Stream list \<Rightarrow> thread \<Rightarrow> nat" where
  "work h (Opener i spec) = 5"
| "work h (OpenerDial i a) = 4"
| "work h (OpenerStore i r) = 3"
| "work h (OpenerCheck i r) = 2"
| "work h (OpenerAck i r) = 1"
| "work h (UpCheck i r) = 3"
| "work h (UpRead i r) = 2"
| "work h (UpFail i r) = 1"
| "work h (PumpWait i r c) = 1 + 2 * length (queue (h ! r))"
| "work h (PumpWrite i r ch e c) = 2 + 2 * length (queue (h ! r))"
| "work h (PumpCredit i r c) = 1"
| "work h (Pong p) = 1"
| "work h Heartbeat = 1"
| "work h _ = 0"

definition workLeft :: "v2Session \<Rightarrow> nat" where
  "workLeft s = sum_list (map (work (objs s)) (threads s))"

text \<open>Queues only shrink when the read loop does not run.\<close>

definition shrinks :: "sstate \<Rightarrow> sstate \<Rightarrow> bool" where
  "shrinks S S' \<longleftrightarrow>
     length (objs (ses S)) \<le> length (objs (ses S')) \<and>
     (\<forall>r < length (objs (ses S)). length (queue (objs (ses S') ! r)) \<le> length (queue (objs (ses S) ! r)))"

lemma shrinks_update:
  assumes "objs (ses S') = (objs (ses S))[r := st]" and "length (queue st) \<le> length (queue (objs (ses S) ! r))"
  shows "shrinks S S'"
  unfolding shrinks_def
proof (intro conjI allI impI)
  show "length (objs (ses S)) \<le> length (objs (ses S'))" using assms(1) by simp
  fix k assume "k < length (objs (ses S))"
  then show "length (queue (objs (ses S') ! k)) \<le> length (queue (objs (ses S) ! k))"
    using assms by (cases "k = r") simp_all
qed

lemma shrinks_ops:
  "shrinks S (closeUpstream r S)" "shrinks S (dequeue r S)" "shrinks S (upstreamWrite r bs S)" "shrinks S (noteCredit r n S)"
  "shrinks S (closeStream i S)" "objs (ses S') = objs (ses S) \<Longrightarrow> shrinks S S'"
proof -
  show "shrinks S (closeUpstream r S)" by (rule shrinks_update [OF objs_update(1)]) simp
  show "shrinks S (dequeue r S)" by (rule shrinks_update [OF objs_update(2)]) (simp add: popChunk_def)
  show "shrinks S (upstreamWrite r bs S)" by (rule shrinks_update [OF objs_update(3)]) simp
  show "shrinks S (noteCredit r n S)" by (rule shrinks_update [OF objs_update(4)]) simp
  show "objs (ses S') = objs (ses S) \<Longrightarrow> shrinks S S'" by (simp add: shrinks_def)
  show "shrinks S (closeStream i S)"
  proof (cases "map_of (streams (ses S)) i")
    case None
    then show ?thesis by (simp add: closeStream_def shrinks_def Let_def)
  next
    case (Some r)
    show ?thesis
      by (rule shrinks_update [of _ _ r "if st_closed (objs (ses S) ! r) then objs (ses S) ! r else shutStream (objs (ses S) ! r)"])
        (use Some in \<open>simp_all add: closeStream_def shutStream_def Let_def\<close>)
  qed
qed

lemma shrinks_trans: "shrinks S0 S \<Longrightarrow> shrinks S S' \<Longrightarrow> shrinks S0 S'"
  unfolding shrinks_def by (meson order_trans less_le_trans)

lemma shrinks_write: "shrinks S (snd (writeSF E X i t p S))" "shrinks S (releaseOpen S)" "shrinks S S"
  by (simp_all add: shrinks_ops(6))

lemmas shrinks_rules = shrinks_write shrinks_ops(1-5) shrinks_trans [OF _ shrinks_ops(1)] shrinks_trans [OF _ shrinks_ops(4)]
  shrinks_trans [OF _ shrinks_ops(5)] shrinks_trans [OF _ shrinks_write(1)] shrinks_trans [OF _ shrinks_write(2)]

lemma step_shrinks:
  assumes "threadStep E X u S = Some (t, ts, S')" and "\<not> readerThread u"
  shows "shrinks S S'"
proof (cases u)
  case (OpenerDial i a)
  have "shrinks S (S\<lparr>ses := (ses S)\<lparr>objs := objs (ses S) @ [st]\<rparr>\<rparr>)" for st by (simp add: shrinks_def nth_append)
  then show ?thesis using assms OpenerDial by (auto simp: threadStep_def intro!: shrinks_rules split: if_splits)
next
  case (OpenerCheck i r)
  have "shrinks S (S\<lparr>ses := (ses S)\<lparr>streams := m\<rparr>\<rparr>)" for m by (simp add: shrinks_def)
  then show ?thesis using assms OpenerCheck by (auto simp: threadStep_def intro!: shrinks_rules split: if_splits)
next
  case (OpenerStore i r)
  have "shrinks S (S\<lparr>ses := (ses S)\<lparr>streams := m\<rparr>\<rparr>)" for m by (simp add: shrinks_def)
  then show ?thesis using assms OpenerStore by (auto simp: threadStep_def intro!: shrinks_rules split: if_splits)
qed (use assms in \<open>auto simp: threadStep_def Let_def case_prod_beta intro!: shrinks_rules split: if_splits sum.splits\<close>)

lemma work_other:
  assumes "shrinks S S'" and "threadOK (ses S) v"
  shows "work (objs (ses S')) v \<le> work (objs (ses S)) v"
  using assms by (cases v) (auto simp: shrinks_def threadOK_def)

text \<open>The environment of an ended session: its \<open>done\<close> channel is ready before any timer, and a read from an upstream
  connection returns data or an error.\<close>

definition quietIn :: "stepin \<Rightarrow> bool" where
  "quietIn X \<longleftrightarrow> \<not> fire X \<and> (rdata X \<noteq> [] \<or> rfail X)"

lemma work_own:
  assumes st: "threadStep E X u S = Some (t, ts, S')" and nr: "\<not> readerThread u" and d: "wbreak (cout (ses S)) = Some 0"
    and p: "pools_ok (bpools S)" and c: "sclosed (ses S)" and q: "quietIn X" and ok: "threadOK (ses S) u"
  shows "ts = [] \<and> work (objs (ses S')) t < work (objs (ses S)) u"
proof -
  note w = writeSF_closed [OF d p]
  show ?thesis
  proof (cases u)
    case (PumpWait i r cr)
    then show ?thesis
      using st ok by (cases "queue (objs (ses S) ! r)")
        (auto simp: threadStep_def threadOK_def Let_def objs_update popChunk_def split: if_splits)
  next
    case (PumpWrite i r ch e cr)
    then show ?thesis
      using st ok by (auto simp: threadStep_def threadOK_def Let_def case_prod_beta objs_update split: if_splits)
  next
    case (UpRead i r)
    then show ?thesis
      using st w q by (auto simp: threadStep_def Let_def case_prod_beta quietIn_def frame_consts v2FrameHeader_def split: if_splits)
  qed (use st nr w c q in \<open>auto simp: threadStep_def Let_def case_prod_beta quietIn_def split: if_splits sum.splits\<close>)
qed

lemma work_step:
  assumes gone: "goneOK E (ses S)" and fin: "hd (threads (ses S)) = Finished" and p: "pools_ok (bpools S)" and q: "quietIn X"
    and sch: "schedule E X n S = Some S'"
  shows "workLeft (ses S') < workLeft (ses S) \<and> hd (threads (ses S')) = Finished"
proof -
  let ?u = "threads (ses S) ! n" and ?ths = "threads (ses S)"
  from sch obtain t ts S1 where n: "n < length ?ths" and st: "threadStep E X ?u S = Some (t, ts, S1)"
    and S': "S' = S1\<lparr>ses := (ses S1)\<lparr>threads := ?ths[n := t] @ ts\<rparr>\<rparr>"
    by (rule schedule_SomeE)
  from gone fin obtain us where th: "?ths = Finished # us" and us: "\<forall>u\<in>set us. \<not> readerThread u"
    and fl: "sclosed (ses S)" "\<not> registered (ses S)" by (auto simp: goneOK_def lifeOK_def)
  have d: "wbreak (cout (ses S)) = Some 0" using gone fl by (simp add: goneOK_def)
  have ok: "threadOK (ses S) v" if "v \<in> set ?ths" for v using gone that by (simp add: goneOK_def sessOK_def)
  have u: "?u \<in> set ?ths" using n by simp
  have n0: "n \<noteq> 0" using st by (cases n) (auto simp: th threadStep_def)
  then have nr: "\<not> readerThread ?u" using us n th by (cases n) auto
  note own = work_own [OF st nr d p fl(1) q ok [OF u]] and sh = step_shrinks [OF st nr]
  have split: "?ths = take n ?ths @ ?u # drop (Suc n) ?ths" "?ths[n := t] @ ts = take n ?ths @ t # drop (Suc n) ?ths"
    using n own by (simp_all add: id_take_nth_drop upd_conv_take_nth_drop)
  have "sum_list (map (work (objs (ses S1))) vs) \<le> sum_list (map (work (objs (ses S))) vs)" if "set vs \<subseteq> set ?ths" for vs
    using that work_other [OF sh ok] by (intro sum_list_mono) blast
  from this [of "take n ?ths"] this [of "drop (Suc n) ?ths"]
  have "sum_list (map (work (objs (ses S1))) (take n ?ths @ t # drop (Suc n) ?ths)) <
      sum_list (map (work (objs (ses S))) (take n ?ths @ ?u # drop (Suc n) ?ths))"
    using own set_take_subset [of n ?ths] set_drop_subset [of "Suc n" ?ths] by simp
  moreover have "workLeft (ses S') = sum_list (map (work (objs (ses S1))) (take n ?ths @ t # drop (Suc n) ?ths))"
    unfolding workLeft_def S' split(2) by simp
  moreover have "workLeft (ses S) = sum_list (map (work (objs (ses S))) (take n ?ths @ ?u # drop (Suc n) ?ths))"
    unfolding workLeft_def using split(1) by (rule arg_cong)
  ultimately have "workLeft (ses S') < workLeft (ses S)" by linarith
  moreover have "hd (threads (ses S')) = Finished" using n0 by (cases n) (simp_all add: S' th)
  ultimately show ?thesis by blast
qed

section \<open>Properties\<close>

text \<open>Steps of the goroutines of one session, between which the other sessions use the global counter and the pools.\<close>

fun runOthers :: "senv \<Rightarrow> (nat \<times> stepin \<times> int \<times> bufpools) list \<Rightarrow> sstate \<Rightarrow> sstate option" where
  "runOthers E [] S = Some S"
| "runOthers E ((n, X, g, ps) # xs) S =
     (case schedule E X n (S\<lparr>gbuf := g, bpools := ps\<rparr>) of None \<Rightarrow> None | Some S1 \<Rightarrow> runOthers E xs S1)"

context session_inv
begin

lemma others:
  "I (ses S) \<Longrightarrow> \<forall>(n, X, g, ps)\<in>set xs. quietIn X \<and> pools_ok ps \<Longrightarrow> runOthers E xs S = Some S' \<Longrightarrow> I (ses S')"
proof (induction xs arbitrary: S)
  case (Cons x xs)
  obtain n X g ps where x: "x = (n, X, g, ps)" by (cases x)
  let ?S = "S\<lparr>gbuf := g, bpools := ps\<rparr>"
  from Cons(4) obtain S1 where sch: "schedule E X n ?S = Some S1" and r: "runOthers E xs S1 = Some S'"
    by (auto simp: x split: option.splits)
  have "I (ses ?S)" "pools_ok (bpools ?S)" using Cons(2,3) by (simp_all add: x)
  then have "I (ses S1)" using inv_step sch by blast
  then show ?case using Cons(1) [OF _ _ r] Cons(3) by simp
qed simp

end

lemma runOthers_work:
  assumes "goneOK E (ses S)" and "hd (threads (ses S)) = Finished" and "\<forall>(n, X, g, ps)\<in>set xs. quietIn X \<and> pools_ok ps"
    and "runOthers E xs S = Some S'"
  shows "length xs + workLeft (ses S') \<le> workLeft (ses S) \<and> hd (threads (ses S')) = Finished"
  using assms
proof (induction E xs S rule: runOthers.induct)
  case (2 E n X g ps xs S)
  let ?S = "S\<lparr>gbuf := g, bpools := ps\<rparr>"
  from 2(5) obtain S1 where sch: "schedule E X n ?S = Some S1" and r: "runOthers E xs S1 = Some S'" by (auto split: option.splits)
  have h: "goneOK E (ses ?S)" "hd (threads (ses ?S)) = Finished" "pools_ok (bpools ?S)" "quietIn X" using 2 by simp_all
  have "goneOK E (ses S1)" by (rule gone.inv_step [OF h(1,3) sch])
  with work_step [OF h sch] 2(1) [OF sch _ _ _ r] 2(4) show ?case by auto
qed simp

text \<open>Where a goroutine of an ended session can block: in a dial, which \<open>dialTimeout\<close> bounds, in a read from or a write to an
  upstream connection that is open, or waiting for a chunk.\<close>

fun awaits :: "stepin \<Rightarrow> v2Session \<Rightarrow> thread \<Rightarrow> bool" where
  "awaits X s (OpenerDial i a) = (\<not> ready X)"
| "awaits X s (UpRead i r) = (uopen (objs s ! r) \<and> \<not> ready X)"
| "awaits X s (PumpWrite i r ch e c) = (uopen (objs s ! r) \<and> \<not> ready X)"
| "awaits X s (PumpWait i r c) = (queue (objs s ! r) = [] \<and> \<not> st_closed (objs s ! r))"
| "awaits X s _ = False"

lemma work_progress:
  assumes gone: "goneOK E (ses S)" and fin: "hd (threads (ses S)) = Finished" and n: "n < length (threads (ses S))" and q: "quietIn X"
  shows "schedule E X n S = None \<longleftrightarrow> threads (ses S) ! n = Finished \<or> awaits X (ses S) (threads (ses S) ! n)"
proof -
  from gone fin obtain us where th: "threads (ses S) = Finished # us" "\<forall>u\<in>set us. \<not> readerThread u" and "sclosed (ses S)"
    by (auto simp: goneOK_def lifeOK_def)
  then have "sdone (ses S)" using gone by (simp add: goneOK_def)
  moreover have "\<not> readerThread (threads (ses S) ! n)" using th n by (cases n) auto
  ultimately have "threadStep E X (threads (ses S) ! n) S = None \<longleftrightarrow>
      threads (ses S) ! n = Finished \<or> awaits X (ses S) (threads (ses S) ! n)"
    using q by (cases "threads (ses S) ! n") (auto simp: threadStep_def Let_def quietIn_def case_prod_beta split: sum.split)
  then show ?thesis using n by (auto simp: schedule_def split: option.split)
qed

text \<open>Nobody waits for ever when every identifier was used once.\<close>

lemma nobody_waits:
  assumes rel: "releaseOK E s" and d: "distinct (map st_id (objs s))" and fin: "hd (threads s) = Finished" and c: "sclosed s"
    and no: "\<not> list_ex openerThread (threads s)" and t: "t \<in> set (threads s)"
  shows "\<not> awaits X s t"
proof -
  note r = released [OF rel d fin c no]
  have len: "k < length (objs s)" if "k \<in> set (trefs t)" for k
    using rel t that unfolding releaseOK_def sessOK_def threadOK_def by blast
  have op: "\<not> openerThread t" using no t by (auto simp: list_ex_iff)
  show ?thesis using op r(2) [OF t] r(3) len by (cases t) auto
qed

text \<open>C19. A session winds down: once its read loop has ended, its other goroutines take at most \<open>workLeft\<close> steps more in any
  interleaving, whatever the upstream connections and the other sessions do meanwhile, as long as a goroutine that can take the
  closed \<open>done\<close> channel does so rather than a timer, and a read that returns brings data or an error. Under the same
  condition a goroutine is blocked exactly when it is finished, in a dial that has not returned, in a read from or a write to
  an upstream connection that is still open and has not returned, or a pump waiting on an empty stream nobody has closed. And
  when no identifier was used twice and no opener is left, none of these waits occurs: every goroutine is finished or can
  go on, so after at most \<open>workLeft\<close> steps all of them are finished.\<close>

theorem ended_session_winds_down:
  assumes "wreach G E W" and "s \<in> set (wsess W)" and "hd (threads s) = Finished"
    and "\<forall>(n, X, g, ps)\<in>set xs. quietIn X \<and> pools_ok ps" and "runOthers E xs \<lparr>ses = s, gbuf = g0, bpools = ps0\<rparr> = Some S'"
  shows "length xs + workLeft (ses S') \<le> workLeft s \<and>
     (\<forall>n X. n < length (threads (ses S')) \<and> quietIn X \<longrightarrow>
        (schedule E X n S' = None \<longleftrightarrow> threads (ses S') ! n = Finished \<or> awaits X (ses S') (threads (ses S') ! n))) \<and>
     (distinct (map st_id (objs (ses S'))) \<and> \<not> list_ex openerThread (threads (ses S')) \<longrightarrow>
        (\<forall>n X. n < length (threads (ses S')) \<and> quietIn X \<longrightarrow>
           (schedule E X n S' = None \<longleftrightarrow> threads (ses S') ! n = Finished)))"
proof -
  let ?S = "\<lparr>ses = s, gbuf = g0, bpools = ps0\<rparr>"
  have g: "goneOK E (ses ?S)" and r: "releaseOK E (ses ?S)" using gone.always [OF assms(1,2)] rel.always [OF assms(1,2)] by simp_all
  note g' = gone.others [OF g assms(4,5)] and r' = rel.others [OF r assms(4,5)]
  have w: "length xs + workLeft (ses S') \<le> workLeft s" and f: "hd (threads (ses S')) = Finished"
    using runOthers_work [OF g _ assms(4,5)] assms(3) by simp_all
  have c: "sclosed (ses S')" using g' f by (auto simp: goneOK_def lifeOK_def)
  have "schedule E X n S' = None \<longleftrightarrow> threads (ses S') ! n = Finished"
    if "distinct (map st_id (objs (ses S')))" "\<not> list_ex openerThread (threads (ses S'))" "n < length (threads (ses S'))" "quietIn X" for n X
    using work_progress [OF g' f that(3,4)] nobody_waits [OF r' that(1) f c that(2)] that(3) by auto
  with w work_progress [OF g' f] show ?thesis by blast
qed

text \<open>The session of the demonstration after \<open>closeAll\<close>, with the opener of its stream and the heartbeat still there.\<close>

definition demo_left_trace :: "(nat \<times> stepin) list" where
  "demo_left_trace = map (\<lambda>n. (n, demo_step)) [0, 2, 2, 2, 0, 0, 0, 0, 0, 0]"

lemma demo_left_run:
  "\<exists>W s. wreach demo_globals demo_env W \<and> wsess W = [s] \<and> threads s = [Finished, Heartbeat, OpenerCheck 1 0] \<and> sclosed s \<and>
     sdone s \<and> streams s = []"
proof -
  have "\<exists>W s. runSession demo_env 0 demo_left_trace (demo_start [demo_open]) = Some W \<and> wsess W = [s] \<and>
      threads s = [Finished, Heartbeat, OpenerCheck 1 0] \<and> sclosed s \<and> sdone s \<and> streams s = []"
    unfolding demo_start_eq demo_open_def demo_left_trace_def demo_session_def demo_frames_def
    by (simp add: demo_end_simps del: encAll.simps)
  then show ?thesis using runSession_wreach [OF demo_start_reach] by meson
qed

theorem ended_session_winds_down_witness:
  "\<exists>W s. wreach demo_globals demo_env W \<and> wsess W = [s] \<and>
     length [(2 :: nat, quiet_step\<lparr>rfail := True\<rparr>, 0 :: int, empty_pools), (1, quiet_step\<lparr>rfail := True\<rparr>, 0, empty_pools)] \<le> workLeft s"
proof -
  from demo_left_run obtain W s where w: "wreach demo_globals demo_env W" "wsess W = [s]"
    and th: "threads s = [Finished, Heartbeat, OpenerCheck 1 0]" "sclosed s" "sdone s" "streams s = []" by blast
  let ?X = "quiet_step\<lparr>rfail := True\<rparr>"
  have "\<exists>S'. runOthers demo_env [(2, ?X, 0, empty_pools), (1, ?X, 0, empty_pools)] \<lparr>ses = s, gbuf = 0, bpools = empty_pools\<rparr> = Some S'"
    using th by (simp add: schedule_def threadStep_def quiet_step_def demo_step_def releaseOpen_def closeUpstream_def Let_def)
  then obtain S' where r: "runOthers demo_env [(2, ?X, 0, empty_pools), (1, ?X, 0, empty_pools)]
      \<lparr>ses = s, gbuf = 0, bpools = empty_pools\<rparr> = Some S'" by blast
  have "s \<in> set (wsess W)" "hd (threads s) = Finished" "quietIn ?X" using w th by (simp_all add: quietIn_def quiet_step_def demo_step_def)
  with ended_session_winds_down [OF w(1) _ _ _ r] show ?thesis
    using w by (intro exI [of _ W] exI [of _ s]) simp
qed

end
