(* ===== verification/Base58.thy ===== *)
theory Base58
  imports Prelude
begin

text \<open>
  The base-58 codec of share strings: \<open>base58Encode\<close> of the server
  (\<open>cmd/mxtr-server/share_string.go\<close> lines 15 to 43) and \<open>base58Decode\<close> of the client
  (\<open>cmd/mxtr-testclient-v2/main.go\<close> lines 127 to 149), with the two round trips.
\<close>

section \<open>Positional numerals\<close>

text \<open>
  \<open>digitsOf b n\<close>: the digits of \<open>n\<close> in base \<open>b\<close>, least significant first and none for
  zero, as the loop over \<open>QuoRem\<close> produces them. \<open>fromDigits\<close> is the value.
\<close>

function digitsOf :: "nat \<Rightarrow> nat \<Rightarrow> nat list" where
  "digitsOf b n = (if n = 0 \<or> b < 2 then [] else (n mod b) # digitsOf b (n div b))"
  by pat_completeness auto
termination by (relation "measure snd") auto

declare digitsOf.simps [simp del]

fun fromDigits :: "nat \<Rightarrow> nat list \<Rightarrow> nat" where
  "fromDigits b [] = 0"
| "fromDigits b (d # ds) = d + b * fromDigits b ds"

lemma fromDigits_digitsOf: "2 \<le> b \<Longrightarrow> fromDigits b (digitsOf b n) = n"
proof (induction b n rule: digitsOf.induct)
  case (1 b n)
  then show ?case by (subst digitsOf.simps) auto
qed

lemma digitsOf_less: "2 \<le> b \<Longrightarrow> d \<in> set (digitsOf b n) \<Longrightarrow> d < b"
proof (induction b n rule: digitsOf.induct)
  case (1 b n)
  then show ?case by (subst (asm) digitsOf.simps) (auto split: if_splits)
qed

lemma digitsOf_last: "2 \<le> b \<Longrightarrow> digitsOf b n \<noteq> [] \<Longrightarrow> last (digitsOf b n) \<noteq> 0"
proof (induction b n rule: digitsOf.induct)
  case (1 b n)
  have n: "n \<noteq> 0" using 1(3) by (cases "n = 0") (simp_all add: digitsOf.simps [of b 0])
  show ?case
  proof (cases "digitsOf b (n div b) = []")
    case True
    then have "n div b = 0" using 1(2) by (subst (asm) digitsOf.simps) (auto split: if_splits)
    then have "n mod b = n" using 1(2) by (simp add: div_eq_0_iff)
    then show ?thesis using True n 1(2) by (simp add: digitsOf.simps [of b n])
  next
    case False
    then show ?thesis using 1 n by (simp add: digitsOf.simps [of b n])
  qed
qed

lemma digitsOf_Nil_iff: "2 \<le> b \<Longrightarrow> digitsOf b n = [] \<longleftrightarrow> n = 0"
  by (subst digitsOf.simps) auto

text \<open>Numerals without leading zeros are unique.\<close>

lemma digitsOf_fromDigits:
  assumes "2 \<le> b" and "\<forall>d\<in>set ds. d < b" and "ds = [] \<or> last ds \<noteq> 0"
  shows "digitsOf b (fromDigits b ds) = ds"
  using assms(2,3)
proof (induction ds)
  case Nil
  then show ?case by (simp add: digitsOf.simps)
next
  case (Cons d ds)
  let ?v = "fromDigits b ds"
  have d: "d < b" and IH: "digitsOf b ?v = ds" using Cons by (auto split: if_splits)
  have "d + b * ?v \<noteq> 0"
  proof (cases ds)
    case Nil
    then show ?thesis using Cons.prems by simp
  next
    case (Cons x xs)
    then have "?v \<noteq> 0" using IH assms(1) digitsOf_Nil_iff [of b ?v] by auto
    then show ?thesis using assms(1) by simp
  qed
  then show ?case using d IH assms(1) by (subst digitsOf.simps) simp
qed

lemma fromDigits_append: "fromDigits b (xs @ ys) = fromDigits b xs + b ^ length xs * fromDigits b ys"
  by (induction xs) (auto simp: algebra_simps)

lemma fromDigits_zeros [simp]: "fromDigits b (replicate n 0) = 0"
  by (induction n) auto

lemma getBE_fromDigits: "getBE bs = fromDigits 256 (rev (map unat bs))"
  by (induction bs rule: rev_induct) auto

text \<open>\<open>big.Int.Bytes\<close>: the shortest big-endian form.\<close>

definition bigBytes :: "nat \<Rightarrow> bytes" where
  "bigBytes n = rev (map word_of_nat (digitsOf 256 n))"

lemma bigBytes_getBE:
  assumes "bs = [] \<or> hd bs \<noteq> 0"
  shows "bigBytes (getBE bs) = bs"
proof -
  let ?ds = "rev (map unat bs)"
  have "unat (hd bs) \<noteq> 0" if "bs \<noteq> []" using assms that by (simp add: unat_eq_0)
  then have "?ds = [] \<or> last ?ds \<noteq> 0" by (cases bs) auto
  moreover have "\<forall>d\<in>set ?ds. d < 256" by auto
  ultimately have "digitsOf 256 (getBE bs) = ?ds"
    unfolding getBE_fromDigits by (intro digitsOf_fromDigits) auto
  then show ?thesis by (simp add: bigBytes_def rev_map o_def)
qed

lemma getBE_bigBytes: "getBE (bigBytes n) = n"
proof -
  have "map unat (map word_of_nat (digitsOf 256 n) :: bytes) = digitsOf 256 n"
    using digitsOf_less [of 256 _ n] by (auto intro!: map_idI simp: unat_of_nat_byte)
  then have "rev (map unat (bigBytes n)) = digitsOf 256 n"
    by (simp add: bigBytes_def rev_map)
  then show ?thesis by (simp add: getBE_fromDigits fromDigits_digitsOf)
qed

lemma bigBytes_hd: "bigBytes n \<noteq> [] \<Longrightarrow> hd (bigBytes n) \<noteq> 0"
proof -
  assume "bigBytes n \<noteq> []"
  then have ne: "digitsOf 256 n \<noteq> []" by (simp add: bigBytes_def)
  then have "last (digitsOf 256 n) \<noteq> 0" and "last (digitsOf 256 n) < 256"
    using digitsOf_last [of 256 n] digitsOf_less [of 256 _ n] by auto
  then have "unat (word_of_nat (last (digitsOf 256 n)) :: byte) \<noteq> 0"
    by (simp add: unat_of_nat_byte)
  then have "(word_of_nat (last (digitsOf 256 n)) :: byte) \<noteq> 0" by (metis unat_0)
  then show ?thesis using ne by (simp add: bigBytes_def hd_rev last_map)
qed

section \<open>The codec\<close>

definition b58Alphabet :: string where
  "b58Alphabet = ''123456789ABCDEFGHJKLMNPQRSTUVWXYZabcdefghijkmnopqrstuvwxyz''"

definition base58Encode :: "bytes \<Rightarrow> string" where
  "base58Encode input =
     (if input = [] then ''''
      else let zeros = length (takeWhile (\<lambda>b. b = 0) input);
               n = getBE (drop zeros input);
               rv = map (\<lambda>d. b58Alphabet ! d) (digitsOf 58 n) @ replicate zeros (b58Alphabet ! 0)
           in rev rv)"

text \<open>\<open>strings.IndexRune\<close> in the alphabet.\<close>

fun indexIn :: "string \<Rightarrow> char \<Rightarrow> nat option" where
  "indexIn [] c = None"
| "indexIn (a # as) c = (if a = c then Some 0 else map_option Suc (indexIn as c))"

text \<open>The client has its own constant.\<close>

definition tc_b58Alphabet :: string where
  "tc_b58Alphabet = ''123456789ABCDEFGHJKLMNPQRSTUVWXYZabcdefghijkmnopqrstuvwxyz''"

lemma tc_b58Alphabet_eq [simp]: "tc_b58Alphabet = b58Alphabet"
  by (simp add: tc_b58Alphabet_def b58Alphabet_def)

fun b58Value :: "nat \<Rightarrow> string \<Rightarrow> nat option" where
  "b58Value n [] = Some n"
| "b58Value n (c # cs) =
     (case indexIn tc_b58Alphabet c of None \<Rightarrow> None | Some idx \<Rightarrow> b58Value (n * 58 + idx) cs)"

datatype b58_error = EmptyBase58 | BadBase58Char

definition base58Decode :: "string \<Rightarrow> b58_error + bytes" where
  "base58Decode s =
     (if s = '''' then Inl EmptyBase58
      else let zeros = length (takeWhile (\<lambda>c. c = tc_b58Alphabet ! 0) s)
           in case b58Value 0 s of
                None \<Rightarrow> Inl BadBase58Char
              | Some n \<Rightarrow> Inr (replicate zeros 0 @ bigBytes n))"

section \<open>Round trips\<close>

lemma b58_length: "length b58Alphabet = 58"
  by (simp add: b58Alphabet_def)

lemma b58_distinct: "distinct b58Alphabet"
  by (simp add: b58Alphabet_def)

lemma indexIn_nth: "distinct as \<Longrightarrow> i < length as \<Longrightarrow> indexIn as (as ! i) = Some i"
proof (induction as arbitrary: i)
  case (Cons a as)
  then show ?case by (cases i) auto
qed simp

lemma indexIn_Some: "indexIn as c = Some i \<Longrightarrow> i < length as \<and> as ! i = c"
  by (induction as arbitrary: i) (auto split: if_splits)

lemma b58_index: "d < 58 \<Longrightarrow> indexIn b58Alphabet (b58Alphabet ! d) = Some d"
  using indexIn_nth [OF b58_distinct] by (simp add: b58_length)

lemma b58_char_0: "d < 58 \<Longrightarrow> b58Alphabet ! d = b58Alphabet ! 0 \<longleftrightarrow> d = 0"
  using nth_eq_iff_index_eq [OF b58_distinct, of d 0] by (simp add: b58_length)

lemma b58Value_digits:
  assumes "\<forall>d\<in>set ds. d < 58"
  shows "b58Value n (map (\<lambda>d. b58Alphabet ! d) ds) = Some (fromDigits 58 (rev ds) + 58 ^ length ds * n)"
  using assms
proof (induction ds arbitrary: n)
  case (Cons d ds)
  then show ?case by (simp add: b58_index fromDigits_append algebra_simps)
qed simp

lemma b58Value_Some:
  assumes "b58Value n s = Some m"
  shows "\<exists>ds. s = map (\<lambda>d. b58Alphabet ! d) ds \<and> (\<forall>d\<in>set ds. d < 58)"
  using assms
proof (induction s arbitrary: n)
  case (Cons c cs)
  then obtain i where i: "indexIn b58Alphabet c = Some i" and v: "b58Value (n * 58 + i) cs = Some m"
    by (auto split: option.splits)
  from Cons.IH [OF v] obtain ds where "cs = map (\<lambda>d. b58Alphabet ! d) ds" "\<forall>d\<in>set ds. d < 58" by blast
  then show ?case using indexIn_Some [OF i] by (intro exI [of _ "i # ds"]) (auto simp: b58_length)
qed simp

lemma takeWhile_zeros: "takeWhile (\<lambda>x. x = a) (replicate n a @ ys) = replicate n a @ takeWhile (\<lambda>x. x = a) ys"
  by (induction n) auto

lemma split_zeros: "xs = replicate (length (takeWhile (\<lambda>x. x = a) xs)) a @ dropWhile (\<lambda>x. x = a) xs"
  by (induction xs) auto

lemma drop_takeWhile: "drop (length (takeWhile P xs)) xs = dropWhile P xs"
  by (induction xs) auto

text \<open>The shape of an encoding: leading ones for leading zeros, then the digits.\<close>

lemma base58Encode_shape:
  assumes "input \<noteq> []" and "input = replicate z 0 @ rest" and "rest = [] \<or> hd rest \<noteq> 0"
  shows "base58Encode input =
           map (\<lambda>d. b58Alphabet ! d) (replicate z 0 @ rev (digitsOf 58 (getBE rest)))"
proof -
  have t: "takeWhile (\<lambda>b. b = 0) rest = []" using assms(3) by (cases rest) auto
  have "length (takeWhile (\<lambda>b. b = 0) input) = z" unfolding assms(2) takeWhile_zeros t by simp
  moreover have "drop z input = rest" by (simp add: assms(2))
  ultimately show ?thesis using assms(1) by (simp add: base58Encode_def Let_def rev_map)
qed

lemma base58Decode_shape:
  assumes "s \<noteq> ''''" and "s = map (\<lambda>d. b58Alphabet ! d) (replicate z 0 @ ds)"
    and "\<forall>d\<in>set ds. d < 58" and "ds = [] \<or> hd ds \<noteq> 0"
  shows "base58Decode s = Inr (replicate z 0 @ bigBytes (fromDigits 58 (rev ds)))"
proof -
  have t: "takeWhile (\<lambda>c. c = b58Alphabet ! 0) (map (\<lambda>d. b58Alphabet ! d) ds) = []"
    using assms(3,4) by (cases ds) (auto simp: b58_char_0)
  have "length (takeWhile (\<lambda>c. c = b58Alphabet ! 0) s) = z"
    unfolding assms(2) by (simp add: takeWhile_zeros t)
  moreover have "b58Value 0 s = Some (fromDigits 58 (rev ds))"
    unfolding assms(2) using assms(3) by (subst b58Value_digits) (auto simp: fromDigits_append)
  ultimately show ?thesis using assms(1) by (simp add: base58Decode_def Let_def)
qed

lemma decode_encode:
  assumes "input \<noteq> []"
  shows "base58Decode (base58Encode input) = Inr input"
proof -
  define z where "z = length (takeWhile (\<lambda>b. b = 0) input)"
  define rest where "rest = dropWhile (\<lambda>b. b = 0) input"
  have inp: "input = replicate z 0 @ rest" unfolding z_def rest_def by (rule split_zeros)
  have hd: "rest = [] \<or> hd rest \<noteq> 0" unfolding rest_def using hd_dropWhile by blast
  let ?ds = "rev (digitsOf 58 (getBE rest))"
  have enc: "base58Encode input = map (\<lambda>d. b58Alphabet ! d) (replicate z 0 @ ?ds)"
    by (rule base58Encode_shape [OF assms inp hd])
  have "getBE rest \<noteq> 0" if "rest \<noteq> []"
  proof
    assume "getBE rest = 0"
    then have "bigBytes (getBE rest) = []" by (simp add: bigBytes_def digitsOf.simps)
    then show False using bigBytes_getBE [OF hd] that by simp
  qed
  then have ne: "base58Encode input \<noteq> ''''"
    unfolding enc using assms inp by (cases "rest = []") (simp_all add: digitsOf_Nil_iff)
  have "?ds = [] \<or> hd ?ds \<noteq> 0"
    using digitsOf_last [of 58 "getBE rest"]
    by (cases "digitsOf 58 (getBE rest) = []") (simp_all add: hd_rev)
  moreover have "\<forall>d\<in>set ?ds. d < 58" using digitsOf_less [of 58 _ "getBE rest"] by simp
  ultimately have "base58Decode (base58Encode input) =
      Inr (replicate z 0 @ bigBytes (fromDigits 58 (rev ?ds)))"
    by (intro base58Decode_shape [OF ne enc])
  then show ?thesis by (simp add: fromDigits_digitsOf bigBytes_getBE [OF hd] inp [symmetric])
qed

lemma encode_decode:
  assumes "base58Decode s = Inr bs"
  shows "base58Encode bs = s"
proof -
  from assms have ne: "s \<noteq> ''''" and "\<exists>n. b58Value 0 s = Some n"
    by (auto simp: base58Decode_def Let_def split: if_splits option.splits)
  then obtain es where s: "s = map (\<lambda>d. b58Alphabet ! d) es" and es: "\<forall>d\<in>set es. d < 58"
    using b58Value_Some by blast
  define z where "z = length (takeWhile (\<lambda>d. d = 0) es)"
  define ds where "ds = dropWhile (\<lambda>d. d = 0) es"
  have split: "es = replicate z 0 @ ds" unfolding z_def ds_def by (rule split_zeros)
  have hd: "ds = [] \<or> hd ds \<noteq> 0" unfolding ds_def using hd_dropWhile by blast
  have less: "\<forall>d\<in>set ds. d < 58" using es split by auto
  let ?n = "fromDigits 58 (rev ds)"
  have bs: "bs = replicate z 0 @ bigBytes ?n"
    using base58Decode_shape [OF ne s [unfolded split] less hd] assms by simp
  have digits: "digitsOf 58 ?n = rev ds"
    using less hd by (intro digitsOf_fromDigits) (auto simp: last_rev)
  have "bs \<noteq> []"
  proof
    assume "bs = []"
    then have "z = 0" and "bigBytes ?n = []" using bs by auto
    then have "digitsOf 256 ?n = []" by (simp add: bigBytes_def)
    then have "?n = 0" by (simp add: digitsOf_Nil_iff)
    then have "ds = []" using digits by (simp add: digitsOf.simps)
    then show False using ne s split \<open>z = 0\<close> by simp
  qed
  then have "base58Encode bs = map (\<lambda>d. b58Alphabet ! d) (replicate z 0 @ rev (digitsOf 58 (getBE (bigBytes ?n))))"
    using bs bigBytes_hd by (intro base58Encode_shape) auto
  then show ?thesis by (simp add: getBE_bigBytes digits s split)
qed

section \<open>Properties\<close>

text \<open>C33. The client's decoder undoes the server's encoder on every non-empty key, leading zero bytes included, and
  every string the decoder accepts is the encoding of what it returns: the two sides agree on one text form.\<close>

theorem base58_roundtrip:
  "(input \<noteq> [] \<longrightarrow> base58Decode (base58Encode input) = Inr input) \<and>
   (base58Decode s = Inr bs \<longrightarrow> base58Encode bs = s)"
  using decode_encode encode_decode by blast

theorem base58_roundtrip_witness:
  "base58Decode (base58Encode [0, 0, 255, 1]) = Inr [0, 0, 255, 1] \<and> base58Encode [0, 0] = ''11''"
proof -
  have "base58Decode ''11'' = Inr [0, 0]" by code_simp
  then show ?thesis using base58_roundtrip [of "[0, 0, 255, 1]" "''11''" "[0, 0]"] by simp
qed

end
