(* ===== verification/Share.thy ===== *)
theory Share
  imports Base58 Allowlist
begin

text \<open>
  Share strings: \<open>buildShareString\<close> of the server (\<open>cmd/mxtr-server/share_string.go\<close> lines
  45 to 64) and \<open>parseShareString\<close> of the client (\<open>cmd/mxtr-testclient-v2/main.go\<close> lines
  117 to 209), with the part of Go's \<open>net/url\<close> the client runs on a string that begins with
  \<open>mxtr://\<close>: authority, user information, host and port, query.
\<close>

section \<open>Parts of net/url\<close>

datatype url_mode = EncHost | EncZone | EncUserPassword | EncQuery | EncPath | EncFragment

definition alnum :: "char \<Rightarrow> bool" where
  "alnum c \<longleftrightarrow> lower c \<or> upper c \<or> digit c"

text \<open>\<open>shouldEscape(c, encodeHost)\<close>.\<close>

definition hostEscape :: "char \<Rightarrow> bool" where
  "hostEscape c \<longleftrightarrow> \<not> (alnum c \<or> c \<in> set ''!$&()*+,;=:[]<>-_.~'' \<or> c = CHR 0x27 \<or> c = CHR 0x22)"

fun unescape :: "url_mode \<Rightarrow> string \<Rightarrow> string option" where
  "unescape m [] = Some []"
| "unescape m (c # cs) =
     (if c = CHR ''%'' then
        (case cs of
           a # b # rest \<Rightarrow>
             (case (hexVal a, hexVal b) of
                (Some x, Some y) \<Rightarrow>
                  let v = (char_of (16 * x + y) :: char); is25 = (a = CHR ''2'' \<and> b = CHR ''5'')
                  in if m = EncHost \<and> x < 8 \<and> \<not> is25 then None
                     else if m = EncZone \<and> \<not> is25 \<and> v \<noteq> CHR '' '' \<and> hostEscape v then None
                     else map_option (Cons v) (unescape m rest)
              | _ \<Rightarrow> None)
         | _ \<Rightarrow> None)
      else if c = CHR ''+'' \<and> m = EncQuery then map_option (Cons CHR '' '') (unescape m cs)
      else if (m = EncHost \<or> m = EncZone) \<and> (of_char c :: nat) < 128 \<and> hostEscape c then None
      else map_option (Cons c) (unescape m cs))"

text \<open>\<open>strings.Cut\<close> at a one-byte separator; the flag says whether it was found.\<close>

definition cut :: "char \<Rightarrow> string \<Rightarrow> string \<times> string \<times> bool" where
  "cut c s = (takeWhile (\<lambda>x. x \<noteq> c) s, drop 1 (dropWhile (\<lambda>x. x \<noteq> c) s), c \<in> set s)"

definition validOptionalPort :: "string \<Rightarrow> bool" where
  "validOptionalPort port \<longleftrightarrow> (case port of [] \<Rightarrow> True | c # ds \<Rightarrow> c = CHR '':'' \<and> list_all digit ds)"

text \<open>
  \<open>parseHost\<close> of Go 1.26: a bracketed host is an IPv6 address, possibly with a zone, at the
  start; any other host has at most one colon, before the port.
\<close>

definition parseHost :: "string \<Rightarrow> string option" where
  "parseHost host =
     (if CHR ''['' \<in> set host then
        (case lastIndexByte CHR '']'' host of
           None \<Rightarrow> None
         | Some i \<Rightarrow>
             if hd host \<noteq> CHR ''['' \<or> CHR ''['' \<in> set (tl host) then None
             else
               let colonPort = drop (i + 1) host; name = take (i - 1) (drop 1 host);
                   nz = (if contains ''%25'' name
                         then (let (h, _, _) = cut CHR ''%'' name
                               in case (unescape EncHost h, unescape EncZone (drop (length h) name)) of
                                    (Some a, Some b) \<Rightarrow> Some (a, b) | _ \<Rightarrow> None)
                         else map_option (\<lambda>a. (a, [])) (unescape EncHost name))
               in if \<not> validOptionalPort colonPort then None
                  else case nz of
                    None \<Rightarrow> None
                  | Some (a, z) \<Rightarrow>
                      if parseIPv6 a = None \<or> z = ''%'' then None
                      else map_option (\<lambda>cp. ''['' @ a @ z @ '']'' @ cp) (unescape EncHost colonPort))
      else if CHR '':'' \<in> set host \<and> \<not> validOptionalPort (dropWhile (\<lambda>x. x \<noteq> CHR '':'') host) then None
      else unescape EncHost host)"

definition validUserinfo :: "string \<Rightarrow> bool" where
  "validUserinfo s \<longleftrightarrow>
     list_all (\<lambda>c. alnum c \<or> c \<in> set ''-._:~!$&()*+,;=%@'' \<or> c = CHR 0x27) s"

record url =
  user :: "(string \<times> string option) option"
  uhost :: string
  rawQuery :: string

definition parseAuthority :: "string \<Rightarrow> ((string \<times> string option) option \<times> string) option" where
  "parseAuthority authority =
     (case lastIndexByte CHR ''@'' authority of
        None \<Rightarrow> map_option (\<lambda>h. (None, h)) (parseHost authority)
      | Some i \<Rightarrow>
          let userinfo = take i authority
          in case parseHost (drop (i + 1) authority) of
               None \<Rightarrow> None
             | Some h \<Rightarrow>
                 if \<not> validUserinfo userinfo then None
                 else
                   let (name, pass, hasPass) = cut CHR '':'' userinfo
                   in if \<not> hasPass then map_option (\<lambda>n. (Some (n, None), h)) (unescape EncUserPassword userinfo)
                      else case (unescape EncUserPassword name, unescape EncUserPassword pass) of
                             (Some n, Some p) \<Rightarrow> Some (Some (n, Some p), h)
                           | _ \<Rightarrow> None)"

text \<open>\<open>url.Parse\<close> of \<open>mxtr://\<close> followed by \<open>s\<close>.\<close>

definition ctl :: "char \<Rightarrow> bool" where
  "ctl c \<longleftrightarrow> (of_char c :: nat) < 32 \<or> (of_char c :: nat) = 127"

definition parseMxtrURL :: "string \<Rightarrow> url option" where
  "parseMxtrURL s =
     (let (u, frag, _) = cut CHR ''#'' s
      in if list_ex ctl u \<or> unescape EncFragment frag = None then None
         else
           let (rest, query, _) = cut CHR ''?'' u;
               (authority, _, _) = cut CHR ''/'' rest;
               path = drop (length authority) rest
           in case parseAuthority authority of
                None \<Rightarrow> None
              | Some (us, h) \<Rightarrow>
                  if unescape EncPath path = None then None
                  else Some \<lparr>user = us, uhost = h, rawQuery = query\<rparr>)"

text \<open>\<open>URL.Hostname\<close> and \<open>URL.Port\<close>.\<close>

definition urlHostPort :: "string \<Rightarrow> string \<times> string" where
  "urlHostPort hp =
     (let (h, p) = (case lastIndexByte CHR '':'' hp of
                      None \<Rightarrow> (hp, '''')
                    | Some i \<Rightarrow> if validOptionalPort (drop i hp) then (take i hp, drop (i + 1) hp) else (hp, ''''))
      in (if hasPrefix ''['' h \<and> hasSuffix '']'' h then take (length h - 2) (drop 1 h) else h, p))"

text \<open>\<open>URL.Query().Get(key)\<close>: the first value of the key, empty when there is none.\<close>

fun queryGet :: "string \<Rightarrow> string list \<Rightarrow> string" where
  "queryGet key [] = ''''"
| "queryGet key (part # parts) =
     (let (k, v, _) = cut CHR ''='' part
      in if CHR '';'' \<in> set part \<or> part = '''' then queryGet key parts
         else case (unescape EncQuery k, unescape EncQuery v) of
                (Some k', Some v') \<Rightarrow> if k' = key then v' else queryGet key parts
              | _ \<Rightarrow> queryGet key parts)"

definition query :: "string \<Rightarrow> string \<Rightarrow> string" where
  "query raw key = queryGet key (splitOn CHR ''&'' raw)"

section \<open>The share string\<close>

definition buildShareString :: "bytes \<Rightarrow> string \<Rightarrow> string \<Rightarrow> string \<Rightarrow> string" where
  "buildShareString psk host portAddr sni =
     (let port = (case portAddr of c # cs \<Rightarrow> if c = CHR '':'' then cs else portAddr | [] \<Rightarrow> portAddr);
          host' = (if host = '''' then ''<YOUR-PUBLIC-HOST>'' else host);
          s = ''mxtr://'' @ base58Encode psk @ ''@'' @ host' @ '':'' @ port
      in if sni \<noteq> '''' then s @ ''?sni='' @ sni else s)"

definition isIPLiteral :: "string \<Rightarrow> bool" where
  "isIPLiteral s \<longleftrightarrow> parseIP (trimPrefix ''['' (trimSuffix '']'' s)) \<noteq> None"

record shareData =
  sd_host :: string
  sd_port :: int
  pskHex :: string
  sd_sni :: string

datatype share_error =
    NotMxtr | UrlInvalid | MissingPsk | EmptyPsk | HasPassword | PskDecode b58_error | PskLength nat
  | HostNotIP string | InvalidPort string | SniIsIP

definition parseShareString :: "string \<Rightarrow> share_error + shareData" where
  "parseShareString s0 =
     (let s = trimSpace s0
      in if \<not> hasPrefix ''mxtr://'' s then Inl NotMxtr
         else case parseMxtrURL (drop 7 s) of
           None \<Rightarrow> Inl UrlInvalid
         | Some u \<Rightarrow>
             (case user u of
                None \<Rightarrow> Inl MissingPsk
              | Some (pskB58, password) \<Rightarrow>
                  if pskB58 = '''' then Inl EmptyPsk
                  else if password \<noteq> None then Inl HasPassword
                  else case base58Decode pskB58 of
                    Inl e \<Rightarrow> Inl (PskDecode e)
                  | Inr pskBytes \<Rightarrow>
                      if length pskBytes \<noteq> 32 then Inl (PskLength (length pskBytes))
                      else
                        let (host, portStr) = urlHostPort (uhost u)
                        in if \<not> isIPLiteral host then Inl (HostNotIP host)
                           else case atoi portStr of
                             None \<Rightarrow> Inl (InvalidPort portStr)
                           | Some port \<Rightarrow>
                               if port \<le> 0 \<or> 65535 < port then Inl (InvalidPort portStr)
                               else
                                 let sni = query (rawQuery u) ''sni''
                                 in if sni \<noteq> '''' \<and> parseIP sni \<noteq> None then Inl SniIsIP
                                    else Inr \<lparr>sd_host = host, sd_port = port, pskHex = hexEncode pskBytes, sd_sni = sni\<rparr>))"

section \<open>Characters that pass unchanged\<close>

definition simpleChar :: "char \<Rightarrow> bool" where
  "simpleChar c \<longleftrightarrow> alnum c \<or> c = CHR ''.'' \<or> c = CHR ''-''"

lemma simple_unescape: "list_all (\<lambda>c. simpleChar c \<or> c = CHR '':'') s \<Longrightarrow> unescape m s = Some s"
proof (induction s)
  case (Cons c cs)
  then have c: "simpleChar c \<or> c = CHR '':''" and IH: "unescape m cs = Some cs" by auto
  from c have "c \<noteq> CHR ''%''" and "c \<noteq> CHR ''+''" and "\<not> hostEscape c"
    by (auto simp: simpleChar_def alnum_def lower_def upper_def digit_def hostEscape_def)
  then show ?case using IH by simp
qed simp

lemma dropWhile_not: "c \<notin> set s \<Longrightarrow> dropWhile (\<lambda>x. x \<noteq> c) (s @ c # t) = c # t"
  by (induction s) auto

lemma takeWhile_dropWhile_absent:
  "c \<notin> set s \<Longrightarrow> takeWhile (\<lambda>x. x \<noteq> c) s = s" "c \<notin> set s \<Longrightarrow> dropWhile (\<lambda>x. x \<noteq> c) s = []"
  by (induction s) auto

lemma cut_absent: "c \<notin> set s \<Longrightarrow> cut c s = (s, '''', False)"
  by (simp add: cut_def takeWhile_dropWhile_absent)

lemma cut_join: "c \<notin> set a \<Longrightarrow> cut c (a @ c # b) = (a, b, True)"
  by (simp add: cut_def takeWhile_not dropWhile_not)

lemma simpleChar_not:
  "simpleChar c \<Longrightarrow> c \<noteq> CHR '':'' \<and> c \<noteq> CHR ''@'' \<and> c \<noteq> CHR ''/'' \<and> c \<noteq> CHR ''?'' \<and> c \<noteq> CHR ''#'' \<and>
     c \<noteq> CHR ''['' \<and> c \<noteq> CHR '']'' \<and> c \<noteq> CHR ''&'' \<and> c \<noteq> CHR ''='' \<and> c \<noteq> CHR '';''"
  by (auto simp: simpleChar_def alnum_def lower_def upper_def digit_def)

lemma simpleChar_plain: "simpleChar c \<Longrightarrow> plain c \<and> \<not> ctl c"
  by (auto simp: simpleChar_def alnum_def lower_def upper_def digit_def plain_def ctl_def)

definition simple :: "string \<Rightarrow> bool" where
  "simple s \<longleftrightarrow> list_all simpleChar s"

lemma simple_absent:
  assumes "simple s"
  shows "CHR '':'' \<notin> set s" "CHR ''@'' \<notin> set s" "CHR ''/'' \<notin> set s" "CHR ''?'' \<notin> set s" "CHR ''#'' \<notin> set s"
    "CHR ''['' \<notin> set s" "CHR '']'' \<notin> set s" "CHR ''&'' \<notin> set s" "CHR ''='' \<notin> set s" "CHR '';'' \<notin> set s"
  using assms simpleChar_not by (auto simp: simple_def list_all_iff)

lemma simple_base58: "simple (base58Encode bs)"
proof -
  have "list_all simpleChar b58Alphabet"
    by (simp add: b58Alphabet_def simpleChar_def alnum_def lower_def upper_def digit_def)
  then have "simpleChar (b58Alphabet ! d)" if "d < 58" for d using that by (simp add: list_all_length b58_length)
  moreover have "d < 58" if "d \<in> set (digitsOf 58 n)" for d n using digitsOf_less [of 58 d n] that by simp
  ultimately show ?thesis by (auto simp: simple_def list_all_iff base58Encode_def Let_def)
qed

lemma simple_itoa: "simple (itoaNat n)"
  using itoaNat_codes [of _ n] by (auto simp: simple_def list_all_iff simpleChar_def alnum_def digit_def)

lemma simple_ip4: "simple (ip4String ip)"
  using ip4String_chars [of _ ip] by (fastforce simp: simple_def list_all_iff simpleChar_def alnum_def digit_def)

lemma itoa_digits: "list_all digit (itoaNat n)"
  using itoaNat_codes [of _ n] by (auto simp: list_all_iff digit_def)

section \<open>Parsing what was built\<close>

lemma parseHost_ip4:
  "parseHost (ip4String ip @ '':'' @ itoaNat n) = Some (ip4String ip @ '':'' @ itoaNat n)"
proof -
  have "unescape EncHost (ip4String ip @ '':'' @ itoaNat n) = Some (ip4String ip @ '':'' @ itoaNat n)"
    using simple_ip4 [of ip] simple_itoa [of n] by (intro simple_unescape) (auto simp: simple_def list_all_iff)
  moreover have "dropWhile (\<lambda>x. x \<noteq> CHR '':'') (ip4String ip @ CHR '':'' # itoaNat n) = CHR '':'' # itoaNat n"
    by (rule dropWhile_not) simp
  ultimately show ?thesis by (simp add: parseHost_def validOptionalPort_def itoa_digits)
qed

lemma parseAuthority_share:
  assumes "simple k"
  shows "parseAuthority (k @ ''@'' @ ip4String ip @ '':'' @ itoaNat n) =
           Some (Some (k, None), ip4String ip @ '':'' @ itoaNat n)"
proof -
  have "lastIndexByte CHR ''@'' (k @ CHR ''@'' # (ip4String ip @ '':'' @ itoaNat n)) = Some (length k)"
    by (rule lastIndexByte_join) simp
  moreover have "validUserinfo k"
    using assms by (auto simp: validUserinfo_def simple_def list_all_iff simpleChar_def)
  moreover have "unescape EncUserPassword k = Some k"
    using assms by (intro simple_unescape) (auto simp: simple_def list_all_iff)
  ultimately show ?thesis
    using parseHost_ip4 [of ip n] simple_absent(1) [OF assms] by (simp add: parseAuthority_def cut_absent Let_def)
qed

lemma ip4String_brackets:
  "\<not> hasPrefix ''['' (ip4String ip)" "\<not> hasSuffix '']'' (ip4String ip)"
proof -
  show "\<not> hasPrefix ''['' (ip4String ip)"
  proof
    assume "hasPrefix ''['' (ip4String ip)"
    then obtain t where "ip4String ip = CHR ''['' # t" by (auto simp: hasPrefix_iff)
    then have "CHR ''['' \<in> set (ip4String ip)" by simp
    then show False by simp
  qed
  show "\<not> hasSuffix '']'' (ip4String ip)"
  proof
    assume "hasSuffix '']'' (ip4String ip)"
    then obtain t where "ip4String ip = t @ '']''" by (auto simp: hasSuffix_iff)
    then have "CHR '']'' \<in> set (ip4String ip)" by simp
    then show False by simp
  qed
qed

lemma urlHostPort_ip4: "urlHostPort (ip4String ip @ '':'' @ itoaNat n) = (ip4String ip, itoaNat n)"
proof -
  have "lastIndexByte CHR '':'' (ip4String ip @ CHR '':'' # itoaNat n) = Some (length (ip4String ip))"
    by (rule lastIndexByte_join) simp
  then show ?thesis by (simp add: urlHostPort_def validOptionalPort_def itoa_digits ip4String_brackets)
qed

lemma parseMxtrURL_share:
  assumes "simple k" and "simple sni"
  shows "parseMxtrURL (k @ ''@'' @ ip4String ip @ '':'' @ itoaNat n @ (if sni \<noteq> '''' then ''?sni='' @ sni else ''''))
     = Some \<lparr>user = Some (k, None), uhost = ip4String ip @ '':'' @ itoaNat n,
             rawQuery = (if sni \<noteq> '''' then ''sni='' @ sni else '''')\<rparr>"
proof -
  let ?a = "k @ ''@'' @ ip4String ip @ '':'' @ itoaNat n"
  let ?q = "if sni \<noteq> '''' then ''?sni='' @ sni else ''''"
  note ab = simple_absent [OF assms(1)] simple_absent [OF assms(2)]
  have frag: "cut CHR ''#'' (?a @ ?q) = (?a @ ?q, '''', False)" using ab by (intro cut_absent) auto
  have nq: "CHR ''?'' \<notin> set ?a" and ns: "CHR ''/'' \<notin> set ?a" using ab by auto
  have "\<not> list_ex ctl (?a @ ?q)"
    using assms simple_ip4 [of ip] simple_itoa [of n] simpleChar_plain
    by (auto simp: list_ex_iff simple_def list_all_iff ctl_def split: if_splits)
  moreover have "cut CHR ''?'' (?a @ ?q) = (?a, if sni \<noteq> '''' then ''sni='' @ sni else '''', sni \<noteq> '''')"
    using cut_join [OF nq, of "''sni='' @ sni"] cut_absent [OF nq] by simp
  moreover have "cut CHR ''/'' ?a = (?a, '''', False)" by (rule cut_absent [OF ns])
  ultimately have "parseMxtrURL (?a @ ?q) = Some \<lparr>user = Some (k, None), uhost = ip4String ip @ '':'' @ itoaNat n,
             rawQuery = (if sni \<noteq> '''' then ''sni='' @ sni else '''')\<rparr>"
    unfolding parseMxtrURL_def using frag parseAuthority_share [OF assms(1), of ip n] by simp
  then show ?thesis by simp
qed

lemma query_sni:
  assumes "simple sni"
  shows "query (if sni \<noteq> '''' then ''sni='' @ sni else '''') ''sni'' = sni"
proof (cases "sni = ''''")
  case True
  then show ?thesis by (simp add: query_def cut_def)
next
  case False
  have s: "splitOn CHR ''&'' (''sni='' @ sni) = [''sni='' @ sni]"
    using simple_absent(8) [OF assms] by (intro splitOn_no_sep) simp
  have c: "cut CHR ''='' (''sni='' @ sni) = (''sni'', sni, True)" using cut_join [of "CHR ''=''" "''sni''" sni] by simp
  have u: "unescape EncQuery sni = Some sni" "unescape EncQuery ''sni'' = Some ''sni''"
    using assms by (auto intro!: simple_unescape simp: simple_def list_all_iff)
  have "query (''sni='' @ sni) ''sni'' = sni"
    unfolding query_def s using c u simple_absent(10) [OF assms] by simp
  then show ?thesis using False by simp
qed

lemma isIPLiteral_ip4: "length ip = 4 \<Longrightarrow> isIPLiteral (ip4String ip)"
  by (simp add: isIPLiteral_def trimPrefix_def trimSuffix_def parseIP_ip4String ip4String_brackets)

lemma share_parses:
  assumes psk: "length psk = 32" and ip: "length ip = 4" and n: "0 < n" "n \<le> 65535"
    and sni: "simple sni" "sni = '''' \<or> parseIP sni = None"
  shows "parseShareString (buildShareString psk (ip4String ip) ('':'' @ itoaNat n) sni) =
     Inr \<lparr>sd_host = ip4String ip, sd_port = int n, pskHex = hexEncode psk, sd_sni = sni\<rparr>"
proof -
  let ?k = "base58Encode psk"
  let ?u = "?k @ ''@'' @ ip4String ip @ '':'' @ itoaNat n @ (if sni \<noteq> '''' then ''?sni='' @ sni else '''')"
  have ne: "psk \<noteq> []" using psk by auto
  have k: "?k \<noteq> ''''"
    using decode_encode [OF ne] by (auto simp: base58Decode_def)
  have b: "buildShareString psk (ip4String ip) ('':'' @ itoaNat n) sni = ''mxtr://'' @ ?u"
    by (simp add: buildShareString_def Let_def)
  have "\<forall>c\<in>set (''mxtr://'' @ ?u). plain c"
    using simple_base58 [of psk] simple_ip4 [of ip] simple_itoa [of n] sni(1) simpleChar_plain
    by (auto simp: simple_def list_all_iff plain_def split: if_splits)
  then have t: "trimSpace (''mxtr://'' @ ?u) = ''mxtr://'' @ ?u" by (rule trimSpace_plain)
  have pre: "hasPrefix ''mxtr://'' (''mxtr://'' @ ?u)" and dr: "drop 7 (''mxtr://'' @ ?u) = ?u"
    by (simp_all add: hasPrefix_def)
  have url: "parseMxtrURL ?u = Some \<lparr>user = Some (?k, None), uhost = ip4String ip @ '':'' @ itoaNat n,
             rawQuery = (if sni \<noteq> '''' then ''sni='' @ sni else '''')\<rparr>"
    by (rule parseMxtrURL_share [OF simple_base58 sni(1)])
  have port: "atoi (itoaNat n) = Some (int n)" using n by (intro atoi_itoaNat) simp
  show ?thesis
    unfolding parseShareString_def b t Let_def dr url
    using pre k decode_encode [OF ne] psk urlHostPort_ip4 [of ip n] isIPLiteral_ip4 [OF ip] port n
      query_sni [OF sni(1)] sni(2)
    by simp
qed

lemma valid_simple:
  assumes h: "isValidHostname sni"
  shows "simple sni"
proof -
  have "list_all (\<lambda>c. alnum c \<or> c = CHR ''-'') label" if "label \<in> set (splitOn CHR ''.'' sni)" for label
    using h that by (auto simp: isValidHostname_def list_all_iff alnum_def)
  then have "c = CHR ''.'' \<or> alnum c \<or> c = CHR ''-''" if "c \<in> set sni" for c
    using splitOn_cover [OF that, of "CHR ''.''"] by (auto simp: list_all_iff)
  then show ?thesis by (auto simp: simple_def list_all_iff simpleChar_def)
qed

lemma share_parses_hostname:
  assumes "length psk = 32" and "length ip = 4" and "0 < n" and "n \<le> 65535"
    and "sni = '''' \<or> isValidHostname sni"
  shows "parseShareString (buildShareString psk (ip4String ip) ('':'' @ itoaNat n) sni) =
     Inr \<lparr>sd_host = ip4String ip, sd_port = int n, pskHex = hexEncode psk, sd_sni = sni\<rparr>"
proof -
  have "simple sni" if "isValidHostname sni" using that by (rule valid_simple)
  moreover have "parseIP sni = None" if "isValidHostname sni" using that by (simp add: isValidHostname_def)
  moreover have "simple ''''" by (simp add: simple_def)
  ultimately show ?thesis using assms by (intro share_parses) auto
qed

text \<open>A listen address with a host part puts a second colon after the public host, and the client's URL parser refuses it.\<close>

lemma share_listen_host:
  assumes ne: "lhost \<noteq> []" and l: "simple lhost" and sni: "simple sni"
  shows "parseShareString (buildShareString psk (ip4String ip) (lhost @ '':'' @ itoaNat n) sni) = Inl UrlInvalid"
proof -
  let ?k = "base58Encode psk" and ?h = "ip4String ip @ '':'' @ lhost @ '':'' @ itoaNat n"
  let ?a = "?k @ ''@'' @ ?h" and ?q = "if sni \<noteq> '''' then ''?sni='' @ sni else ''''"
  obtain c cs where lip: "lhost = c # cs" using ne by (cases lhost) auto
  have "c \<noteq> CHR '':''" using simple_absent(1) [OF l] lip by auto
  then have b: "buildShareString psk (ip4String ip) (lhost @ '':'' @ itoaNat n) sni = ''mxtr://'' @ ?a @ ?q"
    by (simp add: buildShareString_def Let_def lip)
  note ab = simple_absent [OF simple_base58 [of psk]] simple_absent [OF l] simple_absent [OF sni]
  have pl: "\<forall>c\<in>set (?a @ ?q). plain c \<and> \<not> ctl c"
    using simple_base58 [of psk] simple_ip4 [of ip] l sni simple_itoa [of n] simpleChar_plain
    by (auto simp: simple_def list_all_iff plain_def ctl_def split: if_splits)
  then have "\<forall>c\<in>set (''mxtr://'' @ ?a @ ?q). plain c" by (auto simp: plain_def)
  then have t: "trimSpace (''mxtr://'' @ ?a @ ?q) = ''mxtr://'' @ ?a @ ?q" by (rule trimSpace_plain)
  have pre: "hasPrefix ''mxtr://'' (''mxtr://'' @ ?a @ ?q)" and dr: "drop 7 (''mxtr://'' @ ?a @ ?q) = ?a @ ?q"
    by (simp_all add: hasPrefix_def)
  have "dropWhile (\<lambda>x. x \<noteq> CHR '':'') (ip4String ip @ CHR '':'' # (lhost @ '':'' @ itoaNat n))
      = CHR '':'' # (lhost @ '':'' @ itoaNat n)"
    by (rule dropWhile_not) simp
  then have "parseHost ?h = None" using ab by (simp add: parseHost_def validOptionalPort_def digit_def)
  moreover have "lastIndexByte CHR ''@'' (?k @ CHR ''@'' # ?h) = Some (length ?k)" using ab by (intro lastIndexByte_join) simp
  ultimately have au: "parseAuthority ?a = None" by (simp add: parseAuthority_def Let_def)
  have c1: "cut CHR ''#'' (?a @ ?q) = (?a @ ?q, '''', False)" using ab by (intro cut_absent) auto
  have nq: "CHR ''?'' \<notin> set ?a" using ab by simp
  have c2: "fst (cut CHR ''?'' (?a @ ?q)) = ?a"
    using cut_join [OF nq, of "''sni='' @ sni"] cut_absent [OF nq] by simp
  have c3: "fst (cut CHR ''/'' ?a) = ?a" using ab cut_absent [of "CHR ''/''" ?a] by simp
  have "parseMxtrURL (?a @ ?q) = None"
    unfolding parseMxtrURL_def c1 using c2 c3 au by (simp add: Let_def case_prod_beta)
  then show ?thesis unfolding parseShareString_def b t Let_def dr using pre by simp
qed

end
