(* ===== verification/Client_Codec.thy ===== *)
theory Client_Codec
  imports Handshake Share
begin

text \<open>
  The wire layer of the client, \<open>cmd/mxtr-testclient-v2/main.go\<close> lines 53 to 115, 211 to 285
  and 374 to 464: padding ladder, keys and tags, the frame codec and the dialling of a
  session with its handshake. The client repeats the server's code with small differences
  (no buffer pools, the error of \<open>rand.Read\<close> ignored), so its definitions are translated
  separately, with the prefix \<open>tc_\<close>, and compared with the server's by theorems.
\<close>

section \<open>Constants and the padding ladder\<close>

definition tc_nonceLen :: nat where "tc_nonceLen = 16"
definition tc_macLen :: nat where "tc_macLen = 16"
definition tc_maxHandshakePad :: nat where "tc_maxHandshakePad = 255"
definition tc_maxPlaintext :: nat where "tc_maxPlaintext = 16384 - 2"
definition tc_maxPadded :: nat where "tc_maxPadded = 16384"
definition tc_maxCiphertext :: nat where "tc_maxCiphertext = tc_maxPadded + 16"
definition tc_frameHeader :: nat where "tc_frameHeader = 7"
definition tc_maxStreamPayloadV2 :: nat where "tc_maxStreamPayloadV2 = tc_maxPlaintext - tc_frameHeader"

lemmas tc_consts = tc_nonceLen_def tc_macLen_def tc_maxHandshakePad_def tc_maxPlaintext_def
  tc_maxPadded_def tc_maxCiphertext_def tc_frameHeader_def tc_maxStreamPayloadV2_def

definition tc_padSizes :: "nat list" where
  "tc_padSizes = [256, 384, 512, 768, 1024, 1536, 2048, 3072, 4096, 6144, 8192, 12288, 16384]"

definition tc_nextPadSize :: "nat \<Rightarrow> nat" where
  "tc_nextPadSize n =
     (case find (\<lambda>s. n \<le> s) tc_padSizes of Some s \<Rightarrow> s | None \<Rightarrow> tc_padSizes ! (length tc_padSizes - 1))"

definition tc_bumpProbability :: "nat \<Rightarrow> nat" where
  "tc_bumpProbability minSize = (if minSize < 1024 then 30 else if minSize < 4096 then 18 else 8)"

text \<open>The loop of the client's \<open>pickPadRung\<close>, over the index.\<close>

definition tc_rungAfter :: "nat \<Rightarrow> nat" where
  "tc_rungAfter base =
     (case find (\<lambda>i. tc_padSizes ! i = base \<and> i + 1 < length tc_padSizes) [0..<length tc_padSizes] of
        Some i \<Rightarrow> tc_padSizes ! (i + 1)
      | None \<Rightarrow> base)"

definition tc_pickPadRung :: "nat \<Rightarrow> nat \<Rightarrow> nat" where
  "tc_pickPadRung r minSize =
     (let base = tc_nextPadSize minSize
      in if tc_bumpProbability minSize \<le> r then base else tc_rungAfter base)"

section \<open>Keys and tags\<close>

definition tc_computeMac :: "crypto \<Rightarrow> bytes \<Rightarrow> bytes \<Rightarrow> string \<Rightarrow> bytes" where
  "tc_computeMac C psk input label = take tc_macLen (hmac_sha256 C psk (input @ bytes_of label))"

text \<open>\<open>None\<close>: the source panics on a short read of the key stream.\<close>

definition tc_deriveKey :: "crypto \<Rightarrow> bytes \<Rightarrow> bytes \<Rightarrow> bytes \<Rightarrow> string \<Rightarrow> bytes option" where
  "tc_deriveKey C psk nonceC nonceS info = hkdf_sha256 C psk (nonceC @ nonceS) (bytes_of info) 32"

definition tc_frameNonce :: "u64 \<Rightarrow> bytes" where
  "tc_frameNonce seq = copyAt 4 (putBE 8 (unat seq)) (replicate 12 0)"

section \<open>Frames\<close>

text \<open>
  \<open>rnd\<close> gives the bytes the padding holds after \<open>rand.Read\<close>, whose error the client
  ignores; \<open>r\<close> is the roll of \<open>pickPadRung\<close>.
\<close>

definition writeAEADFrame ::
  "crypto \<Rightarrow> nat \<Rightarrow> (nat \<Rightarrow> byte) \<Rightarrow> writer \<Rightarrow> bytes \<Rightarrow> u64 \<Rightarrow> bytes \<Rightarrow> frame_error option \<times> writer" where
  "writeAEADFrame C r rnd w key seq pt =
     (if tc_maxPlaintext < length pt then (Some (PlaintextTooLarge (length pt)), w)
      else
        let innerSize = tc_pickPadRung r (length pt + 2);
            inner0 = replicate innerSize 0;
            inner1 = copyAt 0 (putBE 2 (length pt)) inner0;
            inner2 = copyAt 2 pt inner1;
            inner = copyAt (2 + length pt) (map rnd [0..<innerSize - (2 + length pt)]) inner2;
            ct = aead_seal C key (tc_frameNonce seq) inner;
            (ok1, w1) = writeConn w (putBE 2 (length ct))
        in if \<not> ok1 then (Some WriteFailed, w1)
           else let (ok2, w2) = writeConn w1 ct in (if ok2 then None else Some WriteFailed, w2))"

definition readAEADFrame :: "crypto \<Rightarrow> reader \<Rightarrow> bytes \<Rightarrow> u64 \<Rightarrow> (frame_error + bytes) \<times> reader" where
  "readAEADFrame C r key seq =
     (case readFull 2 r of
        (Some e, _, r1) \<Rightarrow> (Inl (ReadFailed e), r1)
      | (None, lenBuf, r1) \<Rightarrow>
          let clen = getBE lenBuf
          in if clen = 0 \<or> tc_maxCiphertext < clen then (Inl (InvalidCiphertextLength clen), r1)
             else case readFull clen r1 of
                    (Some e, _, r2) \<Rightarrow> (Inl (ReadFailed e), r2)
                  | (None, ct, r2) \<Rightarrow>
                      (case aead_open C key (tc_frameNonce seq) ct of
                         None \<Rightarrow> (Inl (DecryptFailed seq), r2)
                       | Some inner \<Rightarrow>
                           if length inner < 2 then (Inl MissingLengthPrefix, r2)
                           else let real = getBE (take 2 inner)
                                in if length inner - 2 < real
                                   then (Inl (RealLenExceeds real (length inner - 2)), r2)
                                   else (Inr (take real (drop 2 inner)), r2)))"

section \<open>Dialling\<close>

datatype dial_error =
    NotIPLiteral string
  | DialFailed
  | OuterTLS
  | HelloWrite
  | HelloHead io_error
  | HelloBody io_error
  | HelloMac
  | HkdfPanic

text \<open>
  \<open>dialTCP\<close> and \<open>tlsClient\<close> stand for \<open>net.DialTimeout\<close> and the TLS handshake of
  \<open>crypto/tls\<close> for a server name; the other fields are the random choices of the hello.
\<close>

record dialenv =
  dialTCP :: "string \<Rightarrow> (reader \<times> writer) option"
  tlsClient :: "string \<Rightarrow> reader \<times> writer \<Rightarrow> (reader \<times> writer) option"
  dnonce :: "nat \<Rightarrow> byte"
  dpadRoll :: nat
  dpad :: "nat \<Rightarrow> byte"

text \<open>
  A stream of the client. Channels are their contents: \<open>incoming\<close> holds the queued payloads,
  \<open>openOKc\<close> and \<open>openErrc\<close> the one slot of their channels. Four fields are histories no
  operation reads: \<open>arrived\<close> (bytes put into \<open>incoming\<close> so far), \<open>readout\<close> (bytes
  \<open>Read\<close> has returned), \<open>acquired\<close> (bytes taken from the window) and \<open>wlimit\<close> (what the
  server has allowed, counted like \<open>acquired\<close>).
\<close>

record cstream =
  cst_id :: u32
  incoming :: "bytes list"
  openOKc :: bool
  openErrc :: "string option"
  cst_closed :: bool
  pendingChunk :: "bytes option"
  pendingPos :: nat
  sendWindow :: int
  flowControlled :: bool
  arrived :: bytes
  readout :: bytes
  acquired :: int
  wlimit :: int

text \<open>
  The client's session. \<open>thello\<close> and \<open>tsealed\<close> are histories: what the connection had carried
  when the session began, and the random choices and plaintexts of the frames written.
\<close>

record tcsession =
  tin :: reader
  tout :: writer
  tkeyC2S :: bytes
  tkeyS2C :: bytes
  tseqRead :: u64
  tseqWrite :: u64
  tnextID :: u32
  tstreams :: "(u32 \<times> nat) list"
  tclosed :: bool
  tobjs :: "cstream list"
  thello :: bytes
  tsealed :: "((nat \<times> (nat \<Rightarrow> byte)) \<times> bytes) list"

text \<open>\<open>&session{...}\<close> at the end of \<open>dialSession\<close>.\<close>

definition tc_newSession :: "reader \<Rightarrow> writer \<Rightarrow> bytes \<Rightarrow> bytes \<Rightarrow> tcsession" where
  "tc_newSession rd wr kc ks =
     \<lparr>tin = rd, tout = wr, tkeyC2S = kc, tkeyS2C = ks, tseqRead = 1, tseqWrite = 1, tnextID = 1,
      tstreams = [], tclosed = False, tobjs = [], thello = wout wr, tsealed = []\<rparr>"

definition joinHostPort :: "string \<Rightarrow> string \<Rightarrow> string" where
  "joinHostPort h p =
     (if CHR '':'' \<in> set h \<or> CHR ''%'' \<in> set h then ''['' @ h @ '']:'' @ p else h @ '':'' @ p)"

definition tc_hello :: "crypto \<Rightarrow> bytes \<Rightarrow> bytes \<Rightarrow> nat \<Rightarrow> bytes \<Rightarrow> bytes" where
  "tc_hello C psk nonceC padLen pad =
     (let macIn = nonceC @ [word_of_nat padLen] @ pad; mac = tc_computeMac C psk macIn ''c2s-hs''
      in nonceC @ [word_of_nat padLen] @ pad @ mac)"

definition tc_readServerHello :: "crypto \<Rightarrow> bytes \<Rightarrow> reader \<Rightarrow> (dial_error + bytes) \<times> reader" where
  "tc_readServerHello C psk conn =
     (case readFull (tc_nonceLen + 1) conn of
        (Some e, _, c1) \<Rightarrow> (Inl (HelloHead e), c1)
      | (None, first, c1) \<Rightarrow>
          let nonceS = take tc_nonceLen first; srvPadLen = unat (first ! tc_nonceLen)
          in case readFull (srvPadLen + tc_macLen) c1 of
               (Some e, _, c2) \<Rightarrow> (Inl (HelloBody e), c2)
             | (None, rest, c2) \<Rightarrow>
                 let srvPad = take srvPadLen rest; srvMacGot = drop srvPadLen rest;
                     srvMacIn = nonceS @ [word_of_nat srvPadLen] @ srvPad;
                     srvMacWant = tc_computeMac C psk srvMacIn ''s2c-hs''
                 in if srvMacGot \<noteq> srvMacWant then (Inl HelloMac, c2) else (Inr nonceS, c2))"

definition dialSession ::
  "crypto \<Rightarrow> dialenv \<Rightarrow> string \<Rightarrow> int \<Rightarrow> bytes \<Rightarrow> string \<Rightarrow> dial_error + tcsession" where
  "dialSession C D serverHost serverPort psk sni =
     (if \<not> isIPLiteral serverHost then Inl (NotIPLiteral serverHost)
      else case dialTCP D (joinHostPort serverHost (itoa serverPort)) of
        None \<Rightarrow> Inl DialFailed
      | Some raw \<Rightarrow>
          let serverName = (if sni = '''' then serverHost else sni)
          in case tlsClient D serverName raw of
               None \<Rightarrow> Inl OuterTLS
             | Some (rd, wr) \<Rightarrow>
                 let nonceC = map (dnonce D) [0..<tc_nonceLen]; padLen = dpadRoll D;
                     pad = map (dpad D) [0..<padLen];
                     (ok, wr1) = writeConn wr (tc_hello C psk nonceC padLen pad)
                 in if \<not> ok then Inl HelloWrite
                    else case tc_readServerHello C psk rd of
                           (Inl e, _) \<Rightarrow> Inl e
                         | (Inr nonceS, rd1) \<Rightarrow>
                             (case (tc_deriveKey C psk nonceC nonceS ''c2s-key'',
                                    tc_deriveKey C psk nonceC nonceS ''s2c-key'') of
                                (Some kc, Some ks) \<Rightarrow>
                                  Inr (tc_newSession rd1 wr1 kc ks)
                              | _ \<Rightarrow> Inl HkdfPanic))"

section \<open>Agreement with the server\<close>

lemma tc_padSizes_eq: "tc_padSizes = padSizes"
  by (simp add: tc_padSizes_def padSizes_def)

lemma tc_nextPadSize_eq: "tc_nextPadSize n = nextPadSize n"
  by (simp only: tc_nextPadSize_def nextPadSize_def tc_padSizes_eq)

lemma tc_rungAfter_eq: "b \<in> set padSizes \<Longrightarrow> tc_rungAfter b = rungAfter b padSizes"
  by (auto simp: tc_rungAfter_def tc_padSizes_def padSizes_def upt_rec)

lemma tc_pickPadRung_eq: "tc_pickPadRung r n = pickPadRung r n"
  by (simp add: tc_pickPadRung_def pickPadRung_def Let_def tc_nextPadSize_eq tc_bumpProbability_def
      bumpProbability_def tc_rungAfter_eq nextPadSize_mem)

lemma tc_frameNonce_eq: "tc_frameNonce seq = frameNonce seq"
  by (simp add: tc_frameNonce_def frameNonce_def)

lemma tc_computeMac_eq: "tc_computeMac C psk m l = computeMac C psk m l"
  by (simp add: tc_computeMac_def computeMac_def tc_macLen_def macLen_def)

lemma tc_deriveKey_eq: "tc_deriveKey C psk a b l = deriveKey C psk a b l"
  by (simp add: tc_deriveKey_def deriveKey_def)

lemma readAEADFrame_eq: "readAEADFrame C r key seq = readFrame C r key seq"
proof -
  have "tc_maxCiphertext = maxCiphertextLen" by (simp add: tc_consts frame_consts)
  then show ?thesis by (simp only: readAEADFrame_def readFrame_def tc_frameNonce_eq)
qed

text \<open>The client's frames are those of the server's specification, on any connection.\<close>

lemma writeAEADFrame_eq:
  fixes C key seq pt r rnd
  assumes "length pt \<le> maxPlaintextSize"
  defines "ct \<equiv> aead_seal C key (frameNonce seq) (innerFrame (pickPadRung r (length pt + 2)) rnd pt)"
  shows "writeAEADFrame C r rnd w key seq pt =
    (let (ok, w') = writeTwo w (putBE 2 (length ct)) ct in (if ok then None else Some WriteFailed, w'))"
proof -
  let ?rung = "pickPadRung r (length pt + 2)"
  have fill: "copyAt (2 + length pt) (map rnd [0..<?rung - (2 + length pt)])
      (copyAt 2 pt (copyAt 0 (putBE 2 (length pt)) (replicate ?rung 0))) = innerFrame ?rung rnd pt"
    by (rule filled_buffer) (simp_all add: rung_fits [OF assms(1), simplified])
  have "\<not> tc_maxPlaintext < length pt" using assms(1) by (simp add: tc_consts frame_consts)
  then show ?thesis
    by (simp add: writeAEADFrame_def tc_pickPadRung_eq tc_frameNonce_eq Let_def fill [simplified] writeTwo_def ct_def
        split: prod.splits)
qed

lemma writeAEADFrame_unbroken:
  assumes "length pt \<le> maxPlaintextSize" and "wbreak w = None"
  shows "writeAEADFrame C r rnd w key seq pt = (None, w\<lparr>wout := wout w @ frameBytes C r rnd key seq pt\<rparr>)"
  using writeAEADFrame_eq [OF assms(1), of C r rnd w key seq] assms(2)
  by (simp add: writeTwo_def writeConn_unbroken frameBytes_def Let_def)

text \<open>The bytes a call appends to an intact connection, as an encoder; and the client's decoder.\<close>

definition tcEnc :: "crypto \<times> bytes \<Rightarrow> nat \<times> (nat \<Rightarrow> byte) \<Rightarrow> u64 \<Rightarrow> bytes \<Rightarrow> bytes" where
  "tcEnc ck rr seq pt = wout (snd (writeAEADFrame (fst ck) (fst rr) (snd rr) \<lparr>wout = [], wbreak = None\<rparr> (snd ck) seq pt))"

definition tcDec :: "crypto \<times> bytes \<Rightarrow> reader \<Rightarrow> u64 \<Rightarrow> (frame_error + bytes) \<times> reader" where
  "tcDec ck r seq = readAEADFrame (fst ck) r (snd ck) seq"

lemma tcEnc_eq: "length pt \<le> maxPlaintextSize \<Longrightarrow> tcEnc ck rr seq pt = srvEnc ck rr seq pt"
  by (simp add: tcEnc_def srvEnc_def writeAEADFrame_unbroken)

text \<open>Client to server, and server to client: both directions satisfy the codec's contract.\<close>

interpretation up: sequenced_codec tcEnc srvDec
  "\<lambda>ck. aead_ok (fst ck) \<and> aead_binds_nonce (fst ck)" maxPlaintextSize DecryptFailed
  by unfold_locales (simp_all add: tcEnc_eq srv.dec_enc srvq.dec_wrong)

interpretation down: sequenced_codec srvEnc tcDec
  "\<lambda>ck. aead_ok (fst ck) \<and> aead_binds_nonce (fst ck)" maxPlaintextSize DecryptFailed
proof -
  have "tcDec ck r seq = srvDec ck r seq" for ck r seq
    by (simp add: tcDec_def srvDec_def readAEADFrame_eq)
  then have "tcDec = srvDec" by (intro ext)
  then show "sequenced_codec srvEnc tcDec (\<lambda>ck. aead_ok (fst ck) \<and> aead_binds_nonce (fst ck))
      maxPlaintextSize DecryptFailed"
    using srvq.sequenced_codec_axioms by simp
qed

section \<open>The handshake between client and server\<close>

lemma tc_hello_eq: "length pad = padLen \<Longrightarrow> tc_hello C psk n padLen pad = helloBytes C psk ''c2s-hs'' n pad"
  by (simp add: tc_hello_def helloBytes_shape tc_computeMac_eq Let_def)

lemma tc_readServerHello_hello:
  assumes "hmac_ok C" and "length nonce = nonceLen" and "length pad \<le> maxHandshakePad"
  shows "tc_readServerHello C psk \<lparr>inbuf = helloBytes C psk ''s2c-hs'' nonce pad @ rest, rend = e\<rparr>
           = (Inr nonce, \<lparr>inbuf = rest, rend = e\<rparr>)"
proof -
  let ?b = "word_of_nat (length pad) :: byte"
  let ?mac = "computeMac C psk (nonce @ [?b] @ pad) ''s2c-hs''"
  have mac: "length ?mac = 16" using length_computeMac [OF assms(1)] by (simp add: macLen_def)
  have b: "unat ?b = length pad" using assms(3) by (simp add: unat_of_nat_byte maxHandshakePad_def)
  have len: "length nonce = 16" using assms(2) by (simp add: nonceLen_def)
  have r1: "readFull 17 \<lparr>inbuf = helloBytes C psk ''s2c-hs'' nonce pad @ rest, rend = e\<rparr>
      = (None, nonce @ [?b], \<lparr>inbuf = pad @ ?mac @ rest, rend = e\<rparr>)"
    unfolding readFull_None_iff helloBytes_shape using len by simp
  have r2: "readFull (length pad + 16) \<lparr>inbuf = pad @ ?mac @ rest, rend = e\<rparr>
      = (None, pad @ ?mac, \<lparr>inbuf = rest, rend = e\<rparr>)"
    unfolding readFull_None_iff using mac by simp
  show ?thesis
    using r1 r2 len b by (simp add: tc_readServerHello_def tc_consts tc_computeMac_eq Let_def nth_append)
qed

lemma writeServerHandshake_unbroken:
  assumes "wbreak w = None" and "nonceRnd R = Some f" and "padRnd R = Some g"
  shows "writeServerHandshake C psk R w =
    (Some (map f [0..<nonceLen]),
     w\<lparr>wout := wout w @ helloBytes C psk ''s2c-hs'' (map f [0..<nonceLen]) (map g [0..<padRoll R])\<rparr>)"
  using assms by (simp add: writeServerHandshake_def writeConn_unbroken helloBytes_shape Let_def)

section \<open>Properties\<close>

text \<open>C36. Client and server speak the same frames: what \<open>writeAEADFrame\<close> puts on a working connection is what
  \<open>writeFrame\<close> would put there for the same random choices, \<open>readAEADFrame\<close> and \<open>readFrame\<close> are the same
  function, and a whole sequence of frames of one side is recovered by the other in order.\<close>

theorem client_server_frames_agree:
  assumes "aead_ok C" and "\<forall>f\<in>set fs. length (snd f) \<le> maxPlaintextSize"
  shows "readAEADFrame C rd key seq = readFrame C rd key seq \<and>
    decAll (srvDec (C, key)) seq (length fs) \<lparr>inbuf = encAll (tcEnc (C, key)) seq fs @ rest, rend = e\<rparr>
      = (map snd fs, None, \<lparr>inbuf = rest, rend = e\<rparr>) \<and>
    decAll (tcDec (C, key)) seq (length fs) \<lparr>inbuf = encAll (srvEnc (C, key)) seq fs @ rest, rend = e\<rparr>
      = (map snd fs, None, \<lparr>inbuf = rest, rend = e\<rparr>)"
proof -
  have d: "tcDec (C, key) = srvDec (C, key)" by (rule ext)+ (simp add: tcDec_def srvDec_def readAEADFrame_eq)
  have "encAll (tcEnc (C, key)) seq fs = encAll (srvEnc (C, key)) seq fs" for seq
    using assms(2) by (induction fs arbitrary: seq) (auto simp: tcEnc_eq)
  then show ?thesis
    using srv.dec_all [of "(C, key)" fs seq rest e] assms by (force simp: d readAEADFrame_eq)
qed

theorem client_server_frames_agree_witness:
  "decAll (srvDec (demo_crypto, [])) 1 2
     \<lparr>inbuf = encAll (tcEnc (demo_crypto, [])) 1 [((0, \<lambda>_. 3), [1]), ((99, \<lambda>_. 0), [2, 2])], rend = EOF\<rparr>
   = ([[1], [2, 2]], None, \<lparr>inbuf = [], rend = EOF\<rparr>)"
  using client_server_frames_agree [OF demo_aead_ok, of "[((0, \<lambda>_. 3), [1]), ((99, \<lambda>_. 0), [2, 2])]" undefined "[]" 1 "[]" EOF]
  by (simp add: maxPlaintextSize_def numeral_2_eq_2)

lemma handshake_fits:
  assumes "hmac_ok C" and "hkdf_ok C" and "isIPLiteral host"
    and "dpadRoll D \<le> 255" and "\<not> looksLikeHTTP (map (dnonce D) [0..<16])"
    and "dialTCP D (joinHostPort host (itoa port)) = Some raw"
    and "tlsClient D (if sni = '''' then host else sni) raw = Some (\<lparr>inbuf = shello @ srest, rend = e\<rparr>, cw)" and "wbreak cw = None"
    and "dl1 E" and "dl2 E" and "nonceRnd (hsr E) = Some f" and "padRnd (hsr E) = Some g" and "padRoll (hsr E) \<le> 255"
    and "wbreak sw = None"
    and sh: "shello = helloBytes C (srvPsk G) ''s2c-hs'' (map f [0..<16]) (map g [0..<padRoll (hsr E)])"
    and ch: "chello = tc_hello C (srvPsk G) (map (dnonce D) [0..<16]) (dpadRoll D) (map (dpad D) [0..<dpadRoll D])"
  shows "\<exists>kc ks.
     acceptConn C G E \<lparr>inbuf = chello @ crest, rend = e'\<rparr> sw
       = (Established (map (dnonce D) [0..<16]) (map f [0..<16]) kc ks, \<lparr>inbuf = crest, rend = e'\<rparr>,
          sw\<lparr>wout := wout sw @ shello\<rparr>) \<and>
     dialSession C D host port (srvPsk G) sni
       = Inr (tc_newSession \<lparr>inbuf = srest, rend = e\<rparr> (cw\<lparr>wout := wout cw @ chello\<rparr>) kc ks)"
proof -
  let ?nc = "map (dnonce D) [0..<16]" and ?ns = "map f [0..<16]"
  have ch': "chello = helloBytes C (srvPsk G) ''c2s-hs'' ?nc (map (dpad D) [0..<dpadRoll D])"
    by (simp add: ch tc_hello_eq)
  have rc: "readClientHandshake C (srvPsk G) \<lparr>inbuf = chello @ crest, rend = e'\<rparr> = (Inr ?nc, \<lparr>inbuf = crest, rend = e'\<rparr>)"
    unfolding ch' using assms(4,5) by (intro readClientHandshake_hello [OF assms(1)]) (simp_all add: nonceLen_def maxHandshakePad_def)
  have ws: "writeServerHandshake C (srvPsk G) (hsr E) sw = (Some ?ns, sw\<lparr>wout := wout sw @ shello\<rparr>)"
    using writeServerHandshake_unbroken [OF assms(14,11,12)] by (simp add: sh nonceLen_def)
  have rs: "tc_readServerHello C (srvPsk G) \<lparr>inbuf = shello @ srest, rend = e\<rparr> = (Inr ?ns, \<lparr>inbuf = srest, rend = e\<rparr>)"
    unfolding sh using assms(13) by (intro tc_readServerHello_hello [OF assms(1)]) (simp_all add: nonceLen_def maxHandshakePad_def)
  obtain kc ks where k: "deriveKey C (srvPsk G) ?nc ?ns ''c2s-key'' = Some kc" "deriveKey C (srvPsk G) ?nc ?ns ''s2c-key'' = Some ks"
    using hkdf_okD [OF assms(2), of 32] by (simp add: deriveKey_def) metis
  have "acceptConn C G E \<lparr>inbuf = chello @ crest, rend = e'\<rparr> sw
       = (Established ?nc ?ns kc ks, \<lparr>inbuf = crest, rend = e'\<rparr>, sw\<lparr>wout := wout sw @ shello\<rparr>)"
    using assms(9,10) rc ws k by (simp add: acceptConn_def)
  moreover have "dialSession C D host port (srvPsk G) sni
       = Inr (tc_newSession \<lparr>inbuf = srest, rend = e\<rparr> (cw\<lparr>wout := wout cw @ chello\<rparr>) kc ks)"
    using assms(3,6,7,8) rs k
    by (simp add: dialSession_def Let_def tc_nonceLen_def writeConn_unbroken ch tc_deriveKey_eq)
  ultimately show ?thesis by blast
qed

text \<open>C16. The two handshakes fit together. A client with the server's key whose nonce does not begin like an HTTP
  request is accepted, both sides derive the same two keys, the client's hello and the server's hello are consumed
  exactly, and both start counting frames at 1.\<close>

theorem handshake_agreement:
  assumes "hmac_ok C" and "hkdf_ok C" and "isIPLiteral host"
    and "dpadRoll D \<le> 255" and "\<not> looksLikeHTTP (map (dnonce D) [0..<16])"
    and "dialTCP D (joinHostPort host (itoa port)) = Some raw"
    and "tlsClient D (if sni = '''' then host else sni) raw = Some (\<lparr>inbuf = shello @ srest, rend = e\<rparr>, cw)" and "wbreak cw = None"
    and "dl1 E" and "dl2 E" and "nonceRnd (hsr E) = Some f" and "padRnd (hsr E) = Some g" and "padRoll (hsr E) \<le> 255"
    and "wbreak sw = None"
    and sh: "shello = helloBytes C (srvPsk G) ''s2c-hs'' (map f [0..<16]) (map g [0..<padRoll (hsr E)])"
    and ch: "chello = tc_hello C (srvPsk G) (map (dnonce D) [0..<16]) (dpadRoll D) (map (dpad D) [0..<dpadRoll D])"
  shows "\<exists>kc ks.
     acceptConn C G E \<lparr>inbuf = chello @ crest, rend = e'\<rparr> sw
       = (Established (map (dnonce D) [0..<16]) (map f [0..<16]) kc ks, \<lparr>inbuf = crest, rend = e'\<rparr>,
          sw\<lparr>wout := wout sw @ shello\<rparr>) \<and>
     dialSession C D host port (srvPsk G) sni
       = Inr (tc_newSession \<lparr>inbuf = srest, rend = e\<rparr> (cw\<lparr>wout := wout cw @ chello\<rparr>) kc ks)"
  by (rule handshake_fits [OF assms])

definition demo_dial :: "bytes \<Rightarrow> dialenv" where
  "demo_dial sh =
     \<lparr>dialTCP = (\<lambda>_. Some (\<lparr>inbuf = [], rend = EOF\<rparr>, \<lparr>wout = [], wbreak = None\<rparr>)),
      tlsClient = (\<lambda>_ _. Some (\<lparr>inbuf = sh, rend = EOF\<rparr>, \<lparr>wout = [], wbreak = None\<rparr>)),
      dnonce = (\<lambda>_. 1), dpadRoll = 2, dpad = (\<lambda>_. 0)\<rparr>"

theorem handshake_agreement_witness:
  "\<exists>kc ks cw. dialSession demo_crypto
       (demo_dial (helloBytes demo_crypto [7] ''s2c-hs'' (map (\<lambda>_. 2) [0..<16]) (map (\<lambda>_. 0) [0..<3]) @ [9])) ''192.0.2.1'' 443 [7] ''a.example''
     = Inr (tc_newSession \<lparr>inbuf = [9], rend = EOF\<rparr> cw kc ks)"
proof -
  let ?sh = "helloBytes demo_crypto [7] ''s2c-hs'' (map (\<lambda>_. 2) [0..<16]) (map (\<lambda>_. 0) [0..<3])"
  let ?D = "demo_dial (?sh @ [9])"
  let ?E = "\<lparr>hsdate = '''', dl1 = True, dl2 = True, hsr = \<lparr>nonceRnd = Some (\<lambda>_. 2), padRoll = 3, padRnd = Some (\<lambda>_. 0)\<rparr>\<rparr>"
  let ?G = "\<lparr>srvPsk = [7], pskCfg = undefined, pickedCamouflage = None\<rparr>"
  have "\<not> looksLikeHTTP (map (\<lambda>_. 1) [0..<16])" by code_simp
  then have n: "\<not> looksLikeHTTP (map (dnonce ?D) [0..<16])" by (simp add: demo_dial_def)
  have ip: "isIPLiteral ''192.0.2.1''" by code_simp
  have "\<exists>kc ks. acceptConn demo_crypto ?G ?E
      \<lparr>inbuf = tc_hello demo_crypto (srvPsk ?G) (map (dnonce ?D) [0..<16]) (dpadRoll ?D) (map (dpad ?D) [0..<dpadRoll ?D]) @ [], rend = EOF\<rparr>
      \<lparr>wout = [], wbreak = None\<rparr>
       = (Established (map (dnonce ?D) [0..<16]) (map (\<lambda>_. 2) [0..<16]) kc ks, \<lparr>inbuf = [], rend = EOF\<rparr>,
          \<lparr>wout = [], wbreak = None\<rparr>\<lparr>wout := wout \<lparr>wout = [], wbreak = None\<rparr> @ ?sh\<rparr>) \<and>
     dialSession demo_crypto ?D ''192.0.2.1'' 443 (srvPsk ?G) ''a.example''
       = Inr (tc_newSession \<lparr>inbuf = [9], rend = EOF\<rparr> (\<lparr>wout = [], wbreak = None\<rparr>\<lparr>wout := wout \<lparr>wout = [], wbreak = None\<rparr> @
           tc_hello demo_crypto (srvPsk ?G) (map (dnonce ?D) [0..<16]) (dpadRoll ?D) (map (dpad ?D) [0..<dpadRoll ?D])\<rparr>) kc ks)"
    by (rule handshake_agreement [OF demo_hmac_ok demo_hkdf_ok ip _ n]) (simp_all add: demo_dial_def)
  then show ?thesis by auto
qed

text \<open>C38. The exception is real: a client with the right key whose random nonce begins with the four bytes of an HTTP
  method gets the web server's answer and no session.\<close>

theorem http_like_nonce_refused:
  assumes "dl1 E" and "looksLikeHTTP n" and "wbreak w = None"
  shows "\<exists>resp conn'. acceptConn C G E \<lparr>inbuf = tc_hello C (srvPsk G) n padLen pad, rend = e\<rparr> w
           = (Answered resp, conn', w\<lparr>wout := wout w @ bytes_of resp\<rparr>)"
proof -
  let ?r = "\<lparr>inbuf = tc_hello C (srvPsk G) n padLen pad, rend = e\<rparr>"
  have "4 \<le> length n" using assms(2) httpMethods_length by (fastforce simp: looksLikeHTTP_iff)
  then have n: "looksLikeHTTP (inbuf ?r)"
    using assms(2) by (simp add: tc_hello_def Let_def looksLikeHTTP_append)
  obtain res c1 where r: "readClientHandshake C (srvPsk G) ?r = (res, c1)" by fastforce
  have "\<not> (\<exists>m. res = Inr m)"
  proof
    assume "\<exists>m. res = Inr m"
    then obtain m where "readClientHandshake C (srvPsk G) ?r = (Inr m, c1)" using r by blast
    from readClientHandshake_accepts [OF this] obtain p where
      "length m = nonceLen" "\<not> looksLikeHTTP m" "inbuf ?r = helloBytes C (srvPsk G) ''c2s-hs'' m p @ inbuf c1" by blast
    with n show False by (simp add: helloBytes_shape looksLikeHTTP_append nonceLen_def)
  qed
  then obtain raw err where rc: "readClientHandshake C (srvPsk G) ?r = (Inl (raw, err), c1)"
    using r by (cases res) auto
  have "looksLikeHTTP raw" using readClientHandshake_refused [OF rc] n by blast
  then show ?thesis
    using assms(1,3) rc by (simp add: acceptConn_def writeConn_unbroken Let_def split: prod.splits)
qed

theorem http_like_nonce_refused_witness:
  "\<exists>resp conn'. acceptConn demo_crypto \<lparr>srvPsk = [7], pskCfg = undefined, pickedCamouflage = None\<rparr>
      \<lparr>hsdate = '''', dl1 = True, dl2 = True, hsr = undefined\<rparr>
      \<lparr>inbuf = tc_hello demo_crypto [7] (bytes_of ''GET 0123456789ab'') 0 [], rend = EOF\<rparr> \<lparr>wout = [], wbreak = None\<rparr>
     = (Answered resp, conn', \<lparr>wout = bytes_of resp, wbreak = None\<rparr>)"
proof -
  have "looksLikeHTTP (bytes_of ''GET 0123456789ab'')" by code_simp
  from http_like_nonce_refused [OF _ this, of "\<lparr>hsdate = '''', dl1 = True, dl2 = True, hsr = undefined\<rparr>" "\<lparr>wout = [], wbreak = None\<rparr>"
      demo_crypto "\<lparr>srvPsk = [7], pskCfg = undefined, pickedCamouflage = None\<rparr>" 0 "[]" EOF]
  show ?thesis by simp
qed

end
