(* ===== verification/Client_Session.thy ===== *)
theory Client_Session
  imports Client_Codec Threads
begin

text \<open>
  The client's session and its SOCKS5 front end, \<open>cmd/mxtr-testclient-v2/main.go\<close> lines 289 to
  372, 466 to 629 and 649 to 741. As for the server, a function performs one step of one
  goroutine between synchronisation points and returns \<open>None\<close> where the goroutine blocks.
  \<open>markClosed\<close> and \<open>deliver\<close> are called from the read loop only, so the mutex between them is
  never contended and \<open>deliver\<close> is one step that waits for room in the channel.
\<close>

section \<open>Constants\<close>

definition typeOpen :: byte where "typeOpen = 1"
definition typeData :: byte where "typeData = 2"
definition typeClose :: byte where "typeClose = 3"
definition typePing :: byte where "typePing = 4"
definition typePong :: byte where "typePong = 5"
definition typeOpenOK :: byte where "typeOpenOK = 6"
definition typeOpenErr :: byte where "typeOpenErr = 7"
definition typeWindowUpdate :: byte where "typeWindowUpdate = 8"

lemmas tc_types = typeOpen_def typeData_def typeClose_def typePing_def typePong_def typeOpenOK_def
  typeOpenErr_def typeWindowUpdate_def

section \<open>Streams\<close>

definition onStream :: "nat \<Rightarrow> (cstream \<Rightarrow> cstream) \<Rightarrow> tcsession \<Rightarrow> tcsession" where
  "onStream r f s = s\<lparr>tobjs := (tobjs s)[r := f (tobjs s ! r)]\<rparr>"

text \<open>\<open>None\<close>: the channel \<open>incoming\<close>, of capacity 32, is full.\<close>

definition deliver :: "nat \<Rightarrow> bytes \<Rightarrow> tcsession \<Rightarrow> (bool \<times> tcsession) option" where
  "deliver r payload s =
     (let st = tobjs s ! r
      in if cst_closed st then Some (False, s)
         else if length (incoming st) < 32
         then Some (True, onStream r (\<lambda>st. st\<lparr>incoming := incoming st @ [payload], arrived := arrived st @ payload\<rparr>) s)
         else None)"

definition markClosed :: "nat \<Rightarrow> tcsession \<Rightarrow> bool \<times> tcsession" where
  "markClosed r s =
     (if cst_closed (tobjs s ! r) then (False, s) else (True, onStream r (\<lambda>st. st\<lparr>cst_closed := True\<rparr>) s))"

text \<open>\<open>None\<close>: the caller waits for a credit.\<close>

definition acquireWindow :: "nat \<Rightarrow> nat \<Rightarrow> tcsession \<Rightarrow> (bool \<times> tcsession) option" where
  "acquireWindow r n s =
     (let st = tobjs s ! r
      in if \<not> flowControlled st then Some (True, onStream r (\<lambda>st. st\<lparr>acquired := acquired st + int n\<rparr>) s)
         else if sendWindow st < int n then (if cst_closed st then Some (False, s) else None)
         else Some (True, onStream r (\<lambda>st. st\<lparr>sendWindow := sendWindow st - int n, acquired := acquired st + int n\<rparr>) s))"

text \<open>
  \<open>Read\<close> with a buffer of \<open>n\<close> bytes: \<open>None\<close> blocks, \<open>Some (None, \<dots>)\<close> is \<open>io.EOF\<close>.
\<close>

definition takePending :: "nat \<Rightarrow> cstream \<Rightarrow> bytes \<times> cstream" where
  "takePending n st =
     (let chunk = the (pendingChunk st); out = take n (drop (pendingPos st) chunk);
          pos = pendingPos st + length out; st1 = st\<lparr>pendingPos := pos, readout := readout st @ out\<rparr>
      in (out, if length chunk \<le> pos then st1\<lparr>pendingChunk := None, pendingPos := 0\<rparr> else st1))"

definition readStream :: "nat \<Rightarrow> nat \<Rightarrow> tcsession \<Rightarrow> (bytes option \<times> tcsession) option" where
  "readStream r n s =
     (let st = tobjs s ! r
      in case pendingChunk st of
           Some _ \<Rightarrow> Some (Some (fst (takePending n st)), onStream r (\<lambda>st. snd (takePending n st)) s)
         | None \<Rightarrow>
             (case incoming st of
                [] \<Rightarrow> if cst_closed st then Some (None, s) else None
              | c # cs \<Rightarrow>
                  let st1 = st\<lparr>incoming := cs, pendingChunk := Some c, pendingPos := 0\<rparr>
                  in Some (Some (fst (takePending n st1)), onStream r (\<lambda>_. snd (takePending n st1)) s)))"

section \<open>Writing a frame\<close>

definition tc_streamFrame :: "u32 \<Rightarrow> byte \<Rightarrow> bytes \<Rightarrow> bytes" where
  "tc_streamFrame sno t payload = putBE 4 (unat sno) @ [t] @ putBE 2 (length payload) @ payload"

text \<open>\<open>R\<close>: the roll and the padding bytes of the frame. The counter advances only on success.\<close>

definition tc_writeStreamFrame ::
  "crypto \<Rightarrow> nat \<times> (nat \<Rightarrow> byte) \<Rightarrow> u32 \<Rightarrow> byte \<Rightarrow> bytes \<Rightarrow> tcsession \<Rightarrow> bool \<times> tcsession" where
  "tc_writeStreamFrame C R sno t payload s =
     (if tc_maxStreamPayloadV2 < length payload then (False, s)
      else let inner = tc_streamFrame sno t payload
           in if tclosed s then (False, s)
              else let (err, w') = writeAEADFrame C (fst R) (snd R) (tout s) (tkeyC2S s) (tseqWrite s) inner
                   in if err \<noteq> None then (False, s\<lparr>tout := w'\<rparr>)
                      else (True, s\<lparr>tout := w', tseqWrite := tseqWrite s + 1, tsealed := tsealed s @ [(R, inner)]\<rparr>))"

section \<open>Goroutines\<close>

text \<open>
  \<open>C\<dots>\<close> is the session's read loop and its deferred \<open>close\<close>; \<open>Socks\<close> handles the local
  connection \<open>k\<close> and ends in \<open>io.Copy\<close>; \<open>Bridge\<close> is the goroutine that carries the local
  connection's bytes into the stream \<open>r\<close>.
\<close>

datatype cthread =
    CLoop
  | CDeliver nat bytes
  | CClose
  | CRange "u32 list"
  | CConnClose
  | Socks nat
  | SocksWait nat u32 nat
  | SocksCopy nat nat
  | Bridge nat nat
  | BridgeAcquire nat nat bytes
  | BridgeSend nat nat bytes bytes
  | CFinished

text \<open>A local connection; \<open>lread\<close> is a history, the bytes its bridge has read.\<close>

record lconn =
  lin :: reader
  lout :: writer
  lread :: bytes

record cstate =
  cs :: tcsession
  conns :: "lconn list"
  cthreads :: "cthread list"

text \<open>Per step: frame randomness, which ready case a \<open>select\<close> takes, how much a read returns.\<close>

datatype choice = TakeOK | TakeErr | TakeTimeout

record cstepin =
  crnd :: "nat \<times> (nat \<Rightarrow> byte)"
  csel :: choice
  crd :: nat

type_synonym cresult = "(cthread \<times> cthread list \<times> cstate) option"

definition onConn :: "nat \<Rightarrow> (lconn \<Rightarrow> lconn) \<Rightarrow> cstate \<Rightarrow> cstate" where
  "onConn k f S = S\<lparr>conns := (conns S)[k := f (conns S ! k)]\<rparr>"

definition localWrite :: "nat \<Rightarrow> bytes \<Rightarrow> cstate \<Rightarrow> bool \<times> cstate" where
  "localWrite k bs S =
     (fst (writeConn (lout (conns S ! k)) bs), onConn k (\<lambda>c. c\<lparr>lout := snd (writeConn (lout c) bs)\<rparr>) S)"

definition localClose :: "nat \<Rightarrow> cstate \<Rightarrow> cstate" where
  "localClose k S =
     onConn k (\<lambda>c. c\<lparr>lin := \<lparr>inbuf = [], rend = ErrOther ''use of closed network connection''\<rparr>,
                     lout := (lout c)\<lparr>wbreak := Some 0\<rparr>\<rparr>) S"

section \<open>The read loop\<close>

definition tc_splitFrame :: "bytes \<Rightarrow> (u32 \<times> byte \<times> bytes) option" where
  "tc_splitFrame pt =
     (if length pt < tc_frameHeader then None
      else let sno = word_of_nat (getBE (take 4 pt)); t = pt ! 4; pln = getBE (take 2 (drop 5 pt))
           in if length pt - tc_frameHeader < pln then None
              else Some (sno, t, take pln (drop tc_frameHeader pt)))"

definition tc_dispatch :: "crypto \<Rightarrow> cstepin \<Rightarrow> u32 \<Rightarrow> byte \<Rightarrow> bytes \<Rightarrow> tcsession \<Rightarrow> cthread \<times> tcsession" where
  "tc_dispatch C X sno t payload s =
     (if t = typePing then (CLoop, snd (tc_writeStreamFrame C (crnd X) 0 typePong payload s))
      else case map_of (tstreams s) sno of
        None \<Rightarrow> (CLoop, s)
      | Some r \<Rightarrow>
          if t = typeOpenOK then
            (CLoop, onStream r (\<lambda>st.
               let st1 = (if 4 \<le> length payload
                          then st\<lparr>sendWindow := int (getBE (take 4 payload)), flowControlled := True,
                                  wlimit := acquired st + int (getBE (take 4 payload))\<rparr>
                          else st)
               in st1\<lparr>openOKc := True\<rparr>) s)
          else if t = typeOpenErr then
            (CLoop, onStream r (\<lambda>st. if openErrc st = None then st\<lparr>openErrc := Some (string_of payload)\<rparr> else st) s)
          else if t = typeData then (CDeliver r payload, s)
          else if t = typeWindowUpdate then
            (CLoop, if 4 \<le> length payload
                    then onStream r (\<lambda>st. st\<lparr>sendWindow := sendWindow st + int (getBE (take 4 payload)),
                                             wlimit := wlimit st + int (getBE (take 4 payload))\<rparr>) s
                    else s)
          else if t = typeClose then
            (CLoop, (snd (markClosed r s))\<lparr>tstreams := AList.delete sno (tstreams s)\<rparr>)
          else (CLoop, s))"

text \<open>\<open>close\<close>, which \<open>readLoop\<close> defers: the first call marks the session and every stream of the map as closed, then
  closes the connection.\<close>

fun tc_close :: "cthread \<Rightarrow> cstate \<Rightarrow> cresult" where
  "tc_close CClose S =
     (if tclosed (cs S) then Some (CFinished, [], S)
      else Some (CRange (map fst (tstreams (cs S))), [], S\<lparr>cs := (cs S)\<lparr>tclosed := True\<rparr>\<rparr>))"
| "tc_close (CRange ks) S =
     (case ks of
        [] \<Rightarrow> Some (CConnClose, [], S)
      | k # rest \<Rightarrow>
          Some (CRange rest, [],
            (case map_of (tstreams (cs S)) k of
               None \<Rightarrow> S
             | Some r \<Rightarrow> S\<lparr>cs := snd (markClosed r (cs S))\<rparr>)))"
| "tc_close CConnClose S =
     Some (CFinished, [],
       S\<lparr>cs := (cs S)\<lparr>tin := \<lparr>inbuf = [], rend = ErrOther ''use of closed network connection''\<rparr>,
                      tout := (tout (cs S))\<lparr>wbreak := Some 0\<rparr>\<rparr>\<rparr>)"
| "tc_close _ S = None"

fun tc_readLoop :: "crypto \<Rightarrow> cstepin \<Rightarrow> cthread \<Rightarrow> cstate \<Rightarrow> cresult" where
  "tc_readLoop C X CLoop S =
     (let s = cs S
      in case readAEADFrame C (tin s) (tkeyS2C s) (tseqRead s) of
           (Inl _, rd) \<Rightarrow> Some (CClose, [], S\<lparr>cs := s\<lparr>tin := rd\<rparr>\<rparr>)
         | (Inr pt, rd) \<Rightarrow>
             let s1 = s\<lparr>tin := rd, tseqRead := tseqRead s + 1\<rparr>
             in case tc_splitFrame pt of
                  None \<Rightarrow> Some (CClose, [], S\<lparr>cs := s1\<rparr>)
                | Some (sno, t, payload) \<Rightarrow>
                    let (th, s2) = tc_dispatch C X sno t payload s1 in Some (th, [], S\<lparr>cs := s2\<rparr>))"
| "tc_readLoop C X (CDeliver r payload) S =
     (case deliver r payload (cs S) of None \<Rightarrow> None | Some (_, s1) \<Rightarrow> Some (CLoop, [], S\<lparr>cs := s1\<rparr>))"
| "tc_readLoop C X CClose S = tc_close CClose S"
| "tc_readLoop C X (CRange ks) S = tc_close (CRange ks) S"
| "tc_readLoop C X CConnClose S = tc_close CConnClose S"
| "tc_readLoop C X _ S = None"

section \<open>Opening a stream\<close>

definition newCStream :: "u32 \<Rightarrow> cstream" where
  "newCStream i =
     \<lparr>cst_id = i, incoming = [], openOKc = False, openErrc = None, cst_closed = False, pendingChunk = None,
      pendingPos = 0, sendWindow = 0, flowControlled = False, arrived = [], readout = [], acquired = 0, wlimit = 0\<rparr>"

definition openTarget :: "string \<Rightarrow> nat \<Rightarrow> bytes" where
  "openTarget thost tport =
     (let hb = bytes_of thost in [2] @ [word_of_nat (length hb)] @ hb @ putBE 2 tport)"

text \<open>
  \<open>open\<close> up to its \<open>select\<close>: the identifier and the index of the stream it waits on, or the
  failure. The increment of the identifier, \<open>streams.Store\<close> and the OPEN frame are one step here: between them other
  goroutines of the program can run, so two calls may send their OPEN frames in either order.
\<close>

definition openStart :: "crypto \<Rightarrow> cstepin \<Rightarrow> string \<Rightarrow> nat \<Rightarrow> tcsession \<Rightarrow> (u32 \<times> nat) option \<times> tcsession" where
  "openStart C X thost tport s =
     (let sno = tnextID s; r = length (tobjs s);
          s1 = s\<lparr>tnextID := sno + 2, tobjs := tobjs s @ [newCStream sno], tstreams := AList.update sno r (tstreams s)\<rparr>
      in if 255 < length thost then (None, s1)
         else let (ok, s2) = tc_writeStreamFrame C (crnd X) sno typeOpen (openTarget thost tport) s1
              in if \<not> ok then (None, s2\<lparr>tstreams := AList.delete sno (tstreams s2)\<rparr>) else (Some (sno, r), s2))"

text \<open>The \<open>select\<close>: \<open>Some True\<close> returns the stream, \<open>Some False\<close> an error.\<close>

definition openSelect :: "choice \<Rightarrow> u32 \<Rightarrow> nat \<Rightarrow> tcsession \<Rightarrow> (bool \<times> tcsession) option" where
  "openSelect ch sno r s =
     (let st = tobjs s ! r; drop_it = s\<lparr>tstreams := AList.delete sno (tstreams s)\<rparr>
      in case ch of
           TakeOK \<Rightarrow> if openOKc st then Some (True, onStream r (\<lambda>st. st\<lparr>openOKc := False\<rparr>) s) else None
         | TakeErr \<Rightarrow> if openErrc st \<noteq> None then Some (False, onStream r (\<lambda>st. st\<lparr>openErrc := None\<rparr>) drop_it) else None
         | TakeTimeout \<Rightarrow> Some (False, drop_it))"

section \<open>SOCKS5\<close>

datatype socks_req = SkDrop | SkOpen string nat

text \<open>The dialogue with the local application, up to the call of \<open>open\<close>. It touches only the local connection, which no other
  goroutine uses yet, so it is one step although each of its reads can wait.\<close>

definition socksAddr :: "byte \<Rightarrow> reader \<Rightarrow> writer \<Rightarrow> string option \<times> reader \<times> writer" where
  "socksAddr atyp r w =
     (if atyp = 1 then
        (case readFull 4 r of (None, a, r1) \<Rightarrow> (Some (ipString a), r1, w) | (_, _, r1) \<Rightarrow> (None, r1, w))
      else if atyp = 3 then
        (case readFull 1 r of
           (None, l, r1) \<Rightarrow>
             (case readFull (unat (l ! 0)) r1 of
                (None, a, r2) \<Rightarrow> (Some (string_of a), r2, w)
              | (_, _, r2) \<Rightarrow> (None, r2, w))
         | (_, _, r1) \<Rightarrow> (None, r1, w))
      else if atyp = 4 then
        (case readFull 16 r of (None, a, r1) \<Rightarrow> (Some (ipString a), r1, w) | (_, _, r1) \<Rightarrow> (None, r1, w))
      else (None, r, snd (writeConn w [5, 8, 0, 1, 0, 0, 0, 0, 0, 0])))"

definition socksRequest :: "reader \<Rightarrow> writer \<Rightarrow> socks_req \<times> reader \<times> writer" where
  "socksRequest r w =
     (case readFull 2 r of
        (Some _, _, r1) \<Rightarrow> (SkDrop, r1, w)
      | (None, b, r1) \<Rightarrow>
          if b ! 0 \<noteq> 5 then (SkDrop, r1, w)
          else case readFull (unat (b ! 1)) r1 of
            (Some _, _, r2) \<Rightarrow> (SkDrop, r2, w)
          | (None, _, r2) \<Rightarrow>
              let w1 = snd (writeConn w [5, 0])
              in case readFull 4 r2 of
                   (Some _, _, r3) \<Rightarrow> (SkDrop, r3, w1)
                 | (None, q, r3) \<Rightarrow>
                     if q ! 0 \<noteq> 5 \<or> q ! 1 \<noteq> 1 then (SkDrop, r3, snd (writeConn w1 [5, 7, 0, 1, 0, 0, 0, 0, 0, 0]))
                     else case socksAddr (q ! 3) r3 w1 of
                            (None, r4, w2) \<Rightarrow> (SkDrop, r4, w2)
                          | (Some host, r4, w2) \<Rightarrow>
                              (case readFull 2 r4 of
                                 (Some _, _, r5) \<Rightarrow> (SkDrop, r5, w2)
                               | (None, p, r5) \<Rightarrow> (SkOpen host (getBE p), r5, w2)))"

text \<open>\<open>c.Read(bbuf)\<close>: at least one byte if there is one, at most the buffer; \<open>[]\<close>: an error.\<close>

definition localRead :: "nat \<Rightarrow> nat \<Rightarrow> reader \<Rightarrow> bytes \<times> reader" where
  "localRead n cap r = (let m = max 1 (min n cap) in (take m (inbuf r), r\<lparr>inbuf := drop m (inbuf r)\<rparr>))"

fun handleSocks5 :: "crypto \<Rightarrow> cstepin \<Rightarrow> cthread \<Rightarrow> cstate \<Rightarrow> cresult" where
  "handleSocks5 C X (Socks k) S =
     (let c = conns S ! k; (req, r1, w1) = socksRequest (lin c) (lout c);
          S1 = onConn k (\<lambda>c. c\<lparr>lin := r1, lout := w1\<rparr>) S
      in case req of
           SkDrop \<Rightarrow> Some (CFinished, [], localClose k S1)
         | SkOpen host port \<Rightarrow>
             (case openStart C X host port (cs S1) of
                (None, s2) \<Rightarrow> Some (CFinished, [], localClose k (snd (localWrite k [5, 1, 0, 1, 0, 0, 0, 0, 0, 0] (S1\<lparr>cs := s2\<rparr>))))
              | (Some (sno, r), s2) \<Rightarrow> Some (SocksWait k sno r, [], S1\<lparr>cs := s2\<rparr>)))"
| "handleSocks5 C X (SocksWait k sno r) S =
     (case openSelect (csel X) sno r (cs S) of
        None \<Rightarrow> None
      | Some (False, s1) \<Rightarrow> Some (CFinished, [], localClose k (snd (localWrite k [5, 1, 0, 1, 0, 0, 0, 0, 0, 0] (S\<lparr>cs := s1\<rparr>))))
      | Some (True, s1) \<Rightarrow>
          Some (SocksCopy k r, [Bridge k r], snd (localWrite k [5, 0, 0, 1, 0, 0, 0, 0, 0, 0] (S\<lparr>cs := s1\<rparr>))))"
| "handleSocks5 C X (SocksCopy k r) S =
     (case readStream r 32768 (cs S) of
        None \<Rightarrow> None
      | Some (None, s1) \<Rightarrow> Some (CFinished, [], localClose k (S\<lparr>cs := s1\<rparr>))
      | Some (Some out, s1) \<Rightarrow>
          let (ok, S1) = localWrite k out (S\<lparr>cs := s1\<rparr>)
          in if ok then Some (SocksCopy k r, [], S1) else Some (CFinished, [], localClose k S1))"
| "handleSocks5 C X _ S = None"

text \<open>The bridge; a failed \<open>acquireWindow\<close> or write leaves the inner loop only.\<close>

fun bridge :: "crypto \<Rightarrow> cstepin \<Rightarrow> cthread \<Rightarrow> cstate \<Rightarrow> cresult" where
  "bridge C X (Bridge k r) S =
     (let (buf, rd) = localRead (crd X) 16384 (lin (conns S ! k)); S1 = onConn k (\<lambda>c. c\<lparr>lin := rd, lread := lread c @ buf\<rparr>) S
      in if buf = [] then
           Some (CFinished, [], S1\<lparr>cs := snd (tc_writeStreamFrame C (crnd X) (cst_id (tobjs (cs S1) ! r)) typeClose [] (cs S1))\<rparr>)
         else Some (BridgeAcquire k r buf, [], S1))"
| "bridge C X (BridgeAcquire k r rest) S =
     (if rest = [] then Some (Bridge k r, [], S)
      else let chunk = min (length rest) tc_maxStreamPayloadV2
           in case acquireWindow r chunk (cs S) of
                None \<Rightarrow> None
              | Some (False, s1) \<Rightarrow> Some (Bridge k r, [], S\<lparr>cs := s1\<rparr>)
              | Some (True, s1) \<Rightarrow> Some (BridgeSend k r (take chunk rest) (drop chunk rest), [], S\<lparr>cs := s1\<rparr>))"
| "bridge C X (BridgeSend k r chunk rest) S =
     (let (ok, s1) = tc_writeStreamFrame C (crnd X) (cst_id (tobjs (cs S) ! r)) typeData chunk (cs S)
      in if ok then Some (BridgeAcquire k r rest, [], S\<lparr>cs := s1\<rparr>) else Some (Bridge k r, [], S\<lparr>cs := s1\<rparr>))"
| "bridge C X _ S = None"

section \<open>Runs of the client\<close>

definition cthreadStep :: "crypto \<Rightarrow> cstepin \<Rightarrow> cthread \<Rightarrow> cstate \<Rightarrow> cresult" where
  "cthreadStep C X t S =
     (case t of
        Socks _ \<Rightarrow> handleSocks5 C X t S
      | SocksWait _ _ _ \<Rightarrow> handleSocks5 C X t S
      | SocksCopy _ _ \<Rightarrow> handleSocks5 C X t S
      | Bridge _ _ \<Rightarrow> bridge C X t S
      | BridgeAcquire _ _ _ \<Rightarrow> bridge C X t S
      | BridgeSend _ _ _ _ \<Rightarrow> bridge C X t S
      | CFinished \<Rightarrow> None
      | _ \<Rightarrow> tc_readLoop C X t S)"

text \<open>\<open>runSocks5\<close> accepts local connections at any time and starts a handler for each.\<close>

definition acceptLocal :: "reader \<Rightarrow> writer \<Rightarrow> cstate \<Rightarrow> cstate" where
  "acceptLocal rd wr S = S\<lparr>conns := conns S @ [\<lparr>lin = rd, lout = wr, lread = []\<rparr>], cthreads := cthreads S @ [Socks (length (conns S))]\<rparr>"

inductive cstep :: "crypto \<Rightarrow> cstate \<Rightarrow> cstate \<Rightarrow> bool" for C :: crypto where
  run: "n < length (cthreads S) \<Longrightarrow> cthreadStep C X (cthreads S ! n) S = Some (t, ts, S1) \<Longrightarrow>
        cstep C S (S1\<lparr>cthreads := (cthreads S)[n := t] @ ts\<rparr>)"
| local: "cstep C S (acceptLocal rd wr S)"

inductive creach :: "crypto \<Rightarrow> cstate \<Rightarrow> bool" for C :: crypto where
  dialled: "dialSession C D host port psk sni = Inr s \<Longrightarrow> creach C \<lparr>cs = s, conns = [], cthreads = [CLoop]\<rparr>"
| step: "creach C S \<Longrightarrow> cstep C S S' \<Longrightarrow> creach C S'"

locale client_inv =
  fixes C :: crypto and I :: "cstate \<Rightarrow> bool"
  assumes inv_new: "I \<lparr>cs = tc_newSession rd wr kc ks, conns = [], cthreads = [CLoop]\<rparr>"
    and inv_run: "I S \<Longrightarrow> n < length (cthreads S) \<Longrightarrow> cthreadStep C X (cthreads S ! n) S = Some (t, ts, S1) \<Longrightarrow>
        I (S1\<lparr>cthreads := (cthreads S)[n := t] @ ts\<rparr>)"
    and inv_local: "I S \<Longrightarrow> I (acceptLocal rd wr S)"
begin

lemma always: "creach C S \<Longrightarrow> I S"
proof (induction rule: creach.induct)
  case (dialled D host port psk sni s)
  then have "\<exists>rd wr kc ks. s = tc_newSession rd wr kc ks"
    by (auto simp: dialSession_def Let_def split: if_splits option.splits prod.splits sum.splits)
  then show ?case using inv_new by auto
next
  case (step S S')
  from step.hyps(2) show ?case
  proof cases
    case (run n X t ts S1)
    then show ?thesis using inv_run step.IH by blast
  next
    case (local rd wr)
    then show ?thesis using inv_local step.IH by blast
  qed
qed

end

end
