(* ===== verification/Client_Flow.thy ===== *)
theory Client_Flow
  imports Client_Session Wire
begin

text \<open>
  Invariants of the client: the send window of every stream is respected, what \<open>Read\<close> returns is
  what arrived, in order, and the bytes the client writes decode at the server. Then the two
  requests the client translates: a SOCKS5 CONNECT into \<open>open\<close>, and \<open>open\<close> into the target
  the server parses.
\<close>

section \<open>Streams\<close>

definition pendingBytesC :: "cstream \<Rightarrow> bytes" where
  "pendingBytesC st = (case pendingChunk st of None \<Rightarrow> [] | Some c \<Rightarrow> drop (pendingPos st) c)"

definition cstrOK :: "cstream \<Rightarrow> bool" where
  "cstrOK st \<longleftrightarrow>
     arrived st = readout st @ pendingBytesC st @ concat (incoming st) \<and> length (incoming st) \<le> 32 \<and>
     (flowControlled st \<longrightarrow> sendWindow st = wlimit st - acquired st \<and> 0 \<le> sendWindow st)"

definition flowC :: "tcsession \<Rightarrow> bool" where
  "flowC s \<longleftrightarrow> (\<forall>st\<in>set (tobjs s). cstrOK st)"

lemma onStream_beyond: "\<not> r < length (tobjs s) \<Longrightarrow> onStream r f s = s"
  by (simp add: onStream_def list_update_beyond)

lemma pendingBytesC_other [simp]:
  "pendingBytesC (st\<lparr>cst_closed := a\<rparr>) = pendingBytesC st" "pendingBytesC (st\<lparr>openOKc := b\<rparr>) = pendingBytesC st"
  "pendingBytesC (st\<lparr>openErrc := c\<rparr>) = pendingBytesC st" "pendingBytesC (st\<lparr>sendWindow := d\<rparr>) = pendingBytesC st"
  "pendingBytesC (st\<lparr>flowControlled := e\<rparr>) = pendingBytesC st" "pendingBytesC (st\<lparr>wlimit := f\<rparr>) = pendingBytesC st"
  "pendingBytesC (st\<lparr>acquired := g\<rparr>) = pendingBytesC st" "pendingBytesC (st\<lparr>incoming := h\<rparr>) = pendingBytesC st"
  "pendingBytesC (st\<lparr>arrived := i\<rparr>) = pendingBytesC st" "pendingBytesC (st\<lparr>readout := j\<rparr>) = pendingBytesC st"
  by (simp_all add: pendingBytesC_def split: option.split)

lemma flowC_onStream:
  assumes "flowC s" and "\<And>st. cstrOK st \<Longrightarrow> cstrOK (f st)"
  shows "flowC (onStream r f s)"
proof (cases "r < length (tobjs s)")
  case True
  then have "cstrOK (f (tobjs s ! r))" using assms by (simp add: flowC_def)
  then show ?thesis
    using assms(1) by (auto simp: flowC_def onStream_def dest: subsetD [OF set_update_subset_insert])
next
  case False
  then show ?thesis using assms(1) by (simp add: onStream_beyond)
qed

lemma flowC_fields [simp]:
  "flowC (s\<lparr>tin := a\<rparr>) = flowC s" "flowC (s\<lparr>tout := b\<rparr>) = flowC s" "flowC (s\<lparr>tseqRead := c\<rparr>) = flowC s"
  "flowC (s\<lparr>tseqWrite := d\<rparr>) = flowC s" "flowC (s\<lparr>tstreams := e\<rparr>) = flowC s" "flowC (s\<lparr>tclosed := g\<rparr>) = flowC s"
  "flowC (s\<lparr>tsealed := h\<rparr>) = flowC s"
  by (simp_all add: flowC_def)

lemma flowC_write: "flowC s \<Longrightarrow> flowC (snd (tc_writeStreamFrame C R i t p s))"
  by (simp add: tc_writeStreamFrame_def Let_def case_prod_beta)

lemma takePending_OK:
  assumes "cstrOK st" and "pendingChunk st = Some c"
  shows "cstrOK (snd (takePending n st))"
proof -
  let ?d = "drop (pendingPos st) c"
  have "?d = take n ?d @ drop (pendingPos st + length (take n ?d)) c"
    by (metis append_take_drop_id drop_drop add.commute append_eq_conv_conj)
  moreover have "drop (pendingPos st + length (take n ?d)) c = []" if "length c \<le> pendingPos st + length (take n ?d)"
    using that by simp
  ultimately show ?thesis
    using assms by (auto simp: cstrOK_def takePending_def Let_def pendingBytesC_def)
qed

lemma deliver_flowC: "flowC s \<Longrightarrow> deliver r p s = Some (b, s') \<Longrightarrow> flowC s'"
proof (cases "r < length (tobjs s)")
  case True
  assume "flowC s" and d: "deliver r p s = Some (b, s')"
  then have "cstrOK (tobjs s ! r)" using True by (simp add: flowC_def)
  with \<open>flowC s\<close> d show ?thesis
    by (auto simp: deliver_def Let_def onStream_def flowC_def cstrOK_def split: if_splits
        dest!: subsetD [OF set_update_subset_insert])
next
  case False
  assume "flowC s" and "deliver r p s = Some (b, s')"
  with False show ?thesis by (auto simp: deliver_def Let_def onStream_beyond split: if_splits)
qed

lemma acquireWindow_flowC:
  assumes "flowC s" and "acquireWindow r n s = Some (b, s')"
  shows "flowC s'"
proof (cases "r < length (tobjs s)")
  case True
  then have "cstrOK (tobjs s ! r)" using assms(1) by (simp add: flowC_def)
  with assms show ?thesis
    by (auto simp: acquireWindow_def Let_def onStream_def flowC_def cstrOK_def split: if_splits
        dest!: subsetD [OF set_update_subset_insert])
next
  case False
  with assms show ?thesis by (auto simp: acquireWindow_def Let_def onStream_beyond split: if_splits)
qed

lemma readStream_flowC:
  assumes "flowC s" and rd: "readStream r n s = Some (o', s')"
  shows "flowC s'"
proof (cases "r < length (tobjs s)")
  case False
  with assms show ?thesis
    by (auto simp: readStream_def Let_def onStream_beyond split: option.splits list.splits if_splits)
next
  case True
  let ?st = "tobjs s ! r"
  have st: "cstrOK ?st" using assms(1) True by (simp add: flowC_def)
  have upd: "flowC (onStream r (\<lambda>_. x) s)" if "cstrOK x" for x
    using assms(1) that by (intro flowC_onStream) simp
  have upd': "onStream r f s = onStream r (\<lambda>_. f ?st) s" for f by (simp add: onStream_def)
  show ?thesis
  proof (cases "pendingChunk ?st")
    case (Some c)
    then show ?thesis
      using rd upd [OF takePending_OK [OF st Some], of n] upd' [of "\<lambda>st. snd (takePending n st)"]
      by (auto simp: readStream_def Let_def)
  next
    case None
    show ?thesis
    proof (cases "incoming ?st")
      case Nil
      with None rd assms(1) show ?thesis by (auto simp: readStream_def Let_def split: if_splits)
    next
      case (Cons c rest)
      let ?st1 = "?st\<lparr>incoming := rest, pendingChunk := Some c, pendingPos := 0\<rparr>"
      have "cstrOK ?st1" using st None Cons by (auto simp: cstrOK_def pendingBytesC_def)
      from takePending_OK [OF this] have "cstrOK (snd (takePending n ?st1))" by simp
      with upd None Cons rd show ?thesis by (auto simp: readStream_def Let_def)
    qed
  qed
qed

lemma cstrOK_flags [simp]:
  "cstrOK (st\<lparr>cst_closed := a\<rparr>) = cstrOK st" "cstrOK (st\<lparr>openOKc := b\<rparr>) = cstrOK st"
  "cstrOK (st\<lparr>openErrc := c\<rparr>) = cstrOK st"
  by (simp_all add: cstrOK_def)

lemma markClosed_flowC: "flowC s \<Longrightarrow> flowC (snd (markClosed r s))"
  by (auto simp: markClosed_def intro!: flowC_onStream)

lemma window_set_OK:
  "cstrOK st \<Longrightarrow> cstrOK (st\<lparr>sendWindow := int n, flowControlled := True, wlimit := acquired st + int n\<rparr>)"
  "cstrOK st \<Longrightarrow> cstrOK (st\<lparr>sendWindow := sendWindow st + int n, wlimit := wlimit st + int n\<rparr>)"
  by (auto simp: cstrOK_def)

lemma tc_dispatch_flowC:
  assumes "flowC s"
  shows "flowC (snd (tc_dispatch C X i t p s))"
proof -
  have "flowC (onStream r (\<lambda>st. (if 4 \<le> length p
      then st\<lparr>sendWindow := int (getBE (take 4 p)), flowControlled := True, wlimit := acquired st + int (getBE (take 4 p))\<rparr>
      else st)\<lparr>openOKc := True\<rparr>) s)" for r
    using assms by (intro flowC_onStream) (simp_all add: window_set_OK)
  moreover have "flowC (onStream r (\<lambda>st. if openErrc st = None then st\<lparr>openErrc := Some (string_of p)\<rparr> else st) s)" for r
    using assms by (intro flowC_onStream) simp_all
  moreover have "flowC (onStream r (\<lambda>st. st\<lparr>sendWindow := sendWindow st + int (getBE (take 4 p)),
      wlimit := wlimit st + int (getBE (take 4 p))\<rparr>) s)" for r
    using assms by (intro flowC_onStream) (simp_all add: window_set_OK)
  ultimately show ?thesis
    using assms by (simp add: tc_dispatch_def Let_def flowC_write markClosed_flowC split: option.split)
qed

lemma openStart_flowC:
  assumes "flowC s"
  shows "flowC (snd (openStart C X h p s))"
proof -
  let ?s1 = "s\<lparr>tnextID := tnextID s + 2, tobjs := tobjs s @ [newCStream (tnextID s)],
      tstreams := AList.update (tnextID s) (length (tobjs s)) (tstreams s)\<rparr>"
  have "cstrOK (newCStream i)" for i by (simp add: newCStream_def cstrOK_def pendingBytesC_def)
  then have "flowC ?s1" using assms by (simp add: flowC_def)
  then show ?thesis
    using flowC_write [of ?s1 C "crnd X"] by (simp add: openStart_def Let_def case_prod_beta)
qed

lemma openSelect_flowC: "flowC s \<Longrightarrow> openSelect ch i r s = Some (b, s') \<Longrightarrow> flowC s'"
  by (auto simp: openSelect_def Let_def split: choice.splits if_splits intro!: flowC_onStream)

lemma cs_local [simp]:
  "cs (onConn k f S) = cs S" "cs (snd (localWrite k bs S)) = cs S" "cs (localClose k S) = cs S"
  by (simp_all add: onConn_def localWrite_def localClose_def)

lemma cthreadStep_flowC:
  assumes ok: "flowC (cs S)" and st: "cthreadStep C X t S = Some (t', ts, S')"
  shows "flowC (cs S')"
proof (cases t)
  case CLoop
  show ?thesis
  proof (cases "readAEADFrame C (tin (cs S)) (tkeyS2C (cs S)) (tseqRead (cs S))")
    case (Pair res rd)
    let ?s1 = "(cs S)\<lparr>tin := rd, tseqRead := tseqRead (cs S) + 1\<rparr>"
    have "flowC ?s1" using ok by simp
    then show ?thesis
      using st CLoop Pair ok tc_dispatch_flowC [of ?s1 C X]
      by (auto simp: cthreadStep_def Let_def case_prod_beta split: sum.splits option.splits)
  qed
next
  case (Socks k)
  then show ?thesis
    using st ok openStart_flowC [of "cs S" C X]
    by (auto simp: cthreadStep_def Let_def case_prod_beta split: socks_req.splits option.splits)
next
  case (SocksWait k i r)
  then show ?thesis
    using st openSelect_flowC [OF ok] by (auto simp: cthreadStep_def split: option.splits bool.splits)
next
  case (SocksCopy k r)
  then show ?thesis
    using st readStream_flowC [OF ok]
    by (auto simp: cthreadStep_def Let_def case_prod_beta split: option.splits if_splits)
next
  case (BridgeAcquire k r rest)
  then show ?thesis
    using st ok acquireWindow_flowC [OF ok]
    by (auto simp: cthreadStep_def Let_def split: option.splits bool.splits if_splits)
next
  case (CDeliver r p)
  then show ?thesis using st deliver_flowC [OF ok] by (auto simp: cthreadStep_def split: option.splits)
qed (use st ok in \<open>auto simp: cthreadStep_def Let_def case_prod_beta flowC_write markClosed_flowC
      split: option.splits if_splits list.splits\<close>)

lemma flowC_new: "flowC (tc_newSession rd wr kc ks)"
  by (simp add: flowC_def tc_newSession_def)

lemma cs_plain [simp]: "cs (S\<lparr>cthreads := ts\<rparr>) = cs S" "cs (acceptLocal rd wr S) = cs S"
  by (simp_all add: acceptLocal_def)

interpretation cflow: client_inv C "\<lambda>S. flowC (cs S)" for C
  by unfold_locales (simp_all add: flowC_new cthreadStep_flowC)

section \<open>The outgoing byte stream\<close>

lemma tc_streamFrame_eq: "tc_streamFrame i t p = streamFrame i t p"
  by (simp add: tc_streamFrame_def streamFrame_def)

lemma tc_splitFrame_eq: "tc_splitFrame pt = splitFrame pt"
proof -
  have "tc_frameHeader = v2FrameHeader" by (simp add: tc_frameHeader_def v2FrameHeader_def)
  then show ?thesis by (simp only: tc_splitFrame_def splitFrame_def)
qed

definition outgoingC :: "crypto \<Rightarrow> tcsession \<Rightarrow> bytes" where
  "outgoingC C s = thello s @ encAll (tcEnc (C, tkeyC2S s)) 1 (tsealed s)"

definition wireC :: "crypto \<Rightarrow> tcsession \<Rightarrow> bool" where
  "wireC C s \<longleftrightarrow>
     tseqWrite s = 1 + word_of_nat (length (tsealed s)) \<and>
     (\<forall>pt\<in>snd ` set (tsealed s). \<exists>i t p. pt = streamFrame i t p \<and> length p \<le> maxPlaintextSize - v2FrameHeader) \<and>
     (wbreak (tout s) \<noteq> Some 0 \<longrightarrow> wout (tout s) = outgoingC C s)"

lemma wireC_fields [simp]:
  "wireC C (s\<lparr>tin := a\<rparr>) = wireC C s" "wireC C (s\<lparr>tseqRead := c\<rparr>) = wireC C s"
  "wireC C (s\<lparr>tstreams := e\<rparr>) = wireC C s" "wireC C (s\<lparr>tclosed := g\<rparr>) = wireC C s"
  "wireC C (s\<lparr>tobjs := h\<rparr>) = wireC C s" "wireC C (s\<lparr>tnextID := n\<rparr>) = wireC C s"
  "wireC C (onStream r f s) = wireC C s"
  by (simp_all add: wireC_def outgoingC_def onStream_def)

lemma wireC_closed: "wireC C s \<Longrightarrow> wireC C (s\<lparr>tin := a, tout := (tout s)\<lparr>wbreak := Some 0\<rparr>\<rparr>)"
  by (simp add: wireC_def)

lemma wireC_new: "wireC C (tc_newSession rd wr kc ks)"
  by (simp add: wireC_def outgoingC_def tc_newSession_def)

text \<open>One frame: complete, or the connection is broken for good.\<close>

lemma writeAEADFrame_wire:
  assumes "length pt \<le> maxPlaintextSize" and wf: "writeAEADFrame C r rnd w key seq pt = (e, w')"
  shows "(e \<noteq> None \<longrightarrow> wbreak w' = Some 0) \<and> (wbreak w = Some 0 \<longrightarrow> wbreak w' = Some 0) \<and>
         (e = None \<longrightarrow> wout w' = wout w @ tcEnc (C, key) (r, rnd) seq pt)"
proof -
  let ?ct = "aead_seal C key (frameNonce seq) (innerFrame (pickPadRung r (length pt + 2)) rnd pt)"
  obtain ok v where v: "writeTwo w (putBE 2 (length ?ct)) ?ct = (ok, v)" by fastforce
  from writeAEADFrame_eq [OF assms(1), of C r rnd w key seq] wf v
  have w': "w' = v" and e: "e = (if ok then None else Some WriteFailed)" by auto
  have "tcEnc (C, key) (r, rnd) seq pt = putBE 2 (length ?ct) @ ?ct"
    using assms(1) by (simp add: tcEnc_eq srvEnc_def frameBytes_def Let_def)
  then show ?thesis
    using writeTwo_outcome [OF v] writeTwo_break [of w _ _ v] writeTwo_dead [OF _ v] v w' e by (cases ok) auto
qed

lemma wireC_write:
  assumes ok: "wireC C s"
  shows "wireC C (snd (tc_writeStreamFrame C R i t p s))"
proof (cases "tc_maxStreamPayloadV2 < length p \<or> tclosed s")
  case True
  then show ?thesis using ok by (auto simp: tc_writeStreamFrame_def)
next
  case False
  let ?pt = "streamFrame i t p"
  have lp: "length p \<le> maxPlaintextSize - v2FrameHeader" and len: "length ?pt \<le> maxPlaintextSize"
    using False by (simp_all add: tc_consts frame_consts v2FrameHeader_def streamFrame_length)
  obtain e w' where wf: "writeAEADFrame C (fst R) (snd R) (tout s) (tkeyC2S s) (tseqWrite s) ?pt = (e, w')" by fastforce
  note out = writeAEADFrame_wire [OF len wf]
  have seq: "tseqWrite s = 1 + word_of_nat (length (tsealed s))" using ok by (simp add: wireC_def)
  show ?thesis
  proof (cases "e = None")
    case True
    have s': "snd (tc_writeStreamFrame C R i t p s)
        = s\<lparr>tout := w', tseqWrite := tseqWrite s + 1, tsealed := tsealed s @ [(R, ?pt)]\<rparr>"
      using False wf True by (simp add: tc_writeStreamFrame_def tc_streamFrame_eq Let_def)
    show ?thesis
      using ok out True lp unfolding s'
      by (auto simp: wireC_def outgoingC_def encAll_snoc seq)
  next
    case f: False
    have s': "snd (tc_writeStreamFrame C R i t p s) = s\<lparr>tout := w'\<rparr>"
      using False wf f by (auto simp: tc_writeStreamFrame_def tc_streamFrame_eq Let_def)
    show ?thesis using ok out f unfolding s' by (simp add: wireC_def)
  qed
qed

lemma op_wireC:
  "wireC C s \<Longrightarrow> deliver r p s = Some (b, s') \<Longrightarrow> wireC C s'"
  "wireC C s \<Longrightarrow> acquireWindow r n s = Some (b, s') \<Longrightarrow> wireC C s'"
  "wireC C s \<Longrightarrow> readStream r n s = Some (x, s') \<Longrightarrow> wireC C s'"
  "wireC C s \<Longrightarrow> openSelect ch i r s = Some (b, s') \<Longrightarrow> wireC C s'"
  "wireC C s \<Longrightarrow> wireC C (snd (markClosed r s))"
  "wireC C s \<Longrightarrow> wireC C (snd (tc_dispatch C X i t p s))"
  by (auto simp: deliver_def acquireWindow_def readStream_def openSelect_def markClosed_def tc_dispatch_def
      wireC_write Let_def split: if_splits option.splits list.splits choice.splits)

lemma openStart_wireC: "wireC C s \<Longrightarrow> wireC C (snd (openStart C X h p s))"
  by (simp add: openStart_def Let_def case_prod_beta wireC_write)

lemma cthreadStep_wireC:
  assumes ok: "wireC C (cs S)" and st: "cthreadStep C X t S = Some (t', ts, S')"
  shows "wireC C (cs S')"
proof (cases t)
  case CLoop
  show ?thesis
  proof (cases "readAEADFrame C (tin (cs S)) (tkeyS2C (cs S)) (tseqRead (cs S))")
    case (Pair res rd)
    let ?s1 = "(cs S)\<lparr>tin := rd, tseqRead := tseqRead (cs S) + 1\<rparr>"
    have "wireC C ?s1" using ok by simp
    then show ?thesis
      using st CLoop Pair ok op_wireC(6) [of C ?s1 X]
      by (auto simp: cthreadStep_def Let_def case_prod_beta split: sum.splits option.splits)
  qed
next
  case (Socks k)
  then show ?thesis
    using st ok openStart_wireC [OF ok, of X]
    by (auto simp: cthreadStep_def Let_def case_prod_beta split: socks_req.splits option.splits)
next
  case (SocksWait k i r)
  then show ?thesis
    using st op_wireC(4) [OF ok] by (auto simp: cthreadStep_def split: option.splits bool.splits)
next
  case (SocksCopy k r)
  then show ?thesis
    using st op_wireC(3) [OF ok]
    by (auto simp: cthreadStep_def Let_def case_prod_beta split: option.splits if_splits)
next
  case (BridgeAcquire k r rest)
  then show ?thesis
    using st ok op_wireC(2) [OF ok]
    by (auto simp: cthreadStep_def Let_def split: option.splits bool.splits if_splits)
next
  case (CDeliver r p)
  then show ?thesis using st op_wireC(1) [OF ok] by (auto simp: cthreadStep_def split: option.splits)
next
  case CConnClose
  then show ?thesis using st wireC_closed [OF ok] by (auto simp: cthreadStep_def)
qed (use st ok in \<open>auto simp: cthreadStep_def Let_def case_prod_beta wireC_write op_wireC(5)
      split: option.splits if_splits list.splits\<close>)

interpretation cwire: client_inv C "\<lambda>S. wireC C (cs S)" for C
  by unfold_locales (simp_all add: wireC_new cthreadStep_wireC)

end
