(* ===== verification/Client_Upload.thy ===== *)
theory Client_Upload
  imports Client_Flow
begin

text \<open>
  Uploads through the client: the DATA frames a bridge writes on its stream carry, in order and
  without gaps, the bytes read from its local connection, and never more of them than the
  window has allowed. Both need that a stream and a local connection have one bridge only.
\<close>

section \<open>The data of a stream\<close>

definition dataIn :: "u32 \<Rightarrow> bytes \<Rightarrow> bytes" where
  "dataIn i pt =
     (case splitFrame pt of Some (j, t, p) \<Rightarrow> if j = i \<and> t = v2TypeData then p else [] | None \<Rightarrow> [])"

definition dataOf :: "u32 \<Rightarrow> ('r \<times> bytes) list \<Rightarrow> bytes" where
  "dataOf i fs = concat (map (dataIn i \<circ> snd) fs)"

lemma dataOf_Nil [simp]: "dataOf i [] = []"
  by (simp add: dataOf_def)

lemma dataOf_snoc [simp]: "dataOf i (fs @ [f]) = dataOf i fs @ dataIn i (snd f)"
  by (simp add: dataOf_def)

lemma typeData_eq: "typeData = v2TypeData"
  by (simp add: typeData_def v2TypeData_def)

lemma dataIn_frame:
  "length p \<le> maxPlaintextSize - v2FrameHeader \<Longrightarrow>
   dataIn i (streamFrame j t p) = (if j = i \<and> t = v2TypeData then p else [])"
  by (simp add: dataIn_def splitFrame_streamFrame)

text \<open>The outcome of a write, in the fields uploads depend on.\<close>

definition lostS :: "tcsession \<Rightarrow> nat \<Rightarrow> bool" where
  "lostS s r \<longleftrightarrow> cst_closed (tobjs s ! r) \<or> tclosed s \<or> wbreak (tout s) = Some 0"

lemma tc_write_outcome:
  assumes w: "tc_writeStreamFrame C R i t p s = (ok, s')"
  shows "tobjs s' = tobjs s" "tclosed s' = tclosed s" "tstreams s' = tstreams s"
    and "wbreak (tout s) = Some 0 \<Longrightarrow> wbreak (tout s') = Some 0"
    and "dataOf j (tsealed s') = dataOf j (tsealed s) @ (if ok \<and> i = j \<and> t = v2TypeData then p else [])"
    and "\<not> ok \<Longrightarrow> length p \<le> tc_maxStreamPayloadV2 \<Longrightarrow> tclosed s' \<or> wbreak (tout s') = Some 0"
proof -
  let ?pt = "streamFrame i t p"
  obtain e w' where wf: "writeAEADFrame C (fst R) (snd R) (tout s) (tkeyC2S s) (tseqWrite s) ?pt = (e, w')" by fastforce
  have lp: "length p \<le> maxPlaintextSize - v2FrameHeader" and len: "length ?pt \<le> maxPlaintextSize"
    if "length p \<le> tc_maxStreamPayloadV2"
    using that by (simp_all add: tc_consts frame_consts v2FrameHeader_def streamFrame_length)
  note out = writeAEADFrame_wire [OF _ wf]
  show "tobjs s' = tobjs s" "tclosed s' = tclosed s" "tstreams s' = tstreams s"
    using w by (auto simp: tc_writeStreamFrame_def Let_def split: if_splits prod.splits)
  show "wbreak (tout s) = Some 0 \<Longrightarrow> wbreak (tout s') = Some 0"
    and "dataOf j (tsealed s') = dataOf j (tsealed s) @ (if ok \<and> i = j \<and> t = v2TypeData then p else [])"
    and "\<not> ok \<Longrightarrow> length p \<le> tc_maxStreamPayloadV2 \<Longrightarrow> tclosed s' \<or> wbreak (tout s') = Some 0"
    using w wf out len dataIn_frame [OF lp, of j i t]
    by (auto simp: tc_writeStreamFrame_def tc_streamFrame_eq Let_def split: if_splits)
qed

lemma tc_write_nextID: "tnextID (snd (tc_writeStreamFrame C R i t p s)) = tnextID s"
  by (simp add: tc_writeStreamFrame_def Let_def case_prod_beta)

section \<open>Owners\<close>

fun bowner :: "cthread \<Rightarrow> nat option" where
  "bowner (SocksWait k i r) = Some r"
| "bowner (Bridge k r) = Some r"
| "bowner (BridgeAcquire k r rest) = Some r"
| "bowner (BridgeSend k r ch rest) = Some r"
| "bowner _ = None"

fun lowner :: "cthread \<Rightarrow> nat option" where
  "lowner (Socks k) = Some k"
| "lowner (SocksWait k i r) = Some k"
| "lowner (Bridge k r) = Some k"
| "lowner (BridgeAcquire k r rest) = Some k"
| "lowner (BridgeSend k r ch rest) = Some k"
| "lowner _ = None"

fun heldBytes :: "cthread \<Rightarrow> bytes" where
  "heldBytes (BridgeAcquire k r rest) = rest"
| "heldBytes (BridgeSend k r ch rest) = ch @ rest"
| "heldBytes _ = []"

fun inflight :: "cthread \<Rightarrow> bytes" where
  "inflight (BridgeSend k r ch rest) = ch"
| "inflight _ = []"

abbreviation sentOn :: "tcsession \<Rightarrow> nat \<Rightarrow> bytes" where
  "sentOn s r \<equiv> dataOf (cst_id (tobjs s ! r)) (tsealed s)"

definition threadUp :: "cstate \<Rightarrow> cthread \<Rightarrow> bool" where
  "threadUp S t \<longleftrightarrow>
     (\<forall>k. lowner t = Some k \<longrightarrow> k < length (conns S)) \<and>
     (\<forall>r. bowner t = Some r \<longrightarrow> r < length (tobjs (cs S)) \<and>
        int (length (sentOn (cs S) r)) + int (length (inflight t)) \<le> acquired (tobjs (cs S) ! r)) \<and>
     (\<forall>k r. lowner t = Some k \<and> bowner t = Some r \<and> \<not> lostS (cs S) r \<longrightarrow>
        lread (conns S ! k) = sentOn (cs S) r @ heldBytes t) \<and>
     (\<forall>k. lowner t = Some k \<and> bowner t = None \<longrightarrow> lread (conns S ! k) = []) \<and>
     length (inflight t) \<le> tc_maxStreamPayloadV2"

definition uploadOK :: "cstate \<Rightarrow> bool" where
  "uploadOK S \<longleftrightarrow>
     distinct (List.map_filter bowner (cthreads S)) \<and> distinct (List.map_filter lowner (cthreads S)) \<and>
     (\<forall>t\<in>set (cthreads S). threadUp S t) \<and>
     (\<forall>r < length (tobjs (cs S)). int (length (sentOn (cs S) r)) \<le> acquired (tobjs (cs S) ! r)) \<and>
     (\<forall>i. i \<notin> cst_id ` set (tobjs (cs S)) \<longrightarrow> dataOf i (tsealed (cs S)) = [])"

section \<open>What a step may change\<close>

text \<open>
  \<open>apart ro ko\<close>: a step touches the window and the data of stream \<open>ro\<close> and the local
  connection \<open>ko\<close> at most, and may add streams.
\<close>

definition apart :: "nat option \<Rightarrow> nat option \<Rightarrow> cstate \<Rightarrow> cstate \<Rightarrow> bool" where
  "apart ro ko S S' \<longleftrightarrow>
     length (tobjs (cs S)) \<le> length (tobjs (cs S')) \<and>
     (\<forall>r < length (tobjs (cs S)). cst_id (tobjs (cs S') ! r) = cst_id (tobjs (cs S) ! r) \<and>
        (lostS (cs S) r \<longrightarrow> lostS (cs S') r) \<and>
        (ro \<noteq> Some r \<longrightarrow> acquired (tobjs (cs S') ! r) = acquired (tobjs (cs S) ! r) \<and>
           sentOn (cs S') r = sentOn (cs S) r)) \<and>
     (\<forall>r. length (tobjs (cs S)) \<le> r \<and> r < length (tobjs (cs S')) \<longrightarrow> acquired (tobjs (cs S') ! r) = 0) \<and>
     (\<forall>i. i \<notin> cst_id ` set (tobjs (cs S)) \<longrightarrow> dataOf i (tsealed (cs S')) = dataOf i (tsealed (cs S))) \<and>
     length (conns S') = length (conns S) \<and>
     (\<forall>k < length (conns S). ko \<noteq> Some k \<longrightarrow> lread (conns S' ! k) = lread (conns S ! k))"

text \<open>Steps of the session that touch no window and write no data.\<close>

definition calmS :: "tcsession \<Rightarrow> tcsession \<Rightarrow> bool" where
  "calmS s s' \<longleftrightarrow>
     tnextID s' = tnextID s \<and> length (tobjs s') = length (tobjs s) \<and>
     (\<forall>r < length (tobjs s). cst_id (tobjs s' ! r) = cst_id (tobjs s ! r) \<and>
        acquired (tobjs s' ! r) = acquired (tobjs s ! r) \<and> (cst_closed (tobjs s ! r) \<longrightarrow> cst_closed (tobjs s' ! r))) \<and>
     (tclosed s \<longrightarrow> tclosed s') \<and> (wbreak (tout s) = Some 0 \<longrightarrow> wbreak (tout s') = Some 0) \<and>
     (\<forall>i. dataOf i (tsealed s') = dataOf i (tsealed s))"

lemma calmS_refl: "calmS s s"
  by (simp add: calmS_def)

lemma calmS_trans: "calmS s s1 \<Longrightarrow> calmS s1 s2 \<Longrightarrow> calmS s s2"
  by (simp add: calmS_def)

lemma calmS_onStream:
  assumes "\<And>st. cst_id (f st) = cst_id st \<and> acquired (f st) = acquired st \<and> (cst_closed st \<longrightarrow> cst_closed (f st))"
  shows "calmS s (onStream r f s)"
proof -
  have "cst_id ((tobjs s)[r := f (tobjs s ! r)] ! k) = cst_id (tobjs s ! k) \<and>
      acquired ((tobjs s)[r := f (tobjs s ! r)] ! k) = acquired (tobjs s ! k) \<and>
      (cst_closed (tobjs s ! k) \<longrightarrow> cst_closed ((tobjs s)[r := f (tobjs s ! r)] ! k))" if "k < length (tobjs s)" for k
    using assms that by (cases "k = r") auto
  then show ?thesis by (simp add: calmS_def onStream_def)
qed

lemma calmS_write: "t \<noteq> v2TypeData \<Longrightarrow> calmS s (snd (tc_writeStreamFrame C R i t p s))"
  using tc_write_outcome [of C R i t p s] tc_write_nextID [of C R i t p s] by (cases "tc_writeStreamFrame C R i t p s") (auto simp: calmS_def)

lemma calmS_deliver: "deliver r p s = Some (b, s') \<Longrightarrow> calmS s s'"
  by (auto simp: deliver_def Let_def calmS_refl intro!: calmS_onStream split: if_splits)

lemma calmS_markClosed: "calmS s (snd (markClosed r s))"
  by (auto simp: markClosed_def calmS_refl intro!: calmS_onStream)

lemma calmS_fields: "calmS s s' \<Longrightarrow> calmS s (s'\<lparr>tstreams := m\<rparr>)"
  by (simp add: calmS_def)

lemma takePending_same:
  "cst_id (snd (takePending n st)) = cst_id st" "acquired (snd (takePending n st)) = acquired st"
  "cst_closed (snd (takePending n st)) = cst_closed st"
  by (simp_all add: takePending_def Let_def)

lemma calmS_readStream:
  assumes "readStream r n s = Some (x, s')"
  shows "calmS s s'"
proof -
  have "calmS s (onStream r (\<lambda>_. snd (takePending n st)) s)"
    if "cst_id st = cst_id (tobjs s ! r)" "acquired st = acquired (tobjs s ! r)" "cst_closed st = cst_closed (tobjs s ! r)" for st
  proof -
    have "onStream r (\<lambda>_. snd (takePending n st)) s
        = onStream r (\<lambda>y. if y = tobjs s ! r then snd (takePending n st) else y) s"
      by (simp add: onStream_def)
    then show ?thesis using that by (auto simp: takePending_same intro!: calmS_onStream)
  qed
  moreover have "calmS s (onStream r (\<lambda>st. snd (takePending n st)) s)"
    by (rule calmS_onStream) (simp add: takePending_same)
  ultimately show ?thesis
    using assms by (auto simp: readStream_def Let_def calmS_refl split: option.splits list.splits if_splits)
qed

lemma calmS_openSelect:
  assumes "openSelect ch i r s = Some (b, s')"
  shows "calmS s s'"
proof -
  have d: "calmS s (s\<lparr>tstreams := m\<rparr>)" for m by (simp add: calmS_def)
  have e: "calmS s (onStream r (\<lambda>st. st\<lparr>openErrc := None\<rparr>) (s\<lparr>tstreams := m\<rparr>))" for m
    by (rule calmS_trans [OF d calmS_onStream]) simp
  have f: "calmS s (onStream r (\<lambda>st. st\<lparr>openOKc := False\<rparr>) s)" by (rule calmS_onStream) simp
  show ?thesis
    using assms d e f by (cases ch) (auto simp: openSelect_def Let_def split: if_splits)
qed

lemma calmS_dispatch: "calmS s (snd (tc_dispatch C X i t p s))"
  by (auto simp: tc_dispatch_def Let_def calmS_refl calmS_fields calmS_markClosed calmS_write tc_types v2_types
      intro!: calmS_onStream split: option.split)

lemma calmS_apart:
  assumes "calmS (cs S) (cs S')" and "map lread (conns S') = map lread (conns S)"
  shows "apart ro ko S S'"
proof -
  have "length (conns S') = length (conns S)" using assms(2) by (metis length_map)
  moreover have "lread (conns S' ! k) = lread (conns S ! k)" if "k < length (conns S)" for k
    using assms(2) that calculation by (metis nth_map)
  ultimately show ?thesis using assms(1) by (auto simp: apart_def calmS_def lostS_def)
qed

lemma lread_onConn: "(\<And>c. lread (f c) = lread c) \<Longrightarrow> map lread (conns (onConn k f S)) = map lread (conns S)"
  by (cases "k < length (conns S)")
    (simp_all add: onConn_def map_update list_update_beyond list_update_same_conv)

lemma lread_local [simp]:
  "map lread (conns (snd (localWrite k bs S))) = map lread (conns S)"
  "map lread (conns (localClose k S)) = map lread (conns S)"
  by (simp_all add: localWrite_def localClose_def lread_onConn)

section \<open>One step\<close>

lemma threadUp_apart:
  assumes "apart ro ko S S'" and "threadUp S v" and "\<And>r. bowner v = Some r \<Longrightarrow> ro \<noteq> Some r"
    and "\<And>k. lowner v = Some k \<Longrightarrow> ko \<noteq> Some k"
  shows "threadUp S' v"
  using assms unfolding threadUp_def apart_def by (auto 4 4)

definition goodStep :: "cthread \<Rightarrow> cstate \<Rightarrow> cthread list \<Rightarrow> cstate \<Rightarrow> bool" where
  "goodStep u S ts S' \<longleftrightarrow>
     apart (bowner u) (lowner u) S S' \<and> (\<forall>v\<in>set ts. threadUp S' v) \<and>
     length (List.map_filter bowner ts) \<le> 1 \<and> length (List.map_filter lowner ts) \<le> 1 \<and>
     (\<forall>v\<in>set ts. \<forall>r. bowner v = Some r \<longrightarrow> bowner u = Some r \<or> length (tobjs (cs S)) \<le> r) \<and>
     (\<forall>v\<in>set ts. \<forall>k. lowner v = Some k \<longrightarrow> lowner u = Some k) \<and>
     (\<forall>r. bowner u = Some r \<longrightarrow> int (length (sentOn (cs S') r)) \<le> acquired (tobjs (cs S') ! r))"

lemma set_map_filter: "x \<in> set (List.map_filter f xs) \<longleftrightarrow> (\<exists>v\<in>set xs. f v = Some x)"
  by (force simp: List.map_filter_def)

lemma map_filter_append: "List.map_filter f (xs @ ys) = List.map_filter f xs @ List.map_filter f ys"
  by (simp add: List.map_filter_def)

lemma map_filter_Cons: "List.map_filter f (x # xs) = (case f x of None \<Rightarrow> [] | Some y \<Rightarrow> [y]) @ List.map_filter f xs"
  by (auto simp: List.map_filter_def)

text \<open>Replacing the owner of something by at most one owner of the same thing or of a new one.\<close>

lemma distinct_replace:
  assumes d: "distinct (List.map_filter f (xs @ u # ys))" and l: "length (List.map_filter f (t # ts)) \<le> 1"
    and o: "\<And>v x. v \<in> set (t # ts) \<Longrightarrow> f v = Some x \<Longrightarrow> f u = Some x \<or> x \<notin> set (List.map_filter f (xs @ u # ys))"
  shows "distinct (List.map_filter f (xs @ t # ys @ ts))"
proof -
  let ?m = "List.map_filter f"
  have d': "distinct (?m xs @ ?m ys)" and u: "f u = Some x \<Longrightarrow> x \<notin> set (?m xs @ ?m ys)" for x
    using d by (auto simp: map_filter_append map_filter_Cons split: option.splits)
  have n: "x \<notin> set (?m xs @ ?m ys)" if x: "x \<in> set (?m (t # ts))" for x
  proof -
    from x obtain v where "v \<in> set (t # ts)" "f v = Some x" unfolding set_map_filter by blast
    moreover have "set (?m xs @ ?m ys) \<subseteq> set (?m (xs @ u # ys))" by (auto simp: set_map_filter)
    ultimately show ?thesis using o u by blast
  qed
  show ?thesis
  proof (cases "f t")
    case None
    moreover have "distinct (?m ts)" using l None by (cases "?m ts") (auto simp: map_filter_Cons)
    ultimately show ?thesis using d' n by (auto simp: map_filter_append map_filter_Cons)
  next
    case (Some y)
    then have "?m ts = []" using l by (simp add: map_filter_Cons)
    with Some show ?thesis using d' n by (auto simp: map_filter_append map_filter_Cons)
  qed
qed

lemma threadUp_plain: "threadUp (S\<lparr>cthreads := ts\<rparr>) v = threadUp S v"
  by (simp add: threadUp_def)

lemma uploadOK_goodStep:
  assumes ok: "uploadOK S" and thr: "cthreads S = xs @ u # ys" and g: "goodStep u S (t # ts) S1"
    and ids: "distinct (map cst_id (tobjs (cs S1)))"
  shows "uploadOK (S1\<lparr>cthreads := xs @ t # ys @ ts\<rparr>)"
proof -
  have ap: "apart (bowner u) (lowner u) S S1" using g by (simp add: goodStep_def)
  have up: "threadUp S v" if "v \<in> set (xs @ u # ys)" for v using ok that unfolding uploadOK_def thr by blast
  have db: "distinct (List.map_filter bowner (xs @ u # ys))" and dl: "distinct (List.map_filter lowner (xs @ u # ys))"
    using ok thr by (simp_all add: uploadOK_def)
  have old: "r < length (tobjs (cs S))" if "r \<in> set (List.map_filter bowner (xs @ u # ys))" for r
    using that up unfolding set_map_filter threadUp_def by blast
  have l: "length (List.map_filter bowner (t # ts)) \<le> 1" "length (List.map_filter lowner (t # ts)) \<le> 1"
    and b: "\<And>v r. v \<in> set (t # ts) \<Longrightarrow> bowner v = Some r \<Longrightarrow> bowner u = Some r \<or> length (tobjs (cs S)) \<le> r"
    and k: "\<And>v k. v \<in> set (t # ts) \<Longrightarrow> lowner v = Some k \<Longrightarrow> lowner u = Some k"
    using g unfolding goodStep_def by blast+
  have "distinct (List.map_filter bowner (xs @ t # ys @ ts))"
    by (rule distinct_replace [OF db l(1)]) (meson b old leD)
  moreover have "distinct (List.map_filter lowner (xs @ t # ys @ ts))"
    by (rule distinct_replace [OF dl l(2)]) (use k in blast)
  moreover have "threadUp S1 v" if "v \<in> set (xs @ ys)" for v
  proof (rule threadUp_apart [OF ap up])
    show "v \<in> set (xs @ u # ys)" using that by auto
    show "bowner u \<noteq> Some r" if "bowner v = Some r" for r
      using that \<open>v \<in> set (xs @ ys)\<close> db by (force simp: map_filter_append map_filter_Cons set_map_filter)
    show "lowner u \<noteq> Some k" if "lowner v = Some k" for k
      using that \<open>v \<in> set (xs @ ys)\<close> dl by (force simp: map_filter_append map_filter_Cons set_map_filter)
  qed
  moreover have new: "dataOf i (tsealed (cs S1)) = []" if "i \<notin> cst_id ` set (tobjs (cs S))" for i
    using that ap ok by (simp add: apart_def uploadOK_def)
  have sub: "cst_id ` set (tobjs (cs S)) \<subseteq> cst_id ` set (tobjs (cs S1))"
  proof
    fix i assume "i \<in> cst_id ` set (tobjs (cs S))"
    then obtain r where "r < length (tobjs (cs S))" "i = cst_id (tobjs (cs S) ! r)" by (auto simp: in_set_conv_nth)
    then have "r < length (tobjs (cs S1))" "i = cst_id (tobjs (cs S1) ! r)" using ap by (auto simp: apart_def)
    then show "i \<in> cst_id ` set (tobjs (cs S1))" by simp
  qed
  have "int (length (sentOn (cs S1) r)) \<le> acquired (tobjs (cs S1) ! r)" if r: "r < length (tobjs (cs S1))" for r
  proof (cases "r < length (tobjs (cs S))")
    case True
    then show ?thesis
      using ap ok g by (cases "bowner u = Some r") (auto simp: apart_def goodStep_def uploadOK_def)
  next
    case False
    have "cst_id (tobjs (cs S1) ! r) \<notin> cst_id ` set (tobjs (cs S))"
    proof
      assume "cst_id (tobjs (cs S1) ! r) \<in> cst_id ` set (tobjs (cs S))"
      then obtain q where q: "q < length (tobjs (cs S))" "cst_id (tobjs (cs S1) ! r) = cst_id (tobjs (cs S) ! q)"
        by (auto simp: in_set_conv_nth)
      then have "map cst_id (tobjs (cs S1)) ! r = map cst_id (tobjs (cs S1)) ! q" and "q < length (tobjs (cs S1))"
        using ap r by (auto simp: apart_def)
      with nth_eq_iff_index_eq [OF ids, of r q] r q False show False by simp
    qed
    then show ?thesis using new ap False r by (simp add: apart_def)
  qed
  moreover have "\<forall>v\<in>set (t # ts). threadUp S1 v" using g by (simp add: goodStep_def)
  ultimately have "\<forall>v\<in>set (xs @ t # ys @ ts). threadUp S1 v" and "\<forall>r < length (tobjs (cs S1)).
      int (length (sentOn (cs S1) r)) \<le> acquired (tobjs (cs S1) ! r)"
    and d: "distinct (List.map_filter bowner (xs @ t # ys @ ts))" "distinct (List.map_filter lowner (xs @ t # ys @ ts))"
    by auto
  moreover have "\<forall>i. i \<notin> cst_id ` set (tobjs (cs S1)) \<longrightarrow> dataOf i (tsealed (cs S1)) = []" using new sub by blast
  ultimately show ?thesis by (simp only: uploadOK_def threadUp_plain) simp
qed

section \<open>The steps of the client\<close>

lemma goodStep_calm:
  assumes "calmS (cs S) (cs S')" and "map lread (conns S') = map lread (conns S)" and "bowner t = None" and "lowner t = None"
    and "threadUp S u"
  shows "goodStep u S [t] S'"
proof -
  have "inflight t = []" using assms(3) by (cases t) auto
  moreover have "int (length (sentOn (cs S') r)) \<le> acquired (tobjs (cs S') ! r)" if "bowner u = Some r" for r
    using assms(1,5) that unfolding threadUp_def calmS_def by (cases "r < length (tobjs (cs S))") auto
  ultimately show ?thesis
    using calmS_apart [OF assms(1,2)] assms(3,4)
    by (auto simp: goodStep_def threadUp_def map_filter_Cons List.map_filter_def)
qed

lemma dispatch_no_owner: "bowner (fst (tc_dispatch C X i t p s)) = None" "lowner (fst (tc_dispatch C X i t p s)) = None"
  by (auto simp: tc_dispatch_def split: option.split)

lemma readLoop_good:
  assumes up: "threadUp S u" and st: "tc_readLoop C X u S = Some (t, ts, S1)"
  shows "goodStep u S (t # ts) S1"
proof -
  have calm: "calmS (cs S) (cs S1) \<and> conns S1 = conns S \<and> bowner t = None \<and> lowner t = None \<and> ts = []"
  proof (cases u)
    case CLoop
    obtain res rd where rf: "readAEADFrame C (tin (cs S)) (tkeyS2C (cs S)) (tseqRead (cs S)) = (res, rd)" by fastforce
    have a: "calmS (cs S) ((cs S)\<lparr>tin := rd\<rparr>)" and b: "calmS (cs S) ((cs S)\<lparr>tin := rd, tseqRead := tseqRead (cs S) + 1\<rparr>)"
      by (simp_all add: calmS_def)
    show ?thesis
      using st CLoop rf a b calmS_trans [OF b calmS_dispatch] dispatch_no_owner
      by (auto simp: Let_def case_prod_beta split: sum.splits option.splits)
  next
    case (CDeliver r p)
    then show ?thesis using st calmS_deliver by (auto split: option.splits)
  next
    case (CRange ks)
    then show ?thesis using st by (auto simp: calmS_refl calmS_markClosed split: list.splits option.splits)
  next
    case CClose
    then show ?thesis using st by (auto simp: calmS_def split: if_splits)
  next
    case CConnClose
    then show ?thesis using st by (auto simp: calmS_def)
  qed (use st in auto)
  then show ?thesis using goodStep_calm [of S S1 t u] up by simp
qed

lemma openStart_outcome:
  assumes "openStart C X h p s = (x, s')"
  shows "tobjs s' = tobjs s @ [newCStream (tnextID s)]" "tclosed s' = tclosed s"
    and "wbreak (tout s) = Some 0 \<Longrightarrow> wbreak (tout s') = Some 0" and "dataOf i (tsealed s') = dataOf i (tsealed s)"
    and "x = Some (j, r) \<Longrightarrow> r = length (tobjs s)"
proof -
  let ?s1 = "s\<lparr>tnextID := tnextID s + 2, tobjs := tobjs s @ [newCStream (tnextID s)],
      tstreams := AList.update (tnextID s) (length (tobjs s)) (tstreams s)\<rparr>"
  obtain ok s2 where w: "tc_writeStreamFrame C (crnd X) (tnextID s) typeOpen (openTarget h p) ?s1 = (ok, s2)" by fastforce
  have t: "typeOpen \<noteq> v2TypeData" by (simp add: typeOpen_def v2TypeData_def)
  note out = tc_write_outcome [OF w]
  show "tobjs s' = tobjs s @ [newCStream (tnextID s)]" "tclosed s' = tclosed s"
    "wbreak (tout s) = Some 0 \<Longrightarrow> wbreak (tout s') = Some 0" "dataOf i (tsealed s') = dataOf i (tsealed s)"
    "x = Some (j, r) \<Longrightarrow> r = length (tobjs s)"
    using assms w out t by (auto simp: openStart_def Let_def split: if_splits)
qed

lemma openStart_apart:
  assumes "openStart C X h p (cs S) = (x, cs S')" and "map lread (conns S') = map lread (conns S)"
  shows "apart ro ko S S'"
proof -
  note out = openStart_outcome [OF assms(1)]
  have "length (conns S') = length (conns S)" using assms(2) by (metis length_map)
  moreover have "lread (conns S' ! k) = lread (conns S ! k)" if "k < length (conns S)" for k
    using assms(2) that calculation by (metis nth_map)
  ultimately show ?thesis
    using out by (auto simp: apart_def lostS_def nth_append newCStream_def less_Suc_eq)
qed

lemma socks_good:
  assumes up: "threadUp S (Socks k)" and st: "handleSocks5 C X (Socks k) S = Some (t, ts, S1)"
    and ids: "distinct (map cst_id (tobjs (cs S1)))"
    and fresh: "\<And>i. i \<notin> cst_id ` set (tobjs (cs S)) \<Longrightarrow> dataOf i (tsealed (cs S)) = []"
  shows "goodStep (Socks k) S (t # ts) S1"
proof -
  obtain req r1 w1 where rq: "socksRequest (lin (conns S ! k)) (lout (conns S ! k)) = (req, r1, w1)" by (metis prod_cases3)
  define T where "T = onConn k (\<lambda>c. c\<lparr>lin := r1, lout := w1\<rparr>) S"
  have T: "cs T = cs S" "map lread (conns T) = map lread (conns S)"
    by (simp_all add: T_def lread_onConn)
  show ?thesis
  proof (cases req)
    case SkDrop
    then have "t = CFinished" "ts = []" "S1 = localClose k T" using st rq by (auto simp: T_def)
    then show ?thesis using goodStep_calm [of S S1 t "Socks k"] T up by (simp add: calmS_refl)
  next
    case (SkOpen h p)
    obtain x s2 where op: "openStart C X h p (cs T) = (x, s2)" by fastforce
    then have op': "openStart C X h p (cs S) = (x, s2)" using T by simp
    show ?thesis
    proof (cases x)
      case None
      then have s1: "t = CFinished" "ts = []" "cs S1 = s2" "map lread (conns S1) = map lread (conns S)"
        using st rq SkOpen op T by (auto simp: T_def [symmetric])
      have "apart (bowner (Socks k)) (lowner (Socks k)) S S1"
        using openStart_apart [of C X h p S x S1] op' s1 by simp
      then show ?thesis using s1 by (simp add: goodStep_def threadUp_def map_filter_Cons List.map_filter_def)
    next
      case (Some ir)
      obtain i r where ir: "ir = (i, r)" by fastforce
      from st rq SkOpen op' Some ir have s1: "t = SocksWait k i r" "ts = []" "S1 = T\<lparr>cs := s2\<rparr>"
        by (auto simp: T_def [symmetric])
      note out = openStart_outcome [OF op']
      have r: "r = length (tobjs (cs S))" using out(5) Some ir by simp
      have ap: "apart (bowner (Socks k)) (lowner (Socks k)) S S1"
        using openStart_apart [of C X h p S x S1] op' s1 T by simp
      have "tnextID (cs S) \<notin> cst_id ` set (tobjs (cs S))"
        using ids out(1) s1 by (auto simp: newCStream_def)
      then have d: "dataOf (tnextID (cs S)) (tsealed s2) = []" using fresh out(4) by simp
      have k: "k < length (conns S)" "lread (conns S ! k) = []" using up by (auto simp: threadUp_def)
      have "length (conns T) = length (conns S)" using T(2) by (metis length_map)
      then have "k < length (conns T)" "lread (conns T ! k) = []" using k T(2) by (metis nth_map)+
      then have "threadUp S1 t"
        using d r out(1) s1 by (auto simp: threadUp_def newCStream_def)
      then show ?thesis using ap s1 r by (simp add: goodStep_def map_filter_Cons List.map_filter_def)
    qed
  qed
qed

lemma socksWait_good:
  assumes up: "threadUp S (SocksWait k i r)" and st: "handleSocks5 C X (SocksWait k i r) S = Some (t, ts, S1)"
  shows "goodStep (SocksWait k i r) S (t # ts) S1"
proof -
  obtain b s1 where os: "openSelect (csel X) i r (cs S) = Some (b, s1)"
    using st by (cases "openSelect (csel X) i r (cs S)") auto
  note calm = calmS_openSelect [OF os]
  show ?thesis
  proof (cases b)
    case False
    then show ?thesis
      using st os calm goodStep_calm [of S S1 CFinished "SocksWait k i r"] up by auto
  next
    case True
    with st os have s1: "t = SocksCopy k r" "ts = [Bridge k r]" "cs S1 = s1" "map lread (conns S1) = map lread (conns S)"
      by auto
    have "threadUp S (Bridge k r)" using up by (simp add: threadUp_def)
    from threadUp_apart [OF calmS_apart [of S S1 None None] this] calm s1 have b: "threadUp S1 (Bridge k r)" by simp
    then show ?thesis
      using calmS_apart [of S S1 "bowner (SocksWait k i r)" "lowner (SocksWait k i r)"] calm s1
      by (auto simp: goodStep_def threadUp_def map_filter_Cons List.map_filter_def)
  qed
qed

lemma socksCopy_good:
  assumes up: "threadUp S (SocksCopy k r)" and st: "handleSocks5 C X (SocksCopy k r) S = Some (t, ts, S1)"
  shows "goodStep (SocksCopy k r) S (t # ts) S1"
proof -
  obtain x s1 where rd: "readStream r 32768 (cs S) = Some (x, s1)"
    using st by (cases "readStream r 32768 (cs S)") auto
  have "cs S1 = s1 \<and> map lread (conns S1) = map lread (conns S) \<and> ts = [] \<and> bowner t = None \<and> lowner t = None"
    using st rd by (auto simp: Let_def case_prod_beta split: option.splits if_splits)
  then show ?thesis using goodStep_calm [of S S1 t "SocksCopy k r"] calmS_readStream [OF rd] up by simp
qed

lemma acquireWindow_outcome:
  assumes "acquireWindow r n s = Some (b, s')"
  shows "\<not> b \<Longrightarrow> s' = s \<and> cst_closed (tobjs s ! r)"
    and "b \<Longrightarrow> \<exists>f. s' = onStream r f s \<and> (\<forall>st. cst_id (f st) = cst_id st \<and> acquired (f st) = acquired st + int n \<and>
           cst_closed (f st) = cst_closed st)"
proof -
  show "\<not> b \<Longrightarrow> s' = s \<and> cst_closed (tobjs s ! r)"
    using assms by (auto simp: acquireWindow_def Let_def split: if_splits)
  assume b
  with assms have "s' = onStream r (\<lambda>st. st\<lparr>acquired := acquired st + int n\<rparr>) s \<or>
      s' = onStream r (\<lambda>st. st\<lparr>sendWindow := sendWindow st - int n, acquired := acquired st + int n\<rparr>) s"
    by (auto simp: acquireWindow_def Let_def split: if_splits)
  then show "\<exists>f. s' = onStream r f s \<and> (\<forall>st. cst_id (f st) = cst_id st \<and> acquired (f st) = acquired st + int n \<and>
      cst_closed (f st) = cst_closed st)"
    by (elim disjE) (rule exI, rule conjI, assumption, simp)+
qed

lemma bridge_read_good:
  assumes up: "threadUp S (Bridge k r)" and st: "bridge C X (Bridge k r) S = Some (t, ts, S1)"
  shows "goodStep (Bridge k r) S (t # ts) S1"
proof -
  obtain buf rd where lr: "localRead (crd X) 16384 (lin (conns S ! k)) = (buf, rd)" by fastforce
  define T where "T = onConn k (\<lambda>c. c\<lparr>lin := rd, lread := lread c @ buf\<rparr>) S"
  have csT: "cs T = cs S" by (simp add: T_def)
  show ?thesis
  proof (cases "buf = []")
    case True
    have lread: "map lread (conns T) = map lread (conns S)" unfolding T_def True by (rule lread_onConn) simp
    have s1: "t = CFinished" "ts = []" "conns S1 = conns T"
      "cs S1 = snd (tc_writeStreamFrame C (crnd X) (cst_id (tobjs (cs S) ! r)) typeClose [] (cs S))"
      using st lr True by (auto simp: T_def Let_def)
    have "calmS (cs S) (cs S1)" unfolding s1 by (rule calmS_write) (simp add: typeClose_def v2TypeData_def)
    then show ?thesis using goodStep_calm [of S S1 t "Bridge k r"] up s1 lread by simp
  next
    case False
    have s1: "t = BridgeAcquire k r buf" "ts = []" "S1 = T" using st lr False by (auto simp: T_def)
    have k: "k < length (conns S)" using up by (simp add: threadUp_def)
    then have "lread (conns T ! k) = lread (conns S ! k) @ buf" "length (conns T) = length (conns S)"
      and "\<forall>j. j \<noteq> k \<longrightarrow> conns T ! j = conns S ! j"
      by (simp_all add: T_def onConn_def)
    then show ?thesis
      using up s1 csT by (auto simp: goodStep_def apart_def threadUp_def map_filter_Cons List.map_filter_def)
  qed
qed

lemma bridge_acquire_good:
  assumes up: "threadUp S (BridgeAcquire k r rest)" and st: "bridge C X (BridgeAcquire k r rest) S = Some (t, ts, S1)"
  shows "goodStep (BridgeAcquire k r rest) S (t # ts) S1"
proof (cases "rest = []")
  case True
  then have "t = Bridge k r" "ts = []" "S1 = S" using st by auto
  then show ?thesis
    using up True calmS_apart [OF calmS_refl refl]
    by (auto simp: goodStep_def threadUp_def map_filter_Cons List.map_filter_def)
next
  case False
  let ?n = "min (length rest) tc_maxStreamPayloadV2"
  obtain b s1 where aw: "acquireWindow r ?n (cs S) = Some (b, s1)"
    using st False by (cases "acquireWindow r ?n (cs S)") (auto simp: Let_def)
  have r: "r < length (tobjs (cs S))" using up by (simp add: threadUp_def)
  show ?thesis
  proof (cases b)
    case f: False
    then have "t = Bridge k r" "ts = []" "cs S1 = cs S" "conns S1 = conns S" "lostS (cs S) r"
      using st False aw acquireWindow_outcome(1) [OF aw] by (auto simp: Let_def lostS_def)
    then show ?thesis
      using up calmS_apart [of S S1] by (auto simp: goodStep_def threadUp_def map_filter_Cons List.map_filter_def calmS_refl)
  next
    case True
    from acquireWindow_outcome(2) [OF aw True] obtain f where s1: "s1 = onStream r f (cs S)"
      and f: "\<And>st. cst_id (f st) = cst_id st \<and> acquired (f st) = acquired st + int ?n \<and> cst_closed (f st) = cst_closed st"
      by blast
    have S1: "t = BridgeSend k r (take ?n rest) (drop ?n rest)" "ts = []" "S1 = S\<lparr>cs := s1\<rparr>"
      using st False aw True by (auto simp: Let_def)
    have o: "tobjs s1 = (tobjs (cs S))[r := f (tobjs (cs S) ! r)]" "tclosed s1 = tclosed (cs S)" "tout s1 = tout (cs S)"
      "tsealed s1 = tsealed (cs S)"
      by (simp_all add: s1 onStream_def)
    have ids: "cst_id (tobjs s1 ! q) = cst_id (tobjs (cs S) ! q)" and cl: "cst_closed (tobjs s1 ! q) = cst_closed (tobjs (cs S) ! q)" for q
      using f r by (cases "q = r"; simp add: o)+
    have len: "length (tobjs s1) = length (tobjs (cs S))" by (simp add: o)
    have acq: "acquired (tobjs s1 ! r) = acquired (tobjs (cs S) ! r) + int ?n"
      "q \<noteq> r \<Longrightarrow> acquired (tobjs s1 ! q) = acquired (tobjs (cs S) ! q)" for q
      using f r by (simp_all add: o)
    have "apart (Some r) (Some k) S S1"
      using S1 o(2-4) len ids cl acq by (auto simp: apart_def lostS_def)
    moreover have "threadUp S1 t"
      using up S1 o(2-4) len ids cl acq by (auto simp: threadUp_def lostS_def)
    ultimately show ?thesis
      using up S1 o(4) len ids acq by (auto simp: goodStep_def threadUp_def map_filter_Cons List.map_filter_def)
  qed
qed

lemma bridge_send_good:
  assumes up: "threadUp S (BridgeSend k r ch rest)" and st: "bridge C X (BridgeSend k r ch rest) S = Some (t, ts, S1)"
    and ids: "distinct (map cst_id (tobjs (cs S)))"
  shows "goodStep (BridgeSend k r ch rest) S (t # ts) S1"
proof -
  let ?i = "cst_id (tobjs (cs S) ! r)"
  obtain ok s1 where w: "tc_writeStreamFrame C (crnd X) ?i typeData ch (cs S) = (ok, s1)" by fastforce
  note out = tc_write_outcome [OF w]
  have r: "r < length (tobjs (cs S))" and ch: "length ch \<le> tc_maxStreamPayloadV2" using up by (auto simp: threadUp_def)
  have S1: "S1 = S\<lparr>cs := s1\<rparr>" "ts = []" "t = (if ok then BridgeAcquire k r rest else Bridge k r)"
    using st w by (auto split: if_splits)
  have other: "cst_id (tobjs (cs S) ! q) \<noteq> ?i" if "q < length (tobjs (cs S))" "q \<noteq> r" for q
    using nth_eq_iff_index_eq [OF ids, of q r] that r by simp
  have same: "dataOf j (tsealed s1) = dataOf j (tsealed (cs S))" if "j \<noteq> ?i" for j using out(5) that by simp
  have "?i \<in> cst_id ` set (tobjs (cs S))" using r by simp
  then have new: "dataOf j (tsealed s1) = dataOf j (tsealed (cs S))" if "j \<notin> cst_id ` set (tobjs (cs S))" for j
    using same that by metis
  have ap: "apart (Some r) (Some k) S S1"
    using S1(1) out(1,2,4) same [OF other] new by (auto simp: apart_def lostS_def)
  have sent: "sentOn s1 r = sentOn (cs S) r @ (if ok then ch else [])" using out(1,5) by (simp add: typeData_eq)
  have "threadUp S1 t"
  proof (cases ok)
    case True
    then show ?thesis using up S1 sent out r by (auto simp: threadUp_def lostS_def)
  next
    case False
    then have "lostS s1 r" using out(6) ch by (auto simp: lostS_def)
    then show ?thesis using False up S1 sent out r by (auto simp: threadUp_def)
  qed
  then show ?thesis
    using ap S1 sent up out by (auto simp: goodStep_def threadUp_def map_filter_Cons List.map_filter_def)
qed

lemma cthreadStep_good:
  assumes ok: "uploadOK S" and "u \<in> set (cthreads S)" and st: "cthreadStep C X u S = Some (t, ts, S1)"
    and ids: "distinct (map cst_id (tobjs (cs S)))" "distinct (map cst_id (tobjs (cs S1)))"
  shows "goodStep u S (t # ts) S1"
proof -
  have up: "threadUp S u" using ok assms(2) by (simp add: uploadOK_def)
  have fresh: "i \<notin> cst_id ` set (tobjs (cs S)) \<Longrightarrow> dataOf i (tsealed (cs S)) = []" for i
    using ok by (simp add: uploadOK_def)
  show ?thesis
  proof (cases u)
    case (Socks k)
    with st up show ?thesis using socks_good [of S k C X t ts S1] ids(2) fresh by (simp add: cthreadStep_def)
  next
    case (SocksWait k i r)
    with st up show ?thesis using socksWait_good [of S k i r C X t ts S1] by (simp add: cthreadStep_def)
  next
    case (SocksCopy k r)
    with st up show ?thesis using socksCopy_good [of S k r C X t ts S1] by (simp add: cthreadStep_def)
  next
    case (Bridge k r)
    with st up show ?thesis using bridge_read_good [of S k r C X t ts S1] by (simp add: cthreadStep_def)
  next
    case (BridgeAcquire k r rest)
    with st up show ?thesis using bridge_acquire_good [of S k r rest C X t ts S1] by (simp add: cthreadStep_def)
  next
    case (BridgeSend k r ch rest)
    with st up ids show ?thesis using bridge_send_good [of S k r ch rest C X t ts S1] by (simp add: cthreadStep_def)
  qed (use st up readLoop_good [of S u C X t ts S1] in \<open>simp_all add: cthreadStep_def\<close>)
qed

section \<open>Stream identifiers\<close>

text \<open>Stream \<open>r\<close> has the identifier \<open>2 r + 1\<close>: identifiers repeat after \<open>2 ^ 31\<close> streams only.\<close>

definition idsOK :: "tcsession \<Rightarrow> bool" where
  "idsOK s \<longleftrightarrow>
     tnextID s = 1 + 2 * word_of_nat (length (tobjs s)) \<and>
     (\<forall>r < length (tobjs s). cst_id (tobjs s ! r) = 1 + 2 * word_of_nat r)"

lemma idsOK_distinct:
  assumes "idsOK s" and "length (tobjs s) \<le> 2 ^ 31"
  shows "distinct (map cst_id (tobjs s))"
proof (subst distinct_conv_nth, intro allI impI)
  fix i j assume a: "i < length (map cst_id (tobjs s))" "j < length (map cst_id (tobjs s))" "i \<noteq> j"
  have b: "unat (2 * word_of_nat k :: u32) = 2 * k" if "k < 2 ^ 31" for k
  proof -
    have "(2 * word_of_nat k :: u32) = word_of_nat (2 * k)" by simp
    also have "unat \<dots> = 2 * k" using that by (simp only: unat_of_nat) (simp add: take_bit_nat_eq_self)
    finally show ?thesis .
  qed
  have "(2 * word_of_nat i :: u32) \<noteq> 2 * word_of_nat j"
  proof
    assume "(2 * word_of_nat i :: u32) = 2 * word_of_nat j"
    then have "2 * i = 2 * j" using b [of i] b [of j] a assms(2) by simp
    with a show False by simp
  qed
  with a assms(1) show "map cst_id (tobjs s) ! i \<noteq> map cst_id (tobjs s) ! j" by (simp add: idsOK_def)
qed

lemma idsOK_calm: "calmS s s' \<Longrightarrow> idsOK s \<Longrightarrow> idsOK s' \<and> length (tobjs s) \<le> length (tobjs s')"
  by (simp add: calmS_def idsOK_def)

lemma idsOK_keep:
  "idsOK s \<Longrightarrow> tnextID s' = tnextID s \<Longrightarrow> map cst_id (tobjs s') = map cst_id (tobjs s) \<Longrightarrow>
   idsOK s' \<and> length (tobjs s) \<le> length (tobjs s')"
  by (metis idsOK_def length_map nth_map order_refl)

lemma openStart_ids:
  assumes "idsOK s"
  shows "idsOK (snd (openStart C X h p s)) \<and> length (tobjs s) \<le> length (tobjs (snd (openStart C X h p s)))"
proof -
  obtain x s' where op: "openStart C X h p s = (x, s')" by fastforce
  have n: "tnextID s' = tnextID s + 2"
    using op by (auto simp: openStart_def Let_def case_prod_beta tc_write_nextID split: if_splits)
  show ?thesis
    using assms openStart_outcome(1) [OF op] n op
    by (auto simp: idsOK_def newCStream_def nth_append less_Suc_eq algebra_simps)
qed

lemma cthreadStep_ids:
  assumes ok: "idsOK (cs S)" and st: "cthreadStep C X t S = Some (t', ts, S')"
  shows "idsOK (cs S') \<and> length (tobjs (cs S)) \<le> length (tobjs (cs S'))"
proof (cases t)
  case CLoop
  obtain res rd where rf: "readAEADFrame C (tin (cs S)) (tkeyS2C (cs S)) (tseqRead (cs S)) = (res, rd)" by fastforce
  have a: "calmS (cs S) ((cs S)\<lparr>tin := rd\<rparr>)" and b: "calmS (cs S) ((cs S)\<lparr>tin := rd, tseqRead := tseqRead (cs S) + 1\<rparr>)"
    by (simp_all add: calmS_def)
  then have "calmS (cs S) (cs S')"
    using st CLoop rf calmS_trans [OF b calmS_dispatch]
    by (auto simp: cthreadStep_def Let_def case_prod_beta split: sum.splits option.splits)
  then show ?thesis using ok by (rule idsOK_calm)
next
  case (Socks k)
  then show ?thesis
    using st ok openStart_ids [OF ok, of C X]
    by (auto simp: cthreadStep_def Let_def case_prod_beta split: socks_req.splits option.splits)
next
  case (SocksWait k i r)
  then obtain b s1 where os: "openSelect (csel X) i r (cs S) = Some (b, s1)"
    using st by (cases "openSelect (csel X) i r (cs S)") (auto simp: cthreadStep_def)
  then have "cs S' = s1" using st SocksWait by (cases b) (auto simp: cthreadStep_def)
  then show ?thesis using idsOK_calm [OF calmS_openSelect [OF os] ok] by simp
next
  case (SocksCopy k r)
  then obtain x s1 where rd: "readStream r 32768 (cs S) = Some (x, s1)"
    using st by (cases "readStream r 32768 (cs S)") (auto simp: cthreadStep_def)
  then have "cs S' = s1"
    using st SocksCopy by (cases x) (auto simp: cthreadStep_def Let_def case_prod_beta split: if_splits)
  then show ?thesis using idsOK_calm [OF calmS_readStream [OF rd] ok] by simp
next
  case (CDeliver r p)
  then obtain b s1 where d: "deliver r p (cs S) = Some (b, s1)"
    using st by (cases "deliver r p (cs S)") (auto simp: cthreadStep_def)
  then have "cs S' = s1" using st CDeliver by (auto simp: cthreadStep_def)
  then show ?thesis using idsOK_calm [OF calmS_deliver [OF d] ok] by simp
next
  case (Bridge k r)
  have "calmS (cs S) (snd (tc_writeStreamFrame C (crnd X) i typeClose [] (cs S)))" for i
    by (rule calmS_write) (simp add: typeClose_def v2TypeData_def)
  then have "calmS (cs S) (cs S')"
    using st Bridge by (auto simp: cthreadStep_def Let_def case_prod_beta calmS_refl split: if_splits)
  then show ?thesis using ok by (rule idsOK_calm)
next
  case (BridgeSend k r ch rest)
  let ?w = "tc_writeStreamFrame C (crnd X) (cst_id (tobjs (cs S) ! r)) typeData ch (cs S)"
  have "cs S' = snd ?w" using st BridgeSend by (auto simp: cthreadStep_def Let_def case_prod_beta split: if_splits)
  moreover have "tobjs (snd ?w) = tobjs (cs S)" using tc_write_outcome(1) by (metis prod.collapse)
  ultimately show ?thesis using idsOK_keep [OF ok, of "snd ?w"] by (simp add: tc_write_nextID)
next
  case (BridgeAcquire k r rest)
  let ?n = "min (length rest) tc_maxStreamPayloadV2"
  show ?thesis
  proof (cases "cs S' = cs S")
    case False
    with st BridgeAcquire have rest: "rest \<noteq> []" by (auto simp: cthreadStep_def)
    then obtain b s1 where aw: "acquireWindow r ?n (cs S) = Some (b, s1)"
      using st BridgeAcquire by (cases "acquireWindow r ?n (cs S)") (auto simp: cthreadStep_def Let_def)
    then have s1: "cs S' = s1" using st BridgeAcquire rest by (cases b) (auto simp: cthreadStep_def Let_def)
    with False acquireWindow_outcome(1) [OF aw] have b by auto
    with aw have aw: "acquireWindow r ?n (cs S) = Some (True, s1)" by simp
    from acquireWindow_outcome(2) [OF aw] obtain f where f: "s1 = onStream r f (cs S)" "\<And>st. cst_id (f st) = cst_id st" by blast
    have "map cst_id ((tobjs (cs S))[r := f (tobjs (cs S) ! r)]) = map cst_id (tobjs (cs S))"
      using f(2) by (cases "r < length (tobjs (cs S))") (simp_all add: map_update list_update_same_conv list_update_beyond)
    then show ?thesis using idsOK_keep [OF ok, of s1] s1 f(1) by (simp add: onStream_def)
  qed (use ok in simp)
next
  case (CRange ks)
  then have "calmS (cs S) (cs S')"
    using st by (auto simp: cthreadStep_def calmS_refl calmS_markClosed split: list.splits option.splits)
  then show ?thesis using ok by (rule idsOK_calm)
next
  case CClose
  then have "calmS (cs S) (cs S')" using st by (auto simp: cthreadStep_def calmS_def split: if_splits)
  then show ?thesis using ok by (rule idsOK_calm)
next
  case CConnClose
  then have "calmS (cs S) (cs S')" using st by (auto simp: cthreadStep_def calmS_def)
  then show ?thesis using ok by (rule idsOK_calm)
next
  case CFinished
  then show ?thesis using st by (simp add: cthreadStep_def)
qed

section \<open>The invariant\<close>

definition upInv :: "cstate \<Rightarrow> bool" where
  "upInv S \<longleftrightarrow> idsOK (cs S) \<and> (length (tobjs (cs S)) \<le> 2 ^ 31 \<longrightarrow> uploadOK S)"

lemma upInv_new: "upInv \<lparr>cs = tc_newSession rd wr kc ks, conns = [], cthreads = [CLoop]\<rparr>"
  by (simp add: upInv_def idsOK_def tc_newSession_def uploadOK_def threadUp_def List.map_filter_def)

lemma upInv_run:
  assumes ok: "upInv S" and n: "n < length (cthreads S)" and st: "cthreadStep C X (cthreads S ! n) S = Some (t, ts, S1)"
  shows "upInv (S1\<lparr>cthreads := (cthreads S)[n := t] @ ts\<rparr>)"
proof -
  let ?xs = "take n (cthreads S)" and ?ys = "drop (Suc n) (cthreads S)"
  have thr: "cthreads S = ?xs @ cthreads S ! n # ?ys" using n by (rule id_take_nth_drop)
  have upd: "(cthreads S)[n := t] @ ts = ?xs @ t # ?ys @ ts" using n by (simp add: upd_conv_take_nth_drop)
  have ids: "idsOK (cs S1)" "length (tobjs (cs S)) \<le> length (tobjs (cs S1))"
    using cthreadStep_ids [OF _ st] ok by (simp_all add: upInv_def)
  have "uploadOK (S1\<lparr>cthreads := ?xs @ t # ?ys @ ts\<rparr>)" if l: "length (tobjs (cs S1)) \<le> 2 ^ 31"
  proof -
    have d: "distinct (map cst_id (tobjs (cs S)))" "distinct (map cst_id (tobjs (cs S1)))" and u: "uploadOK S"
      using ok ids l idsOK_distinct by (auto simp: upInv_def)
    have "goodStep (cthreads S ! n) S (t # ts) S1" using cthreadStep_good [OF u _ st d] n by simp
    then show ?thesis by (rule uploadOK_goodStep [OF u thr _ d(2)])
  qed
  then show ?thesis unfolding upd using ids by (simp add: upInv_def)
qed

lemma upInv_local:
  assumes "upInv S"
  shows "upInv (acceptLocal rd wr S)"
proof -
  have "uploadOK (acceptLocal rd wr S)" if u: "uploadOK S"
  proof -
    have up: "threadUp S v" if "v \<in> set (cthreads S)" for v using u that by (simp add: uploadOK_def)
    have "threadUp (acceptLocal rd wr S) v" if "v \<in> set (cthreads S)" for v
      using up [OF that] by (auto simp: threadUp_def acceptLocal_def nth_append)
    moreover have "length (conns S) \<notin> set (List.map_filter lowner (cthreads S))"
      using up by (force simp: set_map_filter threadUp_def)
    moreover have "threadUp (acceptLocal rd wr S) (Socks (length (conns S)))"
      by (simp add: threadUp_def acceptLocal_def)
    moreover have "cthreads (acceptLocal rd wr S) = cthreads S @ [Socks (length (conns S))]"
      by (simp add: acceptLocal_def)
    moreover have "List.map_filter bowner [Socks k] = []" "List.map_filter lowner [Socks k] = [k]" for k
      by (simp_all add: List.map_filter_def)
    ultimately show ?thesis using u by (simp add: uploadOK_def map_filter_append)
  qed
  then show ?thesis using assms by (simp add: upInv_def)
qed

interpretation cup: client_inv C upInv for C
  by unfold_locales (rule upInv_new, erule (2) upInv_run, erule upInv_local)

end
