(* ===== verification/Client_Props.thy ===== *)
theory Client_Props
  imports Client_Upload
begin

text \<open>
  The properties of the client: its uploads and downloads are in order, it respects the send
  window, the server decodes what it sends, and a SOCKS5 request becomes the dial the server
  makes. A concrete run shows that the situations the theorems speak about occur.
\<close>

section \<open>Requests\<close>

text \<open>The target \<open>open\<close> sends is what the server parses it to be.\<close>

lemma parseTarget_openTarget:
  assumes "length h \<le> 255"
  shows "parseTarget (openTarget h p) = Inr (h @ '':'' @ itoaNat (p mod 65536))"
proof -
  have n: "unat (word_of_nat (length h) :: byte) = length h" using assms by (simp add: unat_of_nat_byte)
  have g: "getBE (putBE 2 p) = p mod 65536" by (simp add: getBE_putBE)
  show ?thesis
    by (simp add: parseTarget_def openTarget_def Let_def addrTypeIPv4_def addrTypeDomain_def n g)
qed

text \<open>A CONNECT request of a local application, without authentication.\<close>

definition connectRequest :: "bytes \<Rightarrow> bytes \<Rightarrow> nat \<Rightarrow> bytes" where
  "connectRequest methods addr p =
     [5, word_of_nat (length methods)] @ methods @ [5, 1, 0] @ addr @ putBE 2 p"

definition domainAddr :: "string \<Rightarrow> bytes" where
  "domainAddr h = [3, word_of_nat (length h)] @ bytes_of h"

lemma socksRequest_connect:
  assumes m: "length methods \<le> 255" and p: "p < 65536" and w: "wbreak w = None"
    and a: "\<And>rest. socksAddr (addr ! 0) \<lparr>inbuf = tl addr @ rest, rend = e\<rparr> (w\<lparr>wout := wout w @ [5, 0]\<rparr>)
              = (Some h, \<lparr>inbuf = rest, rend = e\<rparr>, w\<lparr>wout := wout w @ [5, 0]\<rparr>)" and ne: "addr \<noteq> []"
  shows "socksRequest \<lparr>inbuf = connectRequest methods addr p @ rest, rend = e\<rparr> w
           = (SkOpen h p, \<lparr>inbuf = rest, rend = e\<rparr>, w\<lparr>wout := wout w @ [5, 0]\<rparr>)"
proof -
  let ?w = "w\<lparr>wout := wout w @ [5, 0]\<rparr>"
  have n: "unat (word_of_nat (length methods) :: byte) = length methods" using m by (simp add: unat_of_nat_byte)
  have ad: "addr = addr ! 0 # tl addr" using ne by (cases addr) auto
  have r1: "readFull 2 \<lparr>inbuf = connectRequest methods addr p @ rest, rend = e\<rparr> =
      (None, [5, word_of_nat (length methods)], \<lparr>inbuf = methods @ 5 # 1 # 0 # addr @ putBE 2 p @ rest, rend = e\<rparr>)"
    by (simp add: readFull_None_iff connectRequest_def)
  have r2: "readFull (length methods) \<lparr>inbuf = methods @ 5 # 1 # 0 # addr @ putBE 2 p @ rest, rend = e\<rparr> =
      (None, methods, \<lparr>inbuf = 5 # 1 # 0 # addr @ putBE 2 p @ rest, rend = e\<rparr>)"
    by (simp add: readFull_None_iff)
  have r3: "readFull 4 \<lparr>inbuf = 5 # 1 # 0 # addr @ putBE 2 p @ rest, rend = e\<rparr> =
      (None, [5, 1, 0, addr ! 0], \<lparr>inbuf = tl addr @ putBE 2 p @ rest, rend = e\<rparr>)"
    unfolding readFull_None_iff by (subst ad) simp
  have r4: "readFull 2 \<lparr>inbuf = putBE 2 p @ rest, rend = e\<rparr> = (None, putBE 2 p, \<lparr>inbuf = rest, rend = e\<rparr>)"
    by (simp add: readFull_None_iff)
  have g: "getBE (putBE 2 p) = p" using p by (intro getBE_putBE_small) simp
  show ?thesis
    using w by (simp add: socksRequest_def r1 n r2 r3 r4 a g writeConn_unbroken Let_def)
qed

lemma socksAddr_domain:
  "length h \<le> 255 \<Longrightarrow>
   socksAddr (domainAddr h ! 0) \<lparr>inbuf = tl (domainAddr h) @ rest, rend = e\<rparr> w = (Some h, \<lparr>inbuf = rest, rend = e\<rparr>, w)"
  by (simp add: socksAddr_def domainAddr_def readFull_def unat_of_nat_byte)

text \<open>The text of an IPv6 address: short, without brackets, and with a colon.\<close>

lemma hexDigit_bracket: "d < 16 \<Longrightarrow> hexDigit d \<noteq> CHR ''[''"
  using hexVal_hexDigit [of d] by (auto simp: hexVal_def)

lemma hexString_bracket: "CHR ''['' \<notin> set (hexString n)"
proof (induction n rule: hexString.induct)
  case (1 n)
  then show ?case using hexDigit_bracket [of n] hexDigit_bracket [of "n mod 16"] by (subst hexString.simps) auto
qed

lemma hexString_length: "n < 16 ^ Suc k \<Longrightarrow> length (hexString n) \<le> Suc k"
proof (induction k arbitrary: n)
  case (Suc k)
  have "n div 16 < 16 ^ Suc k" using Suc.prems by (simp add: less_mult_imp_div_less mult.commute)
  then show ?case using Suc.IH by (subst hexString.simps) simp
qed (simp add: hexString.simps)

lemma group6_length: "length (hexString (group6 ip i)) \<le> 4"
proof -
  have "group6 ip i < 256 ^ length (take 2 (drop (2 * i) ip))" unfolding group6_def by (rule getBE_less)
  also have "\<dots> \<le> 256 ^ 2" by (rule power_increasing) simp_all
  finally show ?thesis using hexString_length [of "group6 ip i" 3] by simp
qed

lemma print6_text: "CHR ''['' \<notin> set (print6 ip zs ze i) \<and> length (print6 ip zs ze i) \<le> 5 * (8 - i)"
proof (induction ip zs ze i rule: print6.induct)
  case (1 ip zs ze i)
  show ?case
  proof (cases "8 \<le> i")
    case True
    then show ?thesis by (simp add: print6.simps)
  next
    case False
    note g = group6_length [of ip] and b = hexString_bracket
    show ?thesis
      using 1 False g [of i] g [of ze] b [of "group6 ip i"] b [of "group6 ip ze"]
      by (subst (1 2) print6.simps) (auto simp: not_le)
  qed
qed

lemma print6_colon: "CHR '':'' \<in> set (print6 ip zs ze 0)"
  using print6.simps [of ip zs ze 1] by (simp add: print6.simps [of ip zs ze 0])

lemma ip6_text:
  assumes "length ip = 16" and "to4 ip = None"
  shows "CHR '':'' \<in> set (ipString ip)" "CHR ''['' \<notin> set (ipString ip)" "length (ipString ip) \<le> 255"
proof -
  obtain zs ze where "zeroRun ip = (zs, ze)" by fastforce
  then have "ipString ip = print6 ip zs ze 0" using assms by (simp add: ipString_def ip6String_def)
  then show "CHR '':'' \<in> set (ipString ip)" "CHR ''['' \<notin> set (ipString ip)" "length (ipString ip) \<le> 255"
    using print6_colon [of ip zs ze] print6_text [of ip zs ze 0] by simp_all
qed

lemma ip4String_length: "length (ip4String ip) \<le> 255"
proof -
  have "length (itoaNat n) \<le> 3" if "n < 256" for n
    using that by (simp add: itoaNat.simps [of n] itoaNat.simps [of "n div 10"] itoaNat.simps [of "n div 10 div 10"])
  from this [OF unat_byte_less] have "length (itoaNat (unat (b :: byte))) \<le> 3" for b .
  from this [of "ip ! 0"] this [of "ip ! 1"] this [of "ip ! 2"] this [of "ip ! 3"] show ?thesis by (simp add: ip4String_def)
qed

lemma socksAddr_ipv6:
  "length ip = 16 \<Longrightarrow> socksAddr ((4 # ip) ! 0) \<lparr>inbuf = tl (4 # ip) @ rest, rend = e\<rparr> w = (Some (ipString ip), \<lparr>inbuf = rest, rend = e\<rparr>, w)"
  by (simp add: socksAddr_def readFull_def)

lemma socksAddr_ipv4:
  "length ip = 4 \<Longrightarrow> socksAddr ((1 # ip) ! 0) \<lparr>inbuf = tl (1 # ip) @ rest, rend = e\<rparr> w = (Some (ipString ip), \<lparr>inbuf = rest, rend = e\<rparr>, w)"
  by (simp add: socksAddr_def readFull_def)

section \<open>A run of the client\<close>

text \<open>A client that has dialled, received OPEN_OK with a window of 3 and DATA on stream 1, and serves one local connection.\<close>

definition demo_shello :: bytes where
  "demo_shello = helloBytes demo_crypto [7] ''s2c-hs'' (map (\<lambda>_. 2) [0..<16]) (map (\<lambda>_. 0) [0..<3])"

definition demo_ckey :: bytes where
  "demo_ckey = the (tc_deriveKey demo_crypto [7] (map (\<lambda>_. 1) [0..<16]) (map (\<lambda>_. 2) [0..<16]) ''s2c-key'')"

definition demo_down :: bytes where
  "demo_down = encAll (srvEnc (demo_crypto, demo_ckey)) 1
     [((99, \<lambda>_. 0), streamFrame 1 v2TypeOpenOK (putBE 4 3)), ((99, \<lambda>_. 0), streamFrame 1 v2TypeData [42, 43])]"

definition demo_local :: reader where
  "demo_local = \<lparr>inbuf = connectRequest [0] (domainAddr ''a.io'') 80 @ [7, 8, 9, 10], rend = EOF\<rparr>"

fun runClient :: "crypto \<Rightarrow> (nat \<times> cstepin) list \<Rightarrow> cstate \<Rightarrow> cstate option" where
  "runClient C [] S = Some S"
| "runClient C ((n, X) # xs) S =
     (if n < length (cthreads S)
      then (case cthreadStep C X (cthreads S ! n) S of
              None \<Rightarrow> None
            | Some (t, ts, S1) \<Rightarrow> runClient C xs (S1\<lparr>cthreads := (cthreads S)[n := t] @ ts\<rparr>))
      else None)"

lemma runClient_creach: "creach C S \<Longrightarrow> runClient C xs S = Some S' \<Longrightarrow> creach C S'"
proof (induction C xs S rule: runClient.induct)
  case (2 C n X xs S)
  then obtain t ts S1 where n: "n < length (cthreads S)" and st: "cthreadStep C X (cthreads S ! n) S = Some (t, ts, S1)"
    and r: "runClient C xs (S1\<lparr>cthreads := (cthreads S)[n := t] @ ts\<rparr>) = Some S'"
    by (auto split: if_splits option.splits)
  have "creach C (S1\<lparr>cthreads := (cthreads S)[n := t] @ ts\<rparr>)"
    using creach.step [OF "2.prems"(1) cstep.run [OF n st]] .
  then show ?case using "2.IH" [OF n st refl refl] r by simp
qed simp

text \<open>Rewriting rules under which the run evaluates.\<close>

lemma demo_ckey_simps:
  "tc_deriveKey demo_crypto [7] (map (\<lambda>_. 1) [0..<16]) (map (\<lambda>_. 2) [0..<16]) ''s2c-key'' = Some demo_ckey"
  by (simp add: demo_ckey_def tc_deriveKey_def demo_crypto_def)

definition demo_ukey :: bytes where
  "demo_ukey = the (tc_deriveKey demo_crypto [7] (map (\<lambda>_. 1) [0..<16]) (map (\<lambda>_. 2) [0..<16]) ''c2s-key'')"

definition demo_client :: tcsession where
  "demo_client = tc_newSession \<lparr>inbuf = demo_down, rend = EOF\<rparr>
     \<lparr>wout = tc_hello demo_crypto [7] (map (\<lambda>_. 1) [0..<16]) 2 (map (\<lambda>_. 0) [0..<2]), wbreak = None\<rparr> demo_ukey demo_ckey"

lemma demo_dialled:
  "dialSession demo_crypto (demo_dial (demo_shello @ demo_down)) ''192.0.2.1'' 443 [7] ''a.example'' = Inr demo_client"
proof -
  have ip: "isIPLiteral ''192.0.2.1''" by code_simp
  have rs: "tc_readServerHello demo_crypto [7] \<lparr>inbuf = demo_shello @ demo_down, rend = EOF\<rparr>
      = (Inr (map (\<lambda>_. 2) [0..<16]), \<lparr>inbuf = demo_down, rend = EOF\<rparr>)"
    unfolding demo_shello_def by (rule tc_readServerHello_hello [OF demo_hmac_ok]) (simp_all add: nonceLen_def maxHandshakePad_def)
  have k: "tc_deriveKey demo_crypto [7] (map (\<lambda>_. 1) [0..<16]) (map (\<lambda>_. 2) [0..<16]) ''c2s-key'' = Some demo_ukey"
    by (simp add: demo_ukey_def tc_deriveKey_def demo_crypto_def)
  have D: "dialTCP (demo_dial x) a = Some (\<lparr>inbuf = [], rend = EOF\<rparr>, \<lparr>wout = [], wbreak = None\<rparr>)"
    "tlsClient (demo_dial x) b c = Some (\<lparr>inbuf = x, rend = EOF\<rparr>, \<lparr>wout = [], wbreak = None\<rparr>)"
    "dnonce (demo_dial x) = (\<lambda>_. 1)" "dpadRoll (demo_dial x) = 2" "dpad (demo_dial x) = (\<lambda>_. 0)" for x a b c
    by (simp_all add: demo_dial_def)
  show ?thesis
    using ip rs k demo_ckey_simps
    by (simp only: dialSession_def D Let_def tc_nonceLen_def) (simp add: writeConn_unbroken demo_client_def)
qed

definition demo_cin :: cstepin where
  "demo_cin = \<lparr>crnd = (99, \<lambda>_. 0), csel = TakeOK, crd = 3\<rparr>"

definition demo_crun :: "(nat \<times> cstepin) list" where
  "demo_crun = map (\<lambda>n. (n, demo_cin)) [1, 0, 1, 2, 2, 2, 0, 0, 1]"

lemma demo_down_read:
  "length p \<le> 100 \<Longrightarrow>
   readAEADFrame demo_crypto \<lparr>inbuf = encAll (srvEnc (demo_crypto, demo_ckey)) seq (((99, \<lambda>_. 0), streamFrame i t p) # fs), rend = EOF\<rparr> demo_ckey seq
   = (Inr (streamFrame i t p), \<lparr>inbuf = encAll (srvEnc (demo_crypto, demo_ckey)) (seq + 1) fs, rend = EOF\<rparr>)"
  by (simp add: readAEADFrame_eq srvEnc_def readFrame_frameBytes demo_aead_ok streamFrame_length v2FrameHeader_def frame_consts)

lemma demo_write:
  "length p \<le> 100 \<Longrightarrow> \<not> tclosed s \<Longrightarrow> wbreak (tout s) = None \<Longrightarrow>
   tc_writeStreamFrame demo_crypto (99, \<lambda>_. 0) i t p s =
     (True, s\<lparr>tout := (tout s)\<lparr>wout := wout (tout s) @ frameBytes demo_crypto 99 (\<lambda>_. 0) (tkeyC2S s) (tseqWrite s) (streamFrame i t p)\<rparr>,
              tseqWrite := tseqWrite s + 1, tsealed := tsealed s @ [((99, \<lambda>_. 0), streamFrame i t p)]\<rparr>)"
  using writeAEADFrame_unbroken [of "streamFrame i t p" "tout s" demo_crypto 99 "\<lambda>_. 0" "tkeyC2S s" "tseqWrite s"]
  by (simp add: tc_writeStreamFrame_def tc_streamFrame_eq streamFrame_length v2FrameHeader_def frame_consts tc_consts Let_def)

lemma demo_socks:
  "socksRequest demo_local \<lparr>wout = [], wbreak = None\<rparr> =
     (SkOpen ''a.io'' 80, \<lparr>inbuf = [7, 8, 9, 10], rend = EOF\<rparr>, \<lparr>wout = [5, 0], wbreak = None\<rparr>)"
  using socksRequest_connect [of "[0]" 80 "\<lparr>wout = [], wbreak = None\<rparr>" "domainAddr ''a.io''" EOF "''a.io''" "[7, 8, 9, 10]"]
    socksAddr_domain [of "''a.io''"]
  by (simp add: demo_local_def domainAddr_def)

lemmas demo_client_simps = cthreadStep_def acceptLocal_def onConn_def localWrite_def Let_def demo_socks openStart_def
  demo_cin_def tc_splitFrame_eq splitFrame_streamFrame frame_consts tc_consts v2FrameHeader_def v2_types tc_types tc_dispatch_def onStream_def
  newCStream_def openSelect_def localRead_def acquireWindow_def deliver_def readStream_def takePending_def writeConn_unbroken
  openTarget_def

lemma demo_client_run:
  "\<exists>S st c. runClient demo_crypto demo_crun
       (acceptLocal demo_local \<lparr>wout = [], wbreak = None\<rparr> \<lparr>cs = demo_client, conns = [], cthreads = [CLoop]\<rparr>) = Some S \<and>
     tobjs (cs S) = [st] \<and> cst_id st = 1 \<and> conns S = [c] \<and> lread c = [7, 8, 9] \<and> dataOf 1 (tsealed (cs S)) = [7, 8, 9] \<and>
     flowControlled st \<and> wlimit st = 3 \<and> acquired st = 3 \<and> readout st = [42, 43] \<and> arrived st = [42, 43] \<and>
     cthreads S = [CLoop, SocksCopy 0 0, BridgeAcquire 0 0 []] \<and> \<not> lostS (cs S) 0 \<and> length (tsealed (cs S)) = 2"
  unfolding demo_crun_def demo_client_def demo_down_def tc_newSession_def
  by (simp add: demo_client_simps demo_write demo_down_read dataIn_frame lostS_def del: encAll.simps)
    (simp add: dataOf_def dataIn_frame frame_consts v2FrameHeader_def v2_types getBE_putBE)

lemma demo_client_reached:
  "\<exists>S st c. creach demo_crypto S \<and> tobjs (cs S) = [st] \<and> cst_id st = 1 \<and> conns S = [c] \<and> lread c = [7, 8, 9] \<and>
     dataOf 1 (tsealed (cs S)) = [7, 8, 9] \<and>
     flowControlled st \<and> wlimit st = 3 \<and> acquired st = 3 \<and> readout st = [42, 43] \<and> arrived st = [42, 43] \<and>
     cthreads S = [CLoop, SocksCopy 0 0, BridgeAcquire 0 0 []] \<and> \<not> lostS (cs S) 0 \<and> length (tsealed (cs S)) = 2"
proof -
  have "creach demo_crypto \<lparr>cs = demo_client, conns = [], cthreads = [CLoop]\<rparr>" by (rule creach.dialled [OF demo_dialled])
  from runClient_creach [OF creach.step [OF this cstep.local]] demo_client_run show ?thesis by meson
qed

section \<open>Properties\<close>

text \<open>C14. The client's uploads are complete and in order while the stream is open, the session is not closed and its
  connection is not broken: in every reachable state in which these three hold, the payloads of the DATA frames written on
  the stream of a bridge, followed by the bytes the bridge still holds, are exactly the bytes it has read from its local
  connection. (At most \<open>2 ^ 31\<close> streams, before identifiers repeat. Once the stream is closed, a failed \<open>acquireWindow\<close> or
  write drops the rest of the buffer and the bridge reads on, so later bytes may follow a gap.)\<close>

theorem client_upload_in_order:
  assumes "creach C S" and "length (tobjs (cs S)) \<le> 2 ^ 31" and "t \<in> set (cthreads S)"
    and "t = Bridge k r \<or> t = BridgeAcquire k r rest \<or> t = BridgeSend k r ch rest"
    and "\<not> cst_closed (tobjs (cs S) ! r)" and "\<not> tclosed (cs S)" and "wbreak (tout (cs S)) \<noteq> Some 0"
  shows "lread (conns S ! k) = dataOf (cst_id (tobjs (cs S) ! r)) (tsealed (cs S)) @ heldBytes t"
proof -
  have "uploadOK S" using cup.always [OF assms(1)] assms(2) by (simp add: upInv_def)
  then have up: "threadUp S t" using assms(3) by (simp add: uploadOK_def)
  moreover have "lowner t = Some k" "bowner t = Some r" using assms(4) by auto
  moreover have "\<not> lostS (cs S) r" using assms(5-7) by (simp add: lostS_def)
  ultimately show ?thesis by (simp add: threadUp_def)
qed

theorem client_upload_in_order_witness:
  "\<exists>S. creach demo_crypto S \<and> BridgeAcquire 0 0 [] \<in> set (cthreads S) \<and> lread (conns S ! 0) = [7, 8, 9] \<and>
     lread (conns S ! 0) = dataOf (cst_id (tobjs (cs S) ! 0)) (tsealed (cs S)) @ heldBytes (BridgeAcquire 0 0 [])"
proof -
  from demo_client_reached obtain S st c where S: "creach demo_crypto S" "tobjs (cs S) = [st]" "conns S = [c]" "lread c = [7, 8, 9]"
    "cthreads S = [CLoop, SocksCopy 0 0, BridgeAcquire 0 0 []]" "\<not> lostS (cs S) 0" by blast
  with client_upload_in_order [OF S(1), of "BridgeAcquire 0 0 []" 0 0 "[]"] show ?thesis
    by (intro exI [of _ S]) (simp add: lostS_def)
qed

text \<open>C15. The client respects the send window: the bytes of all DATA frames it has written on a flow-controlled stream
  are at most what the server has allowed on it (the window of OPEN_OK, counted from the bytes taken before, and the
  credits since), and the window itself never becomes negative.\<close>

theorem client_window_respected:
  assumes "creach C S" and "length (tobjs (cs S)) \<le> 2 ^ 31" and "r < length (tobjs (cs S))"
    and "flowControlled (tobjs (cs S) ! r)"
  shows "int (length (dataOf (cst_id (tobjs (cs S) ! r)) (tsealed (cs S)))) \<le> wlimit (tobjs (cs S) ! r) \<and>
         0 \<le> sendWindow (tobjs (cs S) ! r)"
proof -
  have "uploadOK S" using cup.always [OF assms(1)] assms(2) by (simp add: upInv_def)
  then have "int (length (dataOf (cst_id (tobjs (cs S) ! r)) (tsealed (cs S)))) \<le> acquired (tobjs (cs S) ! r)"
    using assms(3) by (simp add: uploadOK_def)
  moreover have "cstrOK (tobjs (cs S) ! r)" using cflow.always [OF assms(1)] assms(3) by (simp add: flowC_def)
  ultimately show ?thesis using assms(4) by (simp add: cstrOK_def)
qed

theorem client_window_respected_witness:
  "\<exists>S. creach demo_crypto S \<and> wlimit (tobjs (cs S) ! 0) = 3 \<and>
     int (length (dataOf (cst_id (tobjs (cs S) ! 0)) (tsealed (cs S)))) \<le> wlimit (tobjs (cs S) ! 0)"
proof -
  from demo_client_reached obtain S st where S: "creach demo_crypto S" "tobjs (cs S) = [st]" "flowControlled st" "wlimit st = 3"
    by blast
  with client_window_respected [OF S(1), of 0] show ?thesis by (intro exI [of _ S]) simp
qed

text \<open>Downloads arrive in order: what \<open>Read\<close> has returned on a stream, the rest of the chunk in hand and the
  channel's contents together are exactly the payloads delivered to the stream, and the channel never holds more than 32.\<close>

lemma client_download_in_order:
  assumes "creach C S" and "st \<in> set (tobjs (cs S))"
  shows "arrived st = readout st @ (case pendingChunk st of None \<Rightarrow> [] | Some c \<Rightarrow> drop (pendingPos st) c) @ concat (incoming st) \<and>
         length (incoming st) \<le> 32"
  using cflow.always [OF assms(1)] assms(2) by (simp add: flowC_def cstrOK_def pendingBytesC_def)

text \<open>C35. The server understands what the client sends: while the connection works, the server's \<open>readFrame\<close>, counting
  from 1 (\<open>src/docs/PROTOCOL.md\<close> says 0), recovers exactly the plaintexts of the client's frames, each of which passes its header checks.\<close>

theorem client_output_decodes:
  assumes "creach C S" and "aead_ok C" and "wbreak (tout (cs S)) \<noteq> Some 0"
  shows "decAll (srvDec (C, tkeyC2S (cs S))) 1 (length (tsealed (cs S)))
           \<lparr>inbuf = drop (length (thello (cs S))) (wout (tout (cs S))), rend = e\<rparr>
         = (map snd (tsealed (cs S)), None, \<lparr>inbuf = [], rend = e\<rparr>) \<and>
         (\<forall>pt\<in>snd ` set (tsealed (cs S)). \<exists>i t p. splitFrame pt = Some (i, t, p))"
proof -
  let ?s = "cs S"
  have ok: "wireC C ?s" by (rule cwire.always [OF assms(1)])
  have len: "\<forall>f\<in>set (tsealed ?s). length (snd f) \<le> maxPlaintextSize"
    using ok by (fastforce simp: wireC_def streamFrame_length v2FrameHeader_def frame_consts)
  have "encAll (tcEnc (C, tkeyC2S ?s)) seq fs = encAll (srvEnc (C, tkeyC2S ?s)) seq fs"
    if "\<forall>f\<in>set fs. length (snd f) \<le> maxPlaintextSize" for seq fs
    using that by (induction fs arbitrary: seq) (auto simp: tcEnc_eq)
  then have "drop (length (thello ?s)) (wout (tout ?s)) = encAll (srvEnc (C, tkeyC2S ?s)) 1 (tsealed ?s) @ []"
    using ok assms(3) len by (simp add: wireC_def outgoingC_def)
  moreover have "decAll (srvDec (C, tkeyC2S ?s)) 1 (length (tsealed ?s)) \<lparr>inbuf = encAll (srvEnc (C, tkeyC2S ?s)) 1 (tsealed ?s) @ [], rend = e\<rparr>
      = (map snd (tsealed ?s), None, \<lparr>inbuf = [], rend = e\<rparr>)"
    using assms(2) len by (intro srv.dec_all) force+
  moreover have "\<forall>pt\<in>snd ` set (tsealed ?s). \<exists>i t p. splitFrame pt = Some (i, t, p)"
    using ok splitFrame_streamFrame by (fastforce simp: wireC_def)
  ultimately show ?thesis by simp
qed

theorem client_output_decodes_witness:
  "\<exists>S. creach demo_crypto S \<and> length (tsealed (cs S)) = 2 \<and>
     fst (decAll (srvDec (demo_crypto, tkeyC2S (cs S))) 1 2 \<lparr>inbuf = drop (length (thello (cs S))) (wout (tout (cs S))), rend = EOF\<rparr>)
       = map snd (tsealed (cs S))"
proof -
  from demo_client_reached obtain S where S: "creach demo_crypto S" "\<not> lostS (cs S) 0" "length (tsealed (cs S)) = 2" by blast
  with client_output_decodes [OF S(1) demo_aead_ok, of EOF] show ?thesis by (intro exI [of _ S]) (simp add: lostS_def)
qed

text \<open>C37. A CONNECT request of a local application becomes the dial the server makes: for a domain name of at most 255
  bytes or an IPv4 address, \<open>handleSocks5\<close> opens exactly that host (the address in dotted form) and port, and the target it
  sends parses, at the server, to \<open>host:port\<close>. (IPv6 requests: C39.)\<close>

theorem socks_connect_reaches_target:
  assumes "length methods \<le> 255" and "p < 65536" and "wbreak w = None"
    and "addr = domainAddr h \<and> length h \<le> 255 \<or> (\<exists>ip. length ip = 4 \<and> addr = 1 # ip \<and> h = ip4String ip)"
  shows "socksRequest \<lparr>inbuf = connectRequest methods addr p @ rest, rend = e\<rparr> w
           = (SkOpen h p, \<lparr>inbuf = rest, rend = e\<rparr>, w\<lparr>wout := wout w @ [5, 0]\<rparr>) \<and>
         parseTarget (openTarget h p) = Inr (h @ '':'' @ itoaNat p)"
proof -
  have a: "socksAddr (addr ! 0) \<lparr>inbuf = tl addr @ rest, rend = e\<rparr> w' = (Some h, \<lparr>inbuf = rest, rend = e\<rparr>, w')" for rest w'
    using assms(4) socksAddr_domain socksAddr_ipv4 by (fastforce simp: ipString_def to4_def)
  have "socksRequest \<lparr>inbuf = connectRequest methods addr p @ rest, rend = e\<rparr> w
           = (SkOpen h p, \<lparr>inbuf = rest, rend = e\<rparr>, w\<lparr>wout := wout w @ [5, 0]\<rparr>)"
    using a assms(4) by (intro socksRequest_connect [OF assms(1,2,3)]) (auto simp: domainAddr_def)
  moreover have "p mod 65536 = p" "length h \<le> 255" using assms(2,4) ip4String_length by auto
  ultimately show ?thesis using parseTarget_openTarget [of h p] by simp
qed

theorem socks_connect_reaches_target_witness:
  "parseTarget (openTarget ''matrix.org'' 443) = Inr ''matrix.org:443'' \<and> parseTarget (openTarget ''10.0.0.1'' 443) = Inr ''10.0.0.1:443''"
proof -
  have n: "itoaNat 443 = ''443''" and i: "ip4String [10, 0, 0, 1] = ''10.0.0.1''" by code_simp+
  show ?thesis
    using socks_connect_reaches_target [of "[]" 443 "\<lparr>wout = [], wbreak = None\<rparr>" "domainAddr ''matrix.org''" "''matrix.org''" "[]" EOF]
      socks_connect_reaches_target [of "[]" 443 "\<lparr>wout = [], wbreak = None\<rparr>" "[1, 10, 0, 0, 1]" "ip4String [10, 0, 0, 1]" "[]" EOF]
    by (auto simp: n i)
qed

text \<open>C39. An IPv6 CONNECT cannot succeed, whatever the address and the port: the client turns the sixteen bytes into text and
  opens that text as a domain name, the server appends the port without brackets, and the resulting address has too many
  colons to be split into host and port again, so its dial fails. (IPv4-mapped addresses print in dotted form and are not
  affected.)\<close>

theorem ipv6_connect_undialable:
  assumes "length methods \<le> 255" and "p < 65536" and "wbreak w = None" and "length ip = 16" and "to4 ip = None"
  shows "\<exists>a. socksRequest \<lparr>inbuf = connectRequest methods (4 # ip) p @ rest, rend = e\<rparr> w
           = (SkOpen (ipString ip) p, \<lparr>inbuf = rest, rend = e\<rparr>, w\<lparr>wout := wout w @ [5, 0]\<rparr>) \<and>
         parseTarget (openTarget (ipString ip) p) = Inr a \<and> splitHostPort a = None"
proof -
  note t = ip6_text [OF assms(4,5)]
  let ?a = "ipString ip @ '':'' @ itoaNat p"
  have "socksRequest \<lparr>inbuf = connectRequest methods (4 # ip) p @ rest, rend = e\<rparr> w
           = (SkOpen (ipString ip) p, \<lparr>inbuf = rest, rend = e\<rparr>, w\<lparr>wout := wout w @ [5, 0]\<rparr>)"
    using socksAddr_ipv6 [OF assms(4)] by (intro socksRequest_connect [OF assms(1,2,3)]) simp_all
  moreover have "parseTarget (openTarget (ipString ip) p) = Inr ?a"
    using parseTarget_openTarget [OF t(3), of p] assms(2) by simp
  moreover have "splitHostPort ?a = None"
  proof -
    have "ipString ip \<noteq> []" using t(1) by auto
    then have "?a ! 0 \<noteq> CHR ''[''" using t(2) by (cases "ipString ip") auto
    moreover have "lastIndexByte CHR '':'' ?a = Some (length (ipString ip))" using lastIndexByte_join [of "CHR '':''" "itoaNat p"] by simp
    ultimately show ?thesis using t(1) by (simp add: splitHostPort_def)
  qed
  ultimately show ?thesis by blast
qed

theorem ipv6_connect_undialable_witness:
  "\<exists>a. parseTarget (openTarget (ipString (replicate 15 0 @ [1])) 443) = Inr a \<and> splitHostPort a = None"
proof -
  have "Option.is_none (to4 (replicate 15 0 @ [1]))" by code_simp
  then have "to4 (replicate 15 0 @ [1]) = None" by (simp add: Option.is_none_def)
  then show ?thesis
    using ipv6_connect_undialable [of "[]" 443 "\<lparr>wout = [], wbreak = None\<rparr>" "replicate 15 0 @ [1]" "[]" EOF] by auto
qed

end
