(* ===== verification/State_Files.thy ===== *)
theory State_Files
  imports Go_Net
begin

text \<open>
  Files the server keeps between runs: \<open>secureCreateExclFile\<close>, \<open>writeFileSecure\<close> and
  \<open>atomicReplaceSecure\<close> of \<open>cmd/mxtr-server/main.go\<close> (lines 799 to 845) with the platform constant
  \<open>oNoFollow\<close>, over a model of the part of \<open>os\<close> and \<open>path/filepath\<close> they use.

  A file system maps cleaned paths to entries. A regular file has its bytes, its mode and a flag that says
  whether they have been synced: after a power loss an unsynced file may hold anything. Every call that the
  operating system may refuse has its outcome in a record \<open>os_io\<close>. The operations return the sequence of
  file systems they pass through, one for every byte written, because the process may die at any of them.
  Two names of one directory through a symbolic link count as different directories.
\<close>

section \<open>Paths\<close>

type_synonym pathkey = "bool \<times> string list"

definition comps :: "string \<Rightarrow> string list" where
  "comps p = filter (\<lambda>c. c \<noteq> [] \<and> c \<noteq> ''.'') (splitOn CHR ''/'' p)"

definition pathStep :: "bool \<Rightarrow> string list \<Rightarrow> string \<Rightarrow> string list" where
  "pathStep r acc c =
     (if c \<noteq> ''..'' then acc @ [c]
      else if acc \<noteq> [] \<and> last acc \<noteq> ''..'' then butlast acc
      else if r then acc else acc @ [c])"

text \<open>What \<open>filepath.Clean\<close> keeps of a path: whether it is rooted, and its elements.\<close>

definition pathKey :: "string \<Rightarrow> pathkey" where
  "pathKey p = (let r = hasPrefix ''/'' p in (r, foldl (pathStep r) [] (comps p)))"

fun joinWith :: "string \<Rightarrow> string list \<Rightarrow> string" where
  "joinWith sep [] = []"
| "joinWith sep [c] = c"
| "joinWith sep (c # cs) = c @ sep @ joinWith sep cs"

definition clean :: "string \<Rightarrow> string" where
  "clean p =
     (let (r, cs) = pathKey p
      in if cs = [] then (if r then ''/'' else ''.'') else (if r then ''/'' else []) @ joinWith ''/'' cs)"

text \<open>\<open>filepath.Dir\<close> and \<open>filepath.Join\<close> of two elements.\<close>

definition dirOf :: "string \<Rightarrow> string" where
  "dirOf p = clean (rev (dropWhile (\<lambda>c. c \<noteq> CHR ''/'') (rev p)))"

definition joinPath :: "string \<Rightarrow> string \<Rightarrow> string" where
  "joinPath a b = (case filter (\<lambda>e. e \<noteq> []) [a, b] of [] \<Rightarrow> [] | es \<Rightarrow> clean (joinWith ''/'' es))"

lemma splitOn_butlast:
  "sep \<notin> set suf \<Longrightarrow> splitOn sep (p @ suf) = butlast (splitOn sep p) @ [last (splitOn sep p) @ suf]"
proof (induction p)
  case Nil
  then show ?case by (simp add: splitOn_no_sep)
next
  case (Cons c p)
  obtain q qs where q: "splitOn sep p = q # qs" using splitOn_nonempty list.exhaust by metis
  show ?case using Cons q by (cases qs) auto
qed

text \<open>A path with a long enough suffix appended names a different entry: the temporary file is never the
  file itself.\<close>

lemma pathKey_suffix:
  assumes "CHR ''/'' \<notin> set suf" and "3 \<le> length suf"
  shows "snd (pathKey (p @ suf)) \<noteq> snd (pathKey p)" and "\<exists>cs c. snd (pathKey (p @ suf)) = cs @ [c]"
proof -
  obtain bs l where s: "splitOn CHR ''/'' p = bs @ [l]" using splitOn_nonempty rev_exhaust by metis
  let ?b = "filter (\<lambda>c. c \<noteq> [] \<and> c \<noteq> ''.'') bs"
  have long: "l @ suf \<noteq> []" "l @ suf \<noteq> ''.''" "l @ suf \<noteq> ''..''" "suf \<noteq> []"
    using assms(2) by (auto dest!: arg_cong [where f = length])
  have c1: "comps (p @ suf) = ?b @ [l @ suf]"
    using long by (simp add: comps_def splitOn_butlast [OF assms(1)] s)
  have c2: "comps p = ?b @ (if l = [] \<or> l = ''.'' then [] else [l])"
    by (simp add: comps_def s)
  have r: "hasPrefix ''/'' (p @ suf) = hasPrefix ''/'' p"
    using assms(1) long by (cases p; cases suf) (auto simp: hasPrefix_def)
  define acc where "acc = foldl (pathStep (hasPrefix ''/'' p)) [] ?b"
  have k1: "snd (pathKey (p @ suf)) = acc @ [l @ suf]"
    using long by (simp add: pathKey_def r c1 acc_def pathStep_def Let_def)
  show "\<exists>cs c. snd (pathKey (p @ suf)) = cs @ [c]" using k1 by blast
  have "snd (pathKey p) = (if l = [] \<or> l = ''.'' then acc else pathStep (hasPrefix ''/'' p) acc l)"
    by (simp add: pathKey_def c2 acc_def Let_def)
  moreover have "pathStep r acc l \<noteq> acc @ [l @ suf]" for r
    using long by (auto simp: pathStep_def dest: arg_cong [where f = length])
  ultimately show "snd (pathKey (p @ suf)) \<noteq> snd (pathKey p)"
    using k1 by (metis append_self_conv not_Cons_self2)
qed

section \<open>The file system\<close>

datatype fnode =
    FFile (fdata: bytes) (fmode: nat) (synced: bool)
  | FLink string
  | FDir

type_synonym fs = "pathkey \<rightharpoonup> fnode"

text \<open>The working directory, its ancestors and the root always exist.\<close>

definition nodeAt :: "fs \<Rightarrow> pathkey \<Rightarrow> fnode option" where
  "nodeAt fs k = (if list_all (\<lambda>c. c = ''..'') (snd k) then Some FDir else fs k)"

definition linkKey :: "pathkey \<Rightarrow> string \<Rightarrow> pathkey" where
  "linkKey k target =
     (if hasPrefix ''/'' target then pathKey target
      else (fst k, foldl (pathStep (fst k)) (butlast (snd k)) (comps target)))"

text \<open>Following symbolic links at the end of a path; the kernel gives up after 40 of them.\<close>

fun followKey :: "nat \<Rightarrow> fs \<Rightarrow> pathkey \<Rightarrow> pathkey option" where
  "followKey n fs k =
     (case nodeAt fs k of
        Some (FLink t) \<Rightarrow> (case n of 0 \<Rightarrow> None | Suc m \<Rightarrow> followKey m fs (linkKey k t))
      | _ \<Rightarrow> Some k)"

declare followKey.simps [simp del]

text \<open>\<open>os.ReadFile\<close>; the flag says whether the operating system lets the file be read.\<close>

definition readFile :: "bool \<Rightarrow> fs \<Rightarrow> string \<Rightarrow> bytes option" where
  "readFile ok fs path =
     (if \<not> ok then None
      else case followKey 40 fs (pathKey path) of
        None \<Rightarrow> None
      | Some k \<Rightarrow> (case nodeAt fs k of Some (FFile d m s) \<Rightarrow> Some d | _ \<Rightarrow> None))"

text \<open>\<open>os.MkdirAll\<close>: missing directories are made from the top; \<open>n\<close> is the number of \<open>mkdir\<close> calls the operating
  system allows. The callers ignore the error.\<close>

definition isDir :: "fs \<Rightarrow> pathkey \<Rightarrow> bool" where
  "isDir fs k \<longleftrightarrow> (case followKey 40 fs k of None \<Rightarrow> False | Some k' \<Rightarrow> nodeAt fs k' = Some FDir)"

fun mkdirs :: "nat \<Rightarrow> fs \<Rightarrow> bool \<Rightarrow> string list \<Rightarrow> string list \<Rightarrow> fs" where
  "mkdirs n fs r done [] = fs"
| "mkdirs n fs r done (c # cs) =
     (let k = (r, done @ [c])
      in if isDir fs k then mkdirs n fs r (done @ [c]) cs
         else if nodeAt fs k \<noteq> None \<or> n = 0 then fs
         else mkdirs (n - 1) (fs(k \<mapsto> FDir)) r (done @ [c]) cs)"

definition mkdirAll :: "nat \<Rightarrow> fs \<Rightarrow> string \<Rightarrow> fs" where
  "mkdirAll n fs path = (let (r, cs) = pathKey path in mkdirs n fs r [] cs)"

lemma mkdirs_keeps: "fs k = Some x \<Longrightarrow> mkdirs n fs r done cs k = Some x"
proof (induction cs arbitrary: n fs "done")
  case Nil
  then show ?case by simp
next
  case (Cons c cs)
  then show ?case
    by (auto simp: Let_def nodeAt_def intro!: Cons.IH split: if_splits)
qed

lemma mkdirAll_keeps: "fs k = Some x \<Longrightarrow> mkdirAll n fs path k = Some x"
  by (simp add: mkdirAll_def mkdirs_keeps split: prod.splits)

lemma mkdirs_adds: "mkdirs n fs r done cs k \<noteq> fs k \<Longrightarrow> fs k = None \<and> mkdirs n fs r done cs k = Some FDir"
proof (induction cs arbitrary: n fs "done")
  case Nil
  then show ?case by simp
next
  case (Cons c cs)
  let ?k = "(r, done @ [c])"
  show ?case
  proof (cases "isDir fs ?k \<or> nodeAt fs ?k \<noteq> None \<or> n = 0")
    case True
    then show ?thesis using Cons by (auto simp: Let_def split: if_splits)
  next
    case False
    then have m: "mkdirs n fs r done (c # cs) = mkdirs (n - 1) (fs(?k \<mapsto> FDir)) r (done @ [c]) cs"
      by (simp add: Let_def)
    have k: "fs ?k = None" using False by (auto simp: nodeAt_def split: if_splits)
    show ?thesis
    proof (cases "k = ?k")
      case True
      then show ?thesis using k m mkdirs_keeps [of "fs(?k \<mapsto> FDir)" k FDir] by simp
    next
      case False
      then have "(fs(?k \<mapsto> FDir)) k = fs k" by simp
      then show ?thesis
        using Cons.IH [of "n - 1" "fs(?k \<mapsto> FDir)" "done @ [c]"] Cons.prems unfolding m by (metis (no_types))
    qed
  qed
qed

section \<open>Secure writes\<close>

datatype os_error = EEXIST | ELOOP | EISDIR | RandFailed | OpenFailed | WriteFailed | SyncFailed | RenameFailed

record os_io =
  io_rand :: "bytes option"
  io_open :: bool
  io_write :: "nat option"
  io_sync :: bool
  io_rename :: bool
  io_remove :: bool

text \<open>\<open>os.OpenFile\<close> with \<open>O_CREATE|O_WRONLY\<close> and the given \<open>O_EXCL\<close> and \<open>O_NOFOLLOW\<close>: the entry opened.
  A new file is empty.\<close>

definition openFile :: "os_io \<Rightarrow> fs \<Rightarrow> bool \<Rightarrow> bool \<Rightarrow> pathkey \<Rightarrow> nat \<Rightarrow> os_error + (pathkey \<times> fs)" where
  "openFile io fs excl nofollow k mode =
     (if \<not> io_open io then Inl OpenFailed
      else if excl then
        (if nodeAt fs k = None then Inr (k, fs(k \<mapsto> FFile [] mode False)) else Inl EEXIST)
      else case followKey (if nofollow then 0 else 40) fs k of
        None \<Rightarrow> Inl ELOOP
      | Some k' \<Rightarrow>
          (case nodeAt fs k' of
             None \<Rightarrow> Inr (k', fs(k' \<mapsto> FFile [] mode False))
           | Some (FFile d m s) \<Rightarrow> Inr (k', fs)
           | Some _ \<Rightarrow> Inl EISDIR))"

text \<open>The constant of \<open>nofollow_unix.go\<close>: the flag is available.\<close>

definition oNoFollow :: bool where "oNoFollow = True"

definition secureCreateExclFile :: "os_io \<Rightarrow> fs \<Rightarrow> string \<Rightarrow> nat \<Rightarrow> os_error + (pathkey \<times> fs)" where
  "secureCreateExclFile io fs path mode = openFile io fs True oNoFollow (pathKey path) mode"

text \<open>The first \<open>k\<close> bytes of \<open>data\<close> written at the start of an open file; \<open>f.Sync\<close>; \<open>os.Remove\<close>.\<close>

definition writeAt :: "fs \<Rightarrow> pathkey \<Rightarrow> bytes \<Rightarrow> nat \<Rightarrow> fs" where
  "writeAt fs h data k =
     (case fs h of
        Some (FFile d m s) \<Rightarrow> fs(h \<mapsto> FFile (take k data @ drop k d) m False)
      | _ \<Rightarrow> fs)"

definition syncFile :: "fs \<Rightarrow> pathkey \<Rightarrow> fs" where
  "syncFile fs h = (case fs h of Some (FFile d m s) \<Rightarrow> fs(h \<mapsto> FFile d m True) | _ \<Rightarrow> fs)"

definition removeFile :: "os_io \<Rightarrow> fs \<Rightarrow> pathkey \<Rightarrow> fs" where
  "removeFile io fs k = (if io_remove io \<and> nodeAt fs k \<noteq> Some FDir then fs(k := None) else fs)"

definition writeFileSecure :: "os_io \<Rightarrow> fs \<Rightarrow> string \<Rightarrow> bytes \<Rightarrow> nat \<Rightarrow> os_error option \<times> fs list" where
  "writeFileSecure io fs path data mode =
     (case secureCreateExclFile io fs path mode of
        Inl e \<Rightarrow> (Some e, [fs])
      | Inr (h, fs1) \<Rightarrow>
          let n = (case io_write io of None \<Rightarrow> length data | Some k \<Rightarrow> min k (length data));
              ws = fs # map (writeAt fs1 h data) [0..<Suc n];
              fs2 = writeAt fs1 h data n
          in if io_write io \<noteq> None then (Some WriteFailed, ws @ [removeFile io fs2 (pathKey path)])
             else if io_sync io then (None, ws @ [syncFile fs2 h])
             else (Some SyncFailed, ws))"

text \<open>\<open>os.Rename\<close> replaces the entry at the new name, whatever it is, unless it is a directory.\<close>

definition renameFile :: "os_io \<Rightarrow> fs \<Rightarrow> pathkey \<Rightarrow> pathkey \<Rightarrow> fs option" where
  "renameFile io fs old new =
     (if io_rename io \<and> nodeAt fs old \<noteq> None \<and> nodeAt fs new \<noteq> Some FDir
      then Some ((fs(old := None))(new := fs old)) else None)"

definition tmpName :: "string \<Rightarrow> bytes \<Rightarrow> string" where
  "tmpName path rbuf = path @ ''.'' @ hexEncode rbuf @ ''.tmp''"

definition atomicReplaceSecure :: "os_io \<Rightarrow> fs \<Rightarrow> string \<Rightarrow> bytes \<Rightarrow> nat \<Rightarrow> os_error option \<times> fs list" where
  "atomicReplaceSecure io fs path data mode =
     (case io_rand io of
        None \<Rightarrow> (Some RandFailed, [fs])
      | Some rbuf \<Rightarrow>
          let tmp = tmpName path rbuf;
              (err, tr) = writeFileSecure io fs tmp data mode;
              fs1 = last tr
          in if err \<noteq> None then (err, tr)
             else case renameFile io fs1 (pathKey tmp) (pathKey path) of
               Some fs2 \<Rightarrow> (None, tr @ [fs2])
             | None \<Rightarrow> (Some RenameFailed, tr @ [removeFile io fs1 (pathKey tmp)]))"

section \<open>What the secure writes keep\<close>

lemma hexEncode_no_slash [simp]: "CHR ''/'' \<notin> set (hexEncode bs)"
  using hexEncode_hexVal [of "CHR ''/''" bs] by (auto simp: hexVal_def)

lemma tmpName_key:
  "pathKey (tmpName path rbuf) \<noteq> pathKey path" "snd (pathKey (tmpName path rbuf)) \<noteq> []"
  using pathKey_suffix [of "''.'' @ hexEncode rbuf @ ''.tmp''" path] by (auto simp: tmpName_def)

text \<open>Every state a secure write to a fresh entry passes through differs from the first one only there.\<close>

lemma writeFileSecure_trace:
  assumes "writeFileSecure io fs path data mode = (err, tr)"
  shows "tr \<noteq> []" and "hd tr = fs"
    and "fs' \<in> set tr \<Longrightarrow> fs' \<noteq> fs \<Longrightarrow> fs (pathKey path) = None"
    and "fs' \<in> set tr \<Longrightarrow> k \<noteq> pathKey path \<Longrightarrow> fs' k = fs k"
    and "err = None \<Longrightarrow> fs (pathKey path) = None \<and> nodeAt fs (pathKey path) = None \<and>
           last tr = fs(pathKey path \<mapsto> FFile data mode True)"
  using assms
  by (auto simp: writeFileSecure_def secureCreateExclFile_def openFile_def Let_def writeAt_def removeFile_def
      syncFile_def nodeAt_def split: if_splits option.splits)

lemma atomicReplaceSecure_ok:
  assumes "atomicReplaceSecure io fs path data mode = (None, tr)"
  shows "last tr = fs(pathKey path \<mapsto> FFile data mode True)" and "nodeAt fs (pathKey path) \<noteq> Some FDir"
proof -
  obtain rbuf err tr1 where r: "io_rand io = Some rbuf"
    and w: "writeFileSecure io fs (tmpName path rbuf) data mode = (err, tr1)"
    using assms by (cases "writeFileSecure io fs (tmpName path (the (io_rand io))) data mode")
      (auto simp: atomicReplaceSecure_def split: option.splits)
  note k = tmpName_key [of path rbuf]
  have e: "err = None" using assms r w by (auto simp: atomicReplaceSecure_def Let_def split: if_splits)
  note last = writeFileSecure_trace(5) [OF w e]
  obtain fs2 where rn: "renameFile io (last tr1) (pathKey (tmpName path rbuf)) (pathKey path) = Some fs2"
    and tr: "tr = tr1 @ [fs2]"
    using assms r w e by (auto simp: atomicReplaceSecure_def Let_def split: option.splits)
  from rn tr last k show "last tr = fs(pathKey path \<mapsto> FFile data mode True)"
    by (auto simp: renameFile_def split: if_splits)
  from rn last k show "nodeAt fs (pathKey path) \<noteq> Some FDir"
    by (auto simp: renameFile_def nodeAt_def split: if_splits)
qed

lemma replace_trace:
  assumes run: "atomicReplaceSecure io fs path data mode = (err, tr)"
  shows "hd tr = fs \<and> tr \<noteq> [] \<and>
    (\<forall>fs'\<in>set tr. (fs' (pathKey path) = fs (pathKey path) \<or> fs' (pathKey path) = Some (FFile data mode True)) \<and>
       (\<forall>k. k \<noteq> pathKey path \<and> fs k \<noteq> None \<longrightarrow> fs' k = fs k)) \<and>
    (err \<noteq> None \<longrightarrow> last tr (pathKey path) = fs (pathKey path))"
proof (cases "io_rand io")
  case None
  then show ?thesis using run by (auto simp: atomicReplaceSecure_def)
next
  case (Some rbuf)
  let ?t = "pathKey (tmpName path rbuf)"
  obtain e1 tr1 where w: "writeFileSecure io fs (tmpName path rbuf) data mode = (e1, tr1)" by fastforce
  note trace = writeFileSecure_trace [OF w] and k = tmpName_key [of path rbuf]
  have in1: "fs' (pathKey path) = fs (pathKey path) \<and> (\<forall>k. fs k \<noteq> None \<longrightarrow> fs' k = fs k)" if "fs' \<in> set tr1" for fs'
    using trace(3) [OF that] trace(4) [OF that] k by metis
  have l1: "last tr1 \<in> set tr1" using trace(1) by simp
  have rm: "removeFile io (last tr1) ?t (pathKey path) = fs (pathKey path) \<and>
      (\<forall>k. fs k \<noteq> None \<longrightarrow> removeFile io (last tr1) ?t k = fs k)" if "e1 = None"
    using in1 [OF l1] trace(5) [OF that] k by (auto simp: removeFile_def)
  show ?thesis
  proof (cases "e1 = None")
    case False
    then have "tr = tr1" "err = e1" using run Some w by (auto simp: atomicReplaceSecure_def Let_def)
    then show ?thesis using in1 trace(1,2) False l1 by blast
  next
    case e: True
    show ?thesis
    proof (cases "err = None")
      case True
      then have l: "last tr = fs(pathKey path \<mapsto> FFile data mode True)"
        using atomicReplaceSecure_ok run by blast
      have "tr = tr1 @ [fs(pathKey path \<mapsto> FFile data mode True)]"
        using run Some w e True l by (auto simp: atomicReplaceSecure_def Let_def split: option.splits)
      then show ?thesis using in1 trace(1,2) True by (auto simp: hd_append)
    next
      case False
      then have "tr = tr1 @ [removeFile io (last tr1) ?t]"
        using run Some w e by (auto simp: atomicReplaceSecure_def Let_def split: option.splits)
      then show ?thesis using in1 rm [OF e] trace(1,2) False by (auto simp: hd_append)
    qed
  qed
qed

lemma replace_trace_nonempty: "atomicReplaceSecure io fs path data mode = (err, tr) \<Longrightarrow> tr \<noteq> []"
  using replace_trace by blast

lemma atomicReplace_keeps:
  assumes "atomicReplaceSecure io fs path data mode = (err, tr)" and "fs' \<in> set tr" and "k \<noteq> pathKey path"
    and "fs k = Some x"
  shows "fs' k = Some x"
proof -
  have "\<forall>k. k \<noteq> pathKey path \<and> fs k \<noteq> None \<longrightarrow> fs' k = fs k"
    using replace_trace [OF assms(1)] assms(2) by blast
  then show ?thesis using assms(3,4) by (metis option.distinct(1))
qed

text \<open>No step of a replacement makes a symbolic link.\<close>

lemma writeFileSecure_no_link:
  assumes "writeFileSecure io fs path data mode = (err, tr)" and "fs' \<in> set tr" and "fs' k = Some (FLink t)"
  shows "fs k = Some (FLink t)"
proof (cases "k = pathKey path")
  case False
  then show ?thesis using writeFileSecure_trace(4) [OF assms(1,2)] assms(3) by simp
next
  case True
  then show ?thesis
    using assms
    by (auto simp: writeFileSecure_def secureCreateExclFile_def openFile_def Let_def writeAt_def removeFile_def
        syncFile_def split: if_splits option.splits fnode.splits)
qed

lemma replace_no_link:
  assumes run: "atomicReplaceSecure io fs path data mode = (err, tr)" and "fs' \<in> set tr" and "fs' k = Some (FLink t)"
  shows "fs k = Some (FLink t)"
proof (cases "io_rand io")
  case None
  then show ?thesis using assms by (auto simp: atomicReplaceSecure_def)
next
  case (Some rbuf)
  obtain e1 tr1 where w: "writeFileSecure io fs (tmpName path rbuf) data mode = (e1, tr1)" by fastforce
  note nl = writeFileSecure_no_link [OF w] and l1 = last_in_set [OF writeFileSecure_trace(1) [OF w]]
  consider "fs' \<in> set tr1" | "fs' = removeFile io (last tr1) (pathKey (tmpName path rbuf))"
    | "renameFile io (last tr1) (pathKey (tmpName path rbuf)) (pathKey path) = Some fs'" "e1 = None"
    using run Some w assms(2) by (auto simp: atomicReplaceSecure_def Let_def split: option.splits if_splits)
  then show ?thesis
  proof cases
    case 1
    then show ?thesis using nl assms(3) by blast
  next
    case 2
    then show ?thesis using nl [OF l1] assms(3) by (auto simp: removeFile_def split: if_splits)
  next
    case 3
    then show ?thesis
      using nl [OF l1] assms(3) writeFileSecure_trace(5) [OF w 3(2)]
      by (auto simp: renameFile_def split: if_splits)
  qed
qed

section \<open>Properties\<close>

text \<open>C21. Whatever fails and wherever the process dies, the state file holds its old entry or the complete new
  content already synced to disk, and no other entry that existed before is touched, so a symbolic link
  planted at the path or at the temporary name redirects nothing. Success leaves exactly the new file, a
  failure leaves the path as it was.\<close>

theorem replace_crash_safe:
  assumes run: "atomicReplaceSecure io fs path data mode = (err, tr)"
  shows "hd tr = fs \<and>
    (\<forall>fs'\<in>set tr. (fs' (pathKey path) = fs (pathKey path) \<or> fs' (pathKey path) = Some (FFile data mode True)) \<and>
       (\<forall>k. k \<noteq> pathKey path \<and> fs k \<noteq> None \<longrightarrow> fs' k = fs k)) \<and>
    (err = None \<longrightarrow> last tr = fs(pathKey path \<mapsto> FFile data mode True)) \<and>
    (err \<noteq> None \<longrightarrow> last tr (pathKey path) = fs (pathKey path))"
proof -
  have "last tr = fs(pathKey path \<mapsto> FFile data mode True)" if "err = None"
    using atomicReplaceSecure_ok(1) run that by blast
  then show ?thesis using replace_trace [OF run] by (intro conjI) simp_all
qed

definition demo_io :: os_io where
  "demo_io = \<lparr>io_rand = Some [0xDE, 0xAD, 0xBE, 0xEF], io_open = True, io_write = None, io_sync = True,
     io_rename = True, io_remove = True\<rparr>"

text \<open>An attacker planted a symbolic link to \<open>/etc/passwd\<close> where the state file goes.\<close>

definition demo_fs :: fs where
  "demo_fs = [(True, [''etc'', ''passwd'']) \<mapsto> FFile [114] 420 True, (False, [''psk'']) \<mapsto> FLink ''/etc/passwd'']"

lemma demo_replace:
  "fst (atomicReplaceSecure demo_io demo_fs ''psk'' [1, 2] 384) = None"
  by code_simp

theorem replace_crash_safe_witness:
  "(let (err, tr) = atomicReplaceSecure demo_io demo_fs ''psk'' [1, 2] 384
    in err = None \<and> last tr (False, [''psk'']) = Some (FFile [1, 2] 384 True) \<and>
       (\<forall>fs'\<in>set tr. fs' (True, [''etc'', ''passwd'']) = Some (FFile [114] 420 True)))"
proof -
  obtain err tr where r: "atomicReplaceSecure demo_io demo_fs ''psk'' [1, 2] 384 = (err, tr)" by fastforce
  have e: "err = None" using demo_replace r by simp
  have k: "pathKey ''psk'' = (False, [''psk''])" by code_simp
  have p: "demo_fs (True, [''etc'', ''passwd'']) = Some (FFile [114] 420 True)" by (simp add: demo_fs_def)
  have "fs' (True, [''etc'', ''passwd'']) = Some (FFile [114] 420 True)" if "fs' \<in> set tr" for fs'
    using replace_crash_safe [OF r] that p k by fastforce
  then show ?thesis using replace_crash_safe [OF r] r e k by simp
qed

end
