(* ===== verification/Logger.thy ===== *)
theory Logger
  imports Go_Strings
begin

text \<open>
  \<open>cmd/mxtr-server/logger.go\<close>: the log levels, \<open>parseLogLevel\<close>, \<open>configureLogger\<close>, \<open>logEnabled\<close> and the
  three helpers. Of \<open>log/slog\<close> the model has the default logger: before \<open>configureLogger\<close> it is the
  standard handler, which writes to stderr from level Info on; \<open>slog.SetDefault\<close> installs a text handler
  with a minimum level and also routes the output of the \<open>log\<close> package, which \<open>log.Fatal\<close> uses, through that
  handler at level Info. What a call prints is a list of messages of any type.
\<close>

section \<open>Levels\<close>

datatype LogLevel = LogOff | LogError | LogWarn | LogInfo | LogDebug

text \<open>The value of the \<open>iota\<close> constants.\<close>

fun levelNum :: "LogLevel \<Rightarrow> nat" where
  "levelNum LogOff = 0"
| "levelNum LogError = 1"
| "levelNum LogWarn = 2"
| "levelNum LogInfo = 3"
| "levelNum LogDebug = 4"

lemma levelNum_inject: "levelNum a = levelNum b \<Longrightarrow> a = b"
  by (cases a; cases b) simp_all

instantiation LogLevel :: linorder
begin

definition less_eq_LogLevel :: "LogLevel \<Rightarrow> LogLevel \<Rightarrow> bool" where
  "less_eq_LogLevel a b \<longleftrightarrow> levelNum a \<le> levelNum b"

definition less_LogLevel :: "LogLevel \<Rightarrow> LogLevel \<Rightarrow> bool" where
  "less_LogLevel a b \<longleftrightarrow> levelNum a < levelNum b"

instance
  by standard (auto simp: less_eq_LogLevel_def less_LogLevel_def intro: levelNum_inject)

end

definition parseLogLevel :: "(string \<Rightarrow> string) \<Rightarrow> string \<Rightarrow> LogLevel option" where
  "parseLogLevel uni s =
     (let t = toLower uni (trimSpace s)
      in if t \<in> {''off'', ''none'', ''silent''} then Some LogOff
         else if t \<in> {''error'', ''err''} then Some LogError
         else if t \<in> {''warn'', ''warning''} then Some LogWarn
         else if t = ''info'' then Some LogInfo
         else if t \<in> {''debug'', ''trace''} then Some LogDebug
         else None)"

section \<open>The logger\<close>

record slogHandler =
  discards :: bool
  minLevel :: int

record logger =
  currentLogLevel :: LogLevel
  slogDefault :: "slogHandler option"

definition slogInfo :: int where "slogInfo = 0"
definition slogWarn :: int where "slogWarn = 4"
definition slogError :: int where "slogError = 8"
definition slogDebug :: int where "slogDebug = - 4"

text \<open>The state after \<open>init\<close>.\<close>

definition initLogger :: logger where
  "initLogger = \<lparr>currentLogLevel = LogInfo, slogDefault = None\<rparr>"

definition configureLogger :: "LogLevel \<Rightarrow> logger \<Rightarrow> logger" where
  "configureLogger level lg =
     lg\<lparr>currentLogLevel := level,
        slogDefault := Some (case level of
            LogOff \<Rightarrow> \<lparr>discards = True, minLevel = slogError + 100\<rparr>
          | LogError \<Rightarrow> \<lparr>discards = False, minLevel = slogError\<rparr>
          | LogWarn \<Rightarrow> \<lparr>discards = False, minLevel = slogWarn\<rparr>
          | LogInfo \<Rightarrow> \<lparr>discards = False, minLevel = slogInfo\<rparr>
          | LogDebug \<Rightarrow> \<lparr>discards = False, minLevel = slogDebug\<rparr>)\<rparr>"

definition logEnabled :: "logger \<Rightarrow> LogLevel \<Rightarrow> bool" where
  "logEnabled lg level \<longleftrightarrow> level \<le> currentLogLevel lg"

text \<open>What the default slog logger, and the \<open>log\<close> package, print of a message.\<close>

definition slogPrint :: "logger \<Rightarrow> int \<Rightarrow> 'm \<Rightarrow> 'm list" where
  "slogPrint lg level msg =
     (case slogDefault lg of
        None \<Rightarrow> if slogInfo \<le> level then [msg] else []
      | Some h \<Rightarrow> if minLevel h \<le> level \<and> \<not> discards h then [msg] else [])"

definition stdLogPrint :: "logger \<Rightarrow> 'm \<Rightarrow> 'm list" where
  "stdLogPrint lg msg = (case slogDefault lg of None \<Rightarrow> [msg] | Some h \<Rightarrow> slogPrint lg slogInfo msg)"

definition logErrorf :: "logger \<Rightarrow> 'm \<Rightarrow> 'm list" where
  "logErrorf lg msg = (if logEnabled lg LogError then slogPrint lg slogError msg else [])"

definition logWarnf :: "logger \<Rightarrow> 'm \<Rightarrow> 'm list" where
  "logWarnf lg msg = (if logEnabled lg LogWarn then slogPrint lg slogWarn msg else [])"

definition logInfof :: "logger \<Rightarrow> 'm \<Rightarrow> 'm list" where
  "logInfof lg msg = (if logEnabled lg LogInfo then slogPrint lg slogInfo msg else [])"

lemmas logger_defs = configureLogger_def logErrorf_def logWarnf_def logInfof_def stdLogPrint_def slogPrint_def
  logEnabled_def slogInfo_def slogWarn_def slogError_def slogDebug_def less_eq_LogLevel_def

lemma logf_configured:
  "logErrorf (configureLogger l lg) m = (if LogError \<le> l then [m] else [])"
  "logWarnf (configureLogger l lg) m = (if LogWarn \<le> l then [m] else [])"
  "logInfof (configureLogger l lg) m = (if LogInfo \<le> l then [m] else [])"
  "stdLogPrint (configureLogger l lg) m = (if LogInfo \<le> l then [m] else [])"
  by (cases l; simp add: logger_defs)+

lemma logf_init:
  "logErrorf initLogger m = [m]" "logWarnf initLogger m = [m]" "logInfof initLogger m = [m]"
  "stdLogPrint initLogger m = [m]"
  by (simp_all add: logger_defs initLogger_def)

end
