(* ===== verification/Identity.thy ===== *)
theory Identity
  imports State_Files Camouflage Allowlist Logger
begin

text \<open>
  The identity the server shows to the network and keeps across restarts: \<open>resolveCloakFamily\<close>,
  \<open>resolvePersistedCN\<close>, \<open>generateSyntheticCN\<close> and \<open>generateSelfSignedCertWithCN\<close> of
  \<open>cmd/mxtr-server/main.go\<close> (lines 466 to 527 and 892 to 977). Random draws and the outcomes of system calls are
  arguments. The functions return, beside their result, the file systems they pass through and what they log.
\<close>

section \<open>Log messages of the server\<close>

datatype msg =
    AllowIgnored string
  | AllowListSet "allowEntry list"
  | Starting
  | PskLoaded string
  | PskNotPersisted string os_error
  | PskGenerated string
  | CloakReused int string
  | CloakUnparseable string string
  | CloakNotPersisted string os_error
  | CloakPersisted bool nat string
  | CloakSummary string
  | CnReused string
  | CnInvalid string
  | CnNotPersisted string os_error
  | CnPersisted bool string string
  | CertLoaded string
  | CertReady string
  | AutoDetected string
  | ShareLine string
  | FatalLine string

section \<open>Synthetic host names\<close>

definition cdnCities :: "string list" where
  "cdnCities =
     [''fra'', ''ams'', ''lon'', ''par'', ''mil'', ''sg'', ''hkg'', ''tyo'', ''syd'', ''sjc'',
      ''lax'', ''ord'', ''dal'', ''mia'', ''jfk'', ''sfo'', ''dfw'', ''atl'', ''sea'', ''dub'',
      ''mad'', ''prg'', ''mun'', ''ber'', ''vie'', ''zur'', ''war'', ''hel'', ''sto'', ''osl'',
      ''cph'', ''bru'', ''bcn'', ''vlc'', ''lis'', ''ath'', ''ist'', ''dxb'', ''nrt'', ''kix'',
      ''pek'', ''sha'', ''bom'', ''del'', ''blr'', ''cgk'', ''kul'', ''mnl'', ''akl'', ''yyz'',
      ''hnd'', ''gru'', ''scl'', ''mex'', ''lhr'', ''cdg'', ''ham'', ''tll'', ''vno'', ''rix'']"

definition edgeApexes :: "string list" where
  "edgeApexes =
     [''hosted-edge.net'', ''vmpool-cloud.com'', ''dc-nodes.net'', ''netregion-hosting.io'',
      ''corenet-dc.net'', ''srvcloud-host.com'', ''racknode-systems.io'', ''edge-datacenter.net'',
      ''datacore-hosting.com'', ''cloudspan-hosting.net'', ''regionhost-dc.com'', ''relaynode-mta.net'',
      ''vmcluster-host.net'', ''gridnode-cloud.io'', ''metro-edge-dc.com'', ''northbridge-host.net'']"

text \<open>\<open>mrand.IntN(n)\<close> for the draw \<open>r\<close> of a 64-bit generator.\<close>

definition intN :: "nat \<Rightarrow> nat \<Rightarrow> nat" where "intN n r = r mod n"

record cnrand =
  cr_region :: nat
  cr_num :: nat
  cr_apex :: nat
  cr_shape :: nat

definition generateSyntheticCN :: "cnrand \<Rightarrow> string" where
  "generateSyntheticCN cr =
     (let region = cdnCities ! intN (length cdnCities) (cr_region cr);
          num = itoaNat (intN 999 (cr_num cr) + 1);
          apex = edgeApexes ! intN (length edgeApexes) (cr_apex cr);
          shape = intN 7 (cr_shape cr)
      in if shape = 0 then ''srv'' @ num @ ''-'' @ region @ ''.'' @ apex
         else if shape = 1 then ''node-'' @ region @ ''-'' @ num @ ''.'' @ apex
         else if shape = 2 then ''host'' @ num @ ''.'' @ region @ ''.'' @ apex
         else if shape = 3 then ''edge-'' @ region @ num @ ''.'' @ apex
         else if shape = 4 then region @ ''-gw'' @ num @ ''.'' @ apex
         else if shape = 5 then ''vm'' @ num @ ''.'' @ region @ ''.'' @ apex
         else if shape = 6 then ''pop-'' @ region @ ''-'' @ num @ ''.'' @ apex
         else ''n'' @ num @ ''-'' @ region @ ''.'' @ apex)"

subsection \<open>They are valid host names\<close>

definition okc :: "char \<Rightarrow> bool" where
  "okc c \<longleftrightarrow> lower c \<or> upper c \<or> digit c \<or> c = CHR ''-''"

definition wordOK :: "string \<Rightarrow> bool" where
  "wordOK w \<longleftrightarrow> w \<noteq> [] \<and> hd w \<noteq> CHR ''-'' \<and> last w \<noteq> CHR ''-'' \<and> list_all okc w"

lemma wordOK_append [intro]: "wordOK a \<Longrightarrow> wordOK b \<Longrightarrow> wordOK (a @ b)"
  by (simp add: wordOK_def)

lemma wordOK_dash: "wordOK a \<Longrightarrow> wordOK b \<Longrightarrow> wordOK (a @ ''-'' @ b)"
  by (simp add: wordOK_def okc_def)

lemma wordOK_itoa: "wordOK (itoaNat n)"
proof -
  have "digit c \<and> c \<noteq> CHR ''-''" if "c \<in> set (itoaNat n)" for c
    using itoaNat_codes [OF that] by (auto simp: digit_def)
  then show ?thesis by (auto simp: wordOK_def okc_def list_all_iff)
qed

lemma wordOK_no_dot: "wordOK w \<Longrightarrow> CHR ''.'' \<notin> set w \<and> CHR '':'' \<notin> set w"
  by (auto simp: wordOK_def okc_def list_all_iff lower_def upper_def digit_def)

lemma isValidHostname_words:
  "isValidHostname s \<longleftrightarrow> s \<noteq> [] \<and> length s \<le> 253 \<and> parseIP s = None \<and>
     list_all (\<lambda>l. wordOK l \<and> length l \<le> 63) (splitOn CHR ''.'' s)"
proof -
  have "(\<lambda>l. \<not> (length l = 0 \<or> 63 < length l) \<and> \<not> (l ! 0 = CHR ''-'' \<or> l ! (length l - 1) = CHR ''-'') \<and>
      list_all (\<lambda>c. lower c \<or> upper c \<or> digit c \<or> c = CHR ''-'') l) = (\<lambda>l. wordOK l \<and> length l \<le> 63)"
    by (rule ext) (auto simp: wordOK_def okc_def [abs_def] hd_conv_nth last_conv_nth)
  then show ?thesis unfolding isValidHostname_def by (simp only: length_0_conv not_less de_Morgan_disj conj_assoc)
qed

lemma parseIPScan_no_colon: "CHR '':'' \<notin> set t \<Longrightarrow> parseIPv4Fields s = None \<Longrightarrow> parseIPScan s t = None"
  by (induction t) auto

lemma parseIP_letter: "CHR '':'' \<notin> set cs \<Longrightarrow> lower c \<Longrightarrow> parseIP (c # cs) = None"
  unfolding parseIP_def
  by (rule parseIPScan_no_colon) (auto simp: parseIPv4Fields_def lower_def digitVal_def)

lemma cities_ok: "c \<in> set cdnCities \<Longrightarrow> wordOK c \<and> lower (hd c) \<and> length c \<le> 3"
proof -
  have "list_all (\<lambda>c. wordOK c \<and> lower (hd c) \<and> length c \<le> 3) cdnCities" by code_simp
  then show "c \<in> set cdnCities \<Longrightarrow> wordOK c \<and> lower (hd c) \<and> length c \<le> 3" by (simp add: list_all_iff)
qed

lemma apexes_ok:
  "a \<in> set edgeApexes \<Longrightarrow> CHR '':'' \<notin> set a \<and> length a \<le> 30 \<and>
     list_all (\<lambda>l. wordOK l \<and> length l \<le> 63) (splitOn CHR ''.'' a)"
proof -
  have "list_all (\<lambda>a. list_all (\<lambda>c. c \<noteq> CHR '':'') a \<and> length a \<le> 30 \<and>
     list_all (\<lambda>l. wordOK l \<and> length l \<le> 63) (splitOn CHR ''.'' a)) edgeApexes" by code_simp
  then show "a \<in> set edgeApexes \<Longrightarrow> ?thesis" by (auto simp: list_all_iff)
qed

lemma itoa_len: "n \<le> 999 \<Longrightarrow> length (itoaNat n) \<le> 3"
  by (simp add: itoaNat.simps [of n] itoaNat.simps [of "n div 10"] itoaNat.simps [of "n div 10 div 10"])

text \<open>One label in front of an apex, and two.\<close>

lemma host1:
  assumes "wordOK l" and "lower (hd l)" and "length l \<le> 63" and "a \<in> set edgeApexes"
  shows "isValidHostname (l @ ''.'' @ a)"
proof -
  obtain c cs where l: "l = c # cs" using assms(1) by (cases l) (auto simp: wordOK_def)
  show ?thesis
    using assms apexes_ok [OF assms(4)] wordOK_no_dot [OF assms(1)] parseIP_letter [of "cs @ ''.'' @ a" c]
    by (auto simp: isValidHostname_words splitOn_append [of _ "c # cs", simplified] splitOn_append l)
qed

lemma host2:
  assumes "wordOK l" and "lower (hd l)" and "length l \<le> 63" and "wordOK r" and "length r \<le> 3" and "a \<in> set edgeApexes"
  shows "isValidHostname (l @ ''.'' @ r @ ''.'' @ a)"
proof -
  obtain c cs where l: "l = c # cs" using assms(1) by (cases l) (auto simp: wordOK_def)
  show ?thesis
    using assms apexes_ok [OF assms(6)] wordOK_no_dot [OF assms(1)] wordOK_no_dot [OF assms(4)]
      parseIP_letter [of "cs @ ''.'' @ r @ ''.'' @ a" c]
    by (auto simp: isValidHostname_words splitOn_append [of _ "c # cs", simplified] splitOn_append l)
qed

lemma synthetic_cn_valid: "isValidHostname (generateSyntheticCN cr)"
proof -
  let ?r = "cdnCities ! intN (length cdnCities) (cr_region cr)"
  let ?n = "itoaNat (intN 999 (cr_num cr) + 1)"
  let ?a = "edgeApexes ! intN (length edgeApexes) (cr_apex cr)"
  have "0 < length cdnCities" "0 < length edgeApexes" by (simp_all add: cdnCities_def edgeApexes_def)
  then have r: "?r \<in> set cdnCities" and a: "?a \<in> set edgeApexes" by (simp_all add: intN_def)
  have "intN 999 (cr_num cr) + 1 \<le> 999"
    using mod_less_divisor [of 999 "cr_num cr"] by (simp add: intN_def)
  then have n: "wordOK ?n" "length ?n \<le> 3" using wordOK_itoa itoa_len by blast+
  note c = cities_ok [OF r]
  have rn: "?r \<noteq> []" using c by (simp add: wordOK_def)
  have w: "wordOK ''srv''" "wordOK ''node''" "wordOK ''host''" "wordOK ''edge''" "wordOK ''gw''" "wordOK ''vm''"
    "wordOK ''pop''" "wordOK ''n''"
    by (simp_all add: wordOK_def okc_def lower_def)
  have words: "wordOK (''srv'' @ ?n @ ''-'' @ ?r)" "wordOK (''node'' @ ''-'' @ ?r @ ''-'' @ ?n)" "wordOK (''host'' @ ?n)"
    "wordOK (''edge'' @ ''-'' @ ?r @ ?n)" "wordOK (?r @ ''-'' @ ''gw'' @ ?n)" "wordOK (''vm'' @ ?n)"
    "wordOK (''pop'' @ ''-'' @ ?r @ ''-'' @ ?n)" "wordOK (''n'' @ ?n @ ''-'' @ ?r)"
    using w n c by (blast intro: wordOK_dash)+
  note hosts = words(1,2,4,5,7,8) [THEN host1, OF _ _ a] words(3,6) [THEN host2, OF _ _ _ _ a]
  have "lower (hd ?r)" "length ?r \<le> 3" "wordOK ?r" using c by auto
  then show ?thesis
    using hosts n rn unfolding generateSyntheticCN_def Let_def by (auto simp: lower_def)
qed

section \<open>Persisted choices\<close>

text \<open>What the operating system answers during one resolution: whether the old file can be read, how many
  directories can be made, and the outcomes of the replacement.\<close>

record resolve_io =
  r_read :: bool
  r_mkdir :: nat
  r_io :: os_io

text \<open>The common tail of the three writers of state files: make the directory, replace the file (mode 0600).\<close>

definition persistState :: "resolve_io \<Rightarrow> fs \<Rightarrow> string \<Rightarrow> string \<Rightarrow> os_error option \<times> fs list" where
  "persistState ri fs path line =
     (let dir = dirOf path;
          fs1 = (if dir \<noteq> [] \<and> dir \<noteq> ''.'' then mkdirAll (r_mkdir ri) fs dir else fs);
          (err, tr) = atomicReplaceSecure (r_io ri) fs1 path (bytes_of (line @ nl)) 384
      in (err, fs # tr))"

definition resolveCloakFamily ::
  "logger \<Rightarrow> resolve_io \<Rightarrow> bytes option \<Rightarrow> fs \<Rightarrow> string \<Rightarrow> bool \<Rightarrow> camouflageFamily \<times> fs list \<times> msg list" where
  "resolveCloakFamily lg ri seedBuf fs statePath rot =
     (let fresh = (\<lambda>ms.
            let idx = pickRandomFamilyIdx seedBuf;
                (err, tr) = persistState ri fs statePath (itoaNat idx)
            in (camouflageFamilies ! idx, tr,
                ms @ (case err of
                        Some e \<Rightarrow> logWarnf lg (CloakNotPersisted statePath e)
                      | None \<Rightarrow> logInfof lg (CloakPersisted rot idx statePath))))
      in case (if rot then None else readFile (r_read ri) fs statePath) of
           None \<Rightarrow> fresh []
         | Some data \<Rightarrow>
             let s = trimSpace (string_of data)
             in case atoi s of
                  Some idx \<Rightarrow>
                    if 0 \<le> idx \<and> idx < int (length camouflageFamilies)
                    then (camouflageFamilies ! nat idx, [fs],
                          logInfof lg (CloakReused idx (displayName (server (camouflageFamilies ! nat idx)))))
                    else fresh (logWarnf lg (CloakUnparseable statePath s))
                | None \<Rightarrow> fresh (logWarnf lg (CloakUnparseable statePath s)))"

definition resolvePersistedCN ::
  "logger \<Rightarrow> resolve_io \<Rightarrow> cnrand \<Rightarrow> fs \<Rightarrow> string \<Rightarrow> bool \<Rightarrow> string \<times> fs list \<times> msg list" where
  "resolvePersistedCN lg ri cr fs path rot =
     (let fresh = (\<lambda>ms.
            let cn = generateSyntheticCN cr;
                (err, tr) = persistState ri fs path cn
            in (cn, tr,
                ms @ (case err of
                        Some e \<Rightarrow> logWarnf lg (CnNotPersisted path e)
                      | None \<Rightarrow> logInfof lg (CnPersisted rot cn path))))
      in case (if rot then None else readFile (r_read ri) fs path) of
           None \<Rightarrow> fresh []
         | Some data \<Rightarrow>
             let cn = trimSpace (string_of data)
             in if isValidHostname cn then (cn, [fs], logInfof lg (CnReused cn))
                else fresh (if cn \<noteq> [] then logWarnf lg (CnInvalid cn) else []))"

subsection \<open>What persisting leaves behind\<close>

lemma readFile_regular: "nodeAt fs (pathKey path) = Some (FFile d m s) \<Longrightarrow> readFile True fs path = Some d"
  by (simp add: readFile_def followKey.simps)

lemma persistState_keeps:
  assumes "persistState ri fs path line = (err, tr)" and "fs k = Some x" and "k \<noteq> pathKey path" and "fs' \<in> set tr"
  shows "fs' k = Some x"
proof -
  let ?fs1 = "if dirOf path \<noteq> [] \<and> dirOf path \<noteq> ''.'' then mkdirAll (r_mkdir ri) fs (dirOf path) else fs"
  obtain tr1 where r: "atomicReplaceSecure (r_io ri) ?fs1 path (bytes_of (line @ nl)) 384 = (err, tr1)"
    and tr: "tr = fs # tr1"
    using assms(1) by (auto simp: persistState_def Let_def split: prod.splits)
  have "?fs1 k = Some x" using assms(2) by (simp add: mkdirAll_keeps)
  then show ?thesis
    using atomicReplace_keeps [OF r _ assms(3)] assms tr by auto
qed

lemma persistState_ok:
  assumes "persistState ri fs path line = (None, tr)"
  shows "readFile True (last tr) path = Some (bytes_of (line @ nl))"
    and "last tr (pathKey path) = Some (FFile (bytes_of (line @ nl)) 384 True)"
proof -
  obtain fs1 tr1 where r: "atomicReplaceSecure (r_io ri) fs1 path (bytes_of (line @ nl)) 384 = (None, tr1)"
    and tr: "tr = fs # tr1" "tr1 \<noteq> []"
    using assms replace_trace_nonempty by (fastforce simp: persistState_def Let_def split: prod.splits)
  note ok = atomicReplaceSecure_ok [OF r]
  show l: "last tr (pathKey path) = Some (FFile (bytes_of (line @ nl)) 384 True)" using ok tr by simp
  then have "nodeAt (last tr) (pathKey path) = Some (FFile (bytes_of (line @ nl)) 384 True)"
    using ok(2) by (auto simp: nodeAt_def split: if_splits)
  then show "readFile True (last tr) path = Some (bytes_of (line @ nl))" by (rule readFile_regular)
qed

lemma persistState_trace:
  assumes "persistState ri fs path line = (err, tr)"
  shows "tr \<noteq> []" and "hd tr = fs"
    and "fs' \<in> set tr \<Longrightarrow> fs (pathKey path) = Some x \<Longrightarrow>
      fs' (pathKey path) = Some x \<or> fs' (pathKey path) = Some (FFile (bytes_of (line @ nl)) 384 True)"
proof -
  let ?fs1 = "if dirOf path \<noteq> [] \<and> dirOf path \<noteq> ''.'' then mkdirAll (r_mkdir ri) fs (dirOf path) else fs"
  obtain tr1 where r: "atomicReplaceSecure (r_io ri) ?fs1 path (bytes_of (line @ nl)) 384 = (err, tr1)"
    and tr: "tr = fs # tr1"
    using assms(1) by (auto simp: persistState_def Let_def split: prod.splits)
  show "tr \<noteq> []" "hd tr = fs" using tr by auto
  assume f: "fs' \<in> set tr" and x: "fs (pathKey path) = Some x"
  have "?fs1 (pathKey path) = Some x" using x by (simp add: mkdirAll_keeps)
  moreover have "fs' = fs \<or> fs' (pathKey path) = ?fs1 (pathKey path) \<or>
      fs' (pathKey path) = Some (FFile (bytes_of (line @ nl)) 384 True)"
    using replace_trace [OF r] f tr by auto
  ultimately show "fs' (pathKey path) = Some x \<or> fs' (pathKey path) = Some (FFile (bytes_of (line @ nl)) 384 True)"
    using x by auto
qed

section \<open>A choice that survives restarts\<close>

text \<open>The entry at a path, where symbolic links do not matter.\<close>

definition stateAt :: "fs \<Rightarrow> string \<Rightarrow> bytes option" where
  "stateAt fs path = (case nodeAt fs (pathKey path) of Some (FFile d m s) \<Rightarrow> Some d | _ \<Rightarrow> None)"

definition noLink :: "fs \<Rightarrow> string \<Rightarrow> bool" where
  "noLink fs path \<longleftrightarrow> (case fs (pathKey path) of Some (FLink t) \<Rightarrow> False | _ \<Rightarrow> True)"

lemma followKey_noLink: "noLink fs path \<Longrightarrow> followKey n fs (pathKey path) = Some (pathKey path)"
  by (subst followKey.simps) (auto simp: noLink_def nodeAt_def split: option.splits fnode.splits)

lemma readFile_stateAt: "noLink fs path \<Longrightarrow> readFile ok fs path = (if ok then stateAt fs path else None)"
  by (simp add: readFile_def stateAt_def followKey_noLink)

lemma stateAt_cong: "fs (pathKey path) = fs' (pathKey path) \<Longrightarrow> stateAt fs path = stateAt fs' path"
  by (simp add: stateAt_def nodeAt_def)

lemma noLink_stateAt: "stateAt fs path = Some d \<Longrightarrow> noLink fs path"
  by (auto simp: stateAt_def noLink_def nodeAt_def split: option.splits fnode.splits if_splits)

lemma persistState_noLink:
  assumes "persistState ri fs path line = (err, tr)" and "fs' \<in> set tr" and "noLink fs p"
  shows "noLink fs' p"
proof -
  let ?fs1 = "if dirOf path \<noteq> [] \<and> dirOf path \<noteq> ''.'' then mkdirAll (r_mkdir ri) fs (dirOf path) else fs"
  obtain tr1 where r: "atomicReplaceSecure (r_io ri) ?fs1 path (bytes_of (line @ nl)) 384 = (err, tr1)"
    and tr: "tr = fs # tr1"
    using assms(1) by (auto simp: persistState_def Let_def split: prod.splits)
  have mk: "mkdirAll n fs q k = Some (FLink t) \<Longrightarrow> fs k = Some (FLink t)" for n q k t
    using mkdirs_adds [of n fs "fst (pathKey q)" "[]" "snd (pathKey q)" k]
    by (cases "mkdirAll n fs q k = fs k") (auto simp: mkdirAll_def split: prod.splits)
  have "fs (pathKey p) = Some (FLink t)" if "fs' (pathKey p) = Some (FLink t)" for t
    using replace_no_link [OF r, of fs' "pathKey p" t] mk [of _ _ "pathKey p" t] that tr assms(2) by (auto split: if_splits)
  then show ?thesis using assms(3) by (auto simp: noLink_def split: option.splits fnode.splits)
qed

lemma stateAt_node: "stateAt fs path = Some d \<longleftrightarrow> (\<exists>m s. nodeAt fs (pathKey path) = Some (FFile d m s))"
  by (auto simp: stateAt_def split: option.splits fnode.splits)

text \<open>
  The contract of the three resolvers of persisted state: \<open>decode\<close> is what a start makes of the content of the
  file, \<open>r\<close> the randomness of a fresh choice, \<open>failed\<close> the warning that the choice could not be persisted.
\<close>

locale persisted_choice =
  fixes resolve :: "logger \<Rightarrow> resolve_io \<Rightarrow> 'r \<Rightarrow> fs \<Rightarrow> string \<Rightarrow> bool \<Rightarrow> 'a \<times> fs list \<times> msg list"
    and decode :: "bytes \<Rightarrow> 'a option"
    and fresh :: "'r \<Rightarrow> 'a"
    and good :: "'r \<Rightarrow> bool"
    and failed :: "msg \<Rightarrow> bool"
  assumes reuse: "stateAt fs path = Some d \<Longrightarrow> decode d = Some x \<Longrightarrow> r_read ri \<Longrightarrow>
      \<exists>ms. resolve lg ri r fs path False = (x, [fs], ms)"
    and outcome: "resolve (configureLogger l lg) ri r fs path rot = (x, tr, ms) \<Longrightarrow> good r \<Longrightarrow> noLink fs path \<Longrightarrow>
      (tr = [fs] \<and> (\<exists>d. stateAt fs path = Some d \<and> decode d = Some x)) \<or>
      (\<exists>err line. persistState ri fs path line = (err, tr) \<and> x = fresh r \<and>
         decode (bytes_of (line @ nl)) = Some x \<and>
         (err \<noteq> None \<longrightarrow> LogWarn \<le> l \<longrightarrow> (\<exists>m\<in>set ms. failed m)))"
begin

text \<open>After a start that could persist its choice, or reused one, every later start makes the same choice
  without writing anything, whatever it draws.\<close>

lemma persisted:
  assumes "resolve (configureLogger l lg) ri r fs path rot = (x, tr, ms)" and "good r" and "noLink fs path"
    and "LogWarn \<le> l" and "\<forall>m\<in>set ms. \<not> failed m"
  shows "\<exists>d. stateAt (last tr) path = Some d \<and> decode d = Some x"
proof -
  consider (old) "tr = [fs]" "\<exists>d. stateAt fs path = Some d \<and> decode d = Some x"
    | (new) err line where "persistState ri fs path line = (err, tr)" "decode (bytes_of (line @ nl)) = Some x" "err = None"
    using outcome [OF assms(1-3)] assms(4,5) by auto
  then show ?thesis
  proof cases
    case old
    then show ?thesis by simp
  next
    case new
    then have "readFile True (last tr) path = Some (bytes_of (line @ nl))"
      "last tr (pathKey path) = Some (FFile (bytes_of (line @ nl)) 384 True)"
      using persistState_ok by blast+
    moreover from this have "noLink (last tr) path" by (simp add: noLink_def)
    ultimately show ?thesis using new by (simp add: readFile_stateAt)
  qed
qed

lemma restart:
  assumes "resolve (configureLogger l lg) ri r fs path rot = (x, tr, ms)" and "good r" and "noLink fs path"
    and "LogWarn \<le> l" and "\<forall>m\<in>set ms. \<not> failed m"
    and "fs2 (pathKey path) = last tr (pathKey path)" and "r_read ri2"
  shows "\<exists>ms2. resolve lg2 ri2 r2 fs2 path False = (x, [fs2], ms2)"
  using persisted [OF assms(1-5)] reuse assms(6,7) stateAt_cong by metis

text \<open>A start that finds a usable file and dies while rotating it leaves a file that still decodes, to the old
  choice or the new one.\<close>

lemma crash:
  assumes "resolve (configureLogger l lg) ri r fs path rot = (x, tr, ms)" and "good r" and "stateAt fs path = Some d" and "decode d = Some y"
    and "fs' \<in> set tr"
  shows "\<exists>d'. stateAt fs' path = Some d' \<and> (decode d' = Some y \<or> decode d' = Some x)"
proof -
  have node: "fs (pathKey path) = nodeAt fs (pathKey path)" "\<not> list_all (\<lambda>c. c = ''..'') (snd (pathKey path))"
    using assms(3) by (auto simp: stateAt_node nodeAt_def split: if_splits)
  consider "fs' = fs" | err line where "persistState ri fs path line = (err, tr)" "decode (bytes_of (line @ nl)) = Some x"
    using outcome [OF assms(1,2) noLink_stateAt [OF assms(3)]] assms(5) by auto
  then show ?thesis
  proof cases
    case 1
    then show ?thesis using assms by auto
  next
    case 2
    obtain m s where "fs (pathKey path) = Some (FFile d m s)" using assms(3) node by (auto simp: stateAt_node)
    then have "fs' (pathKey path) = Some (FFile d m s) \<or> fs' (pathKey path) = Some (FFile (bytes_of (line @ nl)) 384 True)"
      by (rule persistState_trace(3) [OF 2(1) assms(5)])
    then show ?thesis using node(2) 2(2) assms(4) by (auto simp: stateAt_def nodeAt_def)
  qed
qed

lemma keeps_others:
  assumes "resolve (configureLogger l lg) ri r fs path rot = (x, tr, ms)" and "good r" and "noLink fs path"
    and "fs k = Some y" and "k \<noteq> pathKey path" and "fs' \<in> set tr"
  shows "fs' k = Some y"
  using outcome [OF assms(1-3)] assms(4-6) persistState_keeps by fastforce

lemma state_kept:
  assumes "resolve (configureLogger l lg) ri r fs path rot = (x, tr, ms)" and "good r" and "noLink fs path"
    and "stateAt fs p = Some d" and "pathKey p \<noteq> pathKey path" and "fs' \<in> set tr"
  shows "stateAt fs' p = Some d"
proof -
  obtain m s where n: "nodeAt fs (pathKey p) = Some (FFile d m s)" using assms(4) by (auto simp: stateAt_node)
  then have k: "fs (pathKey p) = Some (FFile d m s)" by (auto simp: nodeAt_def split: if_splits)
  have "fs' (pathKey p) = fs (pathKey p)" using keeps_others [OF assms(1-3) k assms(5,6)] k by simp
  then show ?thesis using assms(4) stateAt_cong by metis
qed

lemma noLink_kept:
  assumes "resolve (configureLogger l lg) ri r fs path rot = (x, tr, ms)" and "good r" and "noLink fs path"
    and "noLink fs p" and "fs' \<in> set tr"
  shows "noLink fs' p"
  using outcome [OF assms(1-3)] assms(4,5) persistState_noLink by fastforce

lemma result:
  assumes "resolve (configureLogger l lg) ri r fs path rot = (x, tr, ms)" and "good r" and "noLink fs path"
  shows "x = fresh r \<or> (\<exists>d. stateAt fs path = Some d \<and> decode d = Some x)" and "tr \<noteq> []" and "hd tr = fs"
proof -
  have o: "tr = [fs] \<and> (\<exists>d. stateAt fs path = Some d \<and> decode d = Some x) \<or>
      (\<exists>err line. persistState ri fs path line = (err, tr) \<and> x = fresh r)"
    using outcome [OF assms] by blast
  then show "x = fresh r \<or> (\<exists>d. stateAt fs path = Some d \<and> decode d = Some x)" by blast
  from o show "tr \<noteq> []" "hd tr = fs" using persistState_trace(1,2) by fastforce+
qed

end

subsection \<open>Cloak family and certificate name\<close>

definition decodeCloak :: "bytes \<Rightarrow> camouflageFamily option" where
  "decodeCloak d =
     (case atoi (trimSpace (string_of d)) of
        Some idx \<Rightarrow> if 0 \<le> idx \<and> idx < int (length camouflageFamilies) then Some (camouflageFamilies ! nat idx) else None
      | None \<Rightarrow> None)"

definition decodeCN :: "bytes \<Rightarrow> string option" where
  "decodeCN d = (let cn = trimSpace (string_of d) in if isValidHostname cn then Some cn else None)"

lemma trimSpace_state: "\<forall>c\<in>set s. plain c \<Longrightarrow> s \<noteq> [] \<Longrightarrow> trimSpace (string_of (bytes_of (s @ nl))) = s"
  unfolding string_of_bytes_of nl_def by (rule trimSpace_line)

lemma pickRandomFamilyIdx_less: "pickRandomFamilyIdx seed < length camouflageFamilies"
  by (auto simp: pickRandomFamilyIdx_def camouflageFamilies_def split: option.splits)

lemma decodeCloak_line: "i < length camouflageFamilies \<Longrightarrow> decodeCloak (bytes_of (itoaNat i @ nl)) = Some (camouflageFamilies ! i)"
proof -
  assume i: "i < length camouflageFamilies"
  have "length camouflageFamilies < 2 ^ 63" by (simp add: camouflageFamilies_def)
  with i have "atoi (itoaNat i) = Some (int i)" by (intro atoi_itoaNat) simp
  with i show ?thesis using trimSpace_state [of "itoaNat i"] itoaNat_plain by (simp add: decodeCloak_def)
qed

lemma isValidHostname_plain: "isValidHostname s \<Longrightarrow> c \<in> set s \<Longrightarrow> plain c"
proof -
  assume v: "isValidHostname s" and c: "c \<in> set s"
  have "okc c \<or> c = CHR ''.''"
    using splitOn_cover [OF c, of "CHR ''.''"] v by (auto simp: isValidHostname_words list_all_iff wordOK_def)
  then show "plain c" by (auto simp: okc_def lower_def upper_def digit_def plain_def)
qed

lemma decodeCN_line: "isValidHostname cn \<Longrightarrow> decodeCN (bytes_of (cn @ nl)) = Some cn"
  using trimSpace_state [of cn] isValidHostname_plain [of cn] by (auto simp: decodeCN_def isValidHostname_words)

lemma logWarnf_shown: "LogWarn \<le> l \<Longrightarrow> logWarnf (configureLogger l lg) m = [m]"
  by (simp add: logf_configured)

interpretation cloak: persisted_choice resolveCloakFamily decodeCloak
  "\<lambda>seed. camouflageFamilies ! pickRandomFamilyIdx seed" "\<lambda>_. True" "\<lambda>m. \<exists>p e. m = CloakNotPersisted p e"
proof (unfold_locales, goal_cases)
  case (1 fs path d x ri lg r)
  then show ?case
    using readFile_stateAt [OF noLink_stateAt [OF 1(1)], of True]
    by (auto simp: resolveCloakFamily_def decodeCloak_def Let_def split: option.splits if_splits)
next
  case (2 l lg ri r fs path rot x tr ms)
  let ?i = "pickRandomFamilyIdx r" and ?lg = "configureLogger l lg"
  obtain err tr1 where p: "persistState ri fs path (itoaNat ?i) = (err, tr1)" by fastforce
  have "(tr = [fs] \<and> (\<exists>d. readFile (r_read ri) fs path = Some d \<and> decodeCloak d = Some x)) \<or>
     (x = camouflageFamilies ! ?i \<and> tr = tr1 \<and>
       (\<exists>ms0. ms = ms0 @ (case err of Some e \<Rightarrow> logWarnf ?lg (CloakNotPersisted path e)
                      | None \<Rightarrow> logInfof ?lg (CloakPersisted rot ?i path))))"
    using 2(1) p
    by (auto simp: resolveCloakFamily_def decodeCloak_def Let_def split: option.splits if_splits)
  then show ?case
  proof (elim disjE conjE exE, goal_cases)
    case (1 d)
    then show ?case using readFile_stateAt [OF 2(3), of "r_read ri"] by (intro disjI1) (auto split: if_splits)
  next
    case (2 ms0)
    then show ?case
      using p decodeCloak_line [OF pickRandomFamilyIdx_less [of r]] logWarnf_shown [of l lg "CloakNotPersisted path _"]
      by (intro disjI2 exI [of _ err] exI [of _ "itoaNat ?i"]) (cases err; simp)
  qed
qed

interpretation cert: persisted_choice resolvePersistedCN decodeCN
  generateSyntheticCN "\<lambda>_. True" "\<lambda>m. \<exists>p e. m = CnNotPersisted p e"
proof (unfold_locales, goal_cases)
  case (1 fs path d x ri lg r)
  then show ?case
    using readFile_stateAt [OF noLink_stateAt [OF 1(1)], of True]
    by (auto simp: resolvePersistedCN_def decodeCN_def Let_def split: option.splits if_splits)
next
  case (2 l lg ri r fs path rot x tr ms)
  let ?cn = "generateSyntheticCN r" and ?lg = "configureLogger l lg"
  obtain err tr1 where p: "persistState ri fs path ?cn = (err, tr1)" by fastforce
  have "(tr = [fs] \<and> (\<exists>d. readFile (r_read ri) fs path = Some d \<and> decodeCN d = Some x)) \<or>
     (x = ?cn \<and> tr = tr1 \<and>
       (\<exists>ms0. ms = ms0 @ (case err of Some e \<Rightarrow> logWarnf ?lg (CnNotPersisted path e)
                      | None \<Rightarrow> logInfof ?lg (CnPersisted rot ?cn path))))"
    using 2(1) p
    by (auto simp: resolvePersistedCN_def decodeCN_def Let_def split: option.splits if_splits)
  then show ?case
  proof (elim disjE conjE exE, goal_cases)
    case (1 d)
    then show ?case using readFile_stateAt [OF 2(3), of "r_read ri"] by (intro disjI1) (auto split: if_splits)
  next
    case (2 ms0)
    then show ?case
      using p decodeCN_line [OF synthetic_cn_valid [of r]] logWarnf_shown [of l lg "CnNotPersisted path _"]
      by (intro disjI2 exI [of _ err] exI [of _ ?cn]) (cases err; simp)
  qed
qed

section \<open>The self-signed certificate\<close>

definition cdnOrgPool :: "string list" where
  "cdnOrgPool =
     [''Edge Networks, Ltd.'', ''Internet Services Inc.'', ''Cloud Distribution AG'',
      ''Hyperion Hosting GmbH'', ''Datacore Solutions LLC'', ''Netregion B.V.'',
      ''Core Hosting s.r.o.'', ''VM Cloud Holdings'', ''Server Networks Ltd.'',
      ''DC Nodes Inc.'']"

datatype keyUsage = DigitalSignature | KeyEncipherment | ServerAuth

record certTemplate =
  serialNumber :: int
  commonName :: string
  organization :: "string list"
  notBefore :: int
  notAfter :: int
  keyUsages :: "keyUsage list"
  dnsNames :: "string list"

text \<open>
  The draws: whether a key could be generated, the organisation, the serial below \<open>2 ^ 128\<close> (\<open>None\<close>: the random
  source failed) and the time in nanoseconds. \<open>create\<close> is \<open>x509.CreateCertificate\<close> with the fresh key.
\<close>

record certrand =
  ct_key :: bool
  ct_org :: nat
  ct_serial :: "nat option"
  ct_now :: int

definition hourNs :: int where "hourNs = 3600 * 10 ^ 9"

definition generateSelfSignedCertWithCN ::
  "(certTemplate \<Rightarrow> bytes option) \<Rightarrow> certrand \<Rightarrow> string \<Rightarrow> (bytes \<times> string) option" where
  "generateSelfSignedCertWithCN create cr cn =
     (if \<not> ct_key cr then None
      else let org = cdnOrgPool ! intN (length cdnOrgPool) (ct_org cr)
           in case ct_serial cr of
                None \<Rightarrow> None
              | Some r \<Rightarrow>
                  let template =
                        \<lparr>serialNumber = int (intN (2 ^ 128) r) + 1, commonName = cn, organization = [org],
                         notBefore = ct_now cr - 7 * 24 * hourNs, notAfter = ct_now cr + 90 * 24 * hourNs,
                         keyUsages = [DigitalSignature, KeyEncipherment, ServerAuth], dnsNames = [cn]\<rparr>
                  in (case create template of None \<Rightarrow> None | Some der \<Rightarrow> Some (der, cn)))"

end
