(* ===== verification/Startup.thy ===== *)
theory Startup
  imports Identity Share Psk_Config
begin

text \<open>
  \<open>main\<close> of \<open>cmd/mxtr-server/main.go\<close> (lines 1143 to 1328) as a function of the flags, the environment and the
  file system: it prints and returns, ends with \<open>log.Fatal\<close>, or reaches the point where the listener and the
  reaper run. \<open>autoDetectPublicIP\<close> is lines 852 to 871. Everything random or decided by the operating system is a
  field of \<open>env\<close>; so are \<open>tls.LoadX509KeyPair\<close> (the chain of a key pair), \<open>x509.ParseCertificate\<close> (the common
  name of a certificate) and \<open>x509.CreateCertificate\<close>.
\<close>

section \<open>Flags, environment, outcome\<close>

record flags =
  fl_version :: bool
  fl_tcp :: string
  fl_psk :: string
  fl_pskFile :: string
  fl_cloakState :: string
  fl_rotateCloak :: bool
  fl_cert :: string
  fl_key :: string
  fl_genPSK :: bool
  fl_logLevel :: string
  fl_quiet :: bool
  fl_publicIP :: string
  fl_sni :: string
  fl_allow :: string

datatype ifaddr = IPNet bytes | OtherAddr

record env =
  e_mxtrPsk :: string
  e_key :: "bytes option"
  e_seed :: "bytes option"
  e_cn :: cnrand
  e_cert :: certrand
  e_pskio :: resolve_io
  e_cloakio :: resolve_io
  e_cnio :: resolve_io
  e_addrs :: "ifaddr list option"
  e_create :: "certTemplate \<Rightarrow> bytes option"
  e_loadPair :: "string \<Rightarrow> string \<Rightarrow> bytes list option"
  e_parseCert :: "bytes \<Rightarrow> string option"
  e_uni :: "string \<Rightarrow> string"
  e_crypto :: crypto

text \<open>The variables \<open>main\<close> has set when it blocks; \<open>rn_share\<close> is the address it listens on and the share string,
  if the listener is enabled.\<close>

record running =
  rn_psk :: bytes
  rn_cfg :: pskDerivedConfig
  rn_family :: camouflageFamily
  rn_certName :: string
  rn_host :: string
  rn_sni :: string
  rn_allowed :: "allowEntry list"
  rn_share :: "(string \<times> string) option"

datatype startup = Printed string | Fatal string | Panicked | Running running

section \<open>Parts of main\<close>

text \<open>The warnings of \<open>parseAllowList\<close> (allowlist.go lines 48 to 55).\<close>

definition allowIgnored :: "(string \<Rightarrow> string) \<Rightarrow> string \<Rightarrow> string option" where
  "allowIgnored uni raw =
     (let entry = trimSuffix ''.'' (trimPrefix ''*.'' (trimSpace (toLower uni raw)))
      in if entry = [] \<or> parseIP entry \<noteq> None then None
         else if \<not> contains ''.'' entry \<or> contains ''..'' entry \<or> \<not> isValidHostnameChars entry then Some entry
         else None)"

definition allowWarnings :: "(string \<Rightarrow> string) \<Rightarrow> string \<Rightarrow> string list" where
  "allowWarnings uni spec = (if spec = [] then [] else List.map_filter (allowIgnored uni) (splitOn CHR '','' spec))"

text \<open>The PSK from its file, or a fresh one; \<open>None\<close> when the random source fails. The last argument is unused:
  there is no rotation of the PSK.\<close>

definition resolvePSK ::
  "logger \<Rightarrow> resolve_io \<Rightarrow> bytes option \<Rightarrow> fs \<Rightarrow> string \<Rightarrow> bool \<Rightarrow> string option \<times> fs list \<times> msg list" where
  "resolvePSK lg ri key fs path rot =
     (let saved = (case readFile (r_read ri) fs path of None \<Rightarrow> [] | Some data \<Rightarrow> trimSpace (string_of data))
      in if saved \<noteq> [] then (Some saved, [fs], logInfof lg (PskLoaded path))
         else case key of
           None \<Rightarrow> (None, [fs], [])
         | Some k \<Rightarrow>
             let (err, tr) = persistState ri fs path (hexEncode k)
             in (Some (hexEncode k), tr,
                 (case err of
                    Some e \<Rightarrow> logWarnf lg (PskNotPersisted path e)
                  | None \<Rightarrow> logInfof lg (PskGenerated path))))"

text \<open>The order flag, variable \<open>MXTR_PSK\<close>, file, fresh.\<close>

definition pskPhase :: "logger \<Rightarrow> env \<Rightarrow> flags \<Rightarrow> fs \<Rightarrow> string option \<times> fs list \<times> msg list" where
  "pskPhase lg E F fs =
     (let h = (if fl_psk F = [] then e_mxtrPsk E else fl_psk F)
      in if h \<noteq> [] then (Some h, [fs], []) else resolvePSK lg (e_pskio E) (e_key E) fs (fl_pskFile F) False)"

definition cloakPath :: "flags \<Rightarrow> string" where
  "cloakPath F = (if fl_cloakState F = [] then joinPath (dirOf (fl_pskFile F)) ''mxtr-cloak.idx'' else fl_cloakState F)"

definition cnPath :: "flags \<Rightarrow> string" where
  "cnPath F = joinPath (dirOf (fl_pskFile F)) ''mxtr-cert.cn''"

text \<open>The certificate: its name, or why the start fails.\<close>

definition certPhase :: "logger \<Rightarrow> env \<Rightarrow> flags \<Rightarrow> fs \<Rightarrow> (string + string) \<times> fs list \<times> msg list" where
  "certPhase lg E F fs =
     (if fl_cert F \<noteq> [] then
        (if fl_key F = [] then (Inl ''-cert provided but -key missing'', [fs], [])
         else case e_loadPair E (fl_cert F) (fl_key F) of
           None \<Rightarrow> (Inl ''load cert'', [fs], [])
         | Some chain \<Rightarrow>
             let leaf = (case chain of [] \<Rightarrow> None | c # cs \<Rightarrow> e_parseCert E c);
                 name = (case leaf of None \<Rightarrow> [] | Some cn \<Rightarrow> cn)
             in (Inr (if name = [] then ''real-cert'' else name), [fs],
                 (case leaf of None \<Rightarrow> [] | Some cn \<Rightarrow> logInfof lg (CertLoaded cn))))
      else
        let (cn, tr, ms) = resolvePersistedCN lg (e_cnio E) (e_cn E) fs (cnPath F) (fl_rotateCloak F)
        in case generateSelfSignedCertWithCN (e_create E) (e_cert E) cn of
             None \<Rightarrow> (Inl ''generate self-signed cert'', tr, ms)
           | Some (c, name) \<Rightarrow> (Inr cn, tr, ms @ logInfof lg (CertReady cn)))"

fun autoDetectLoop :: "ifaddr list \<Rightarrow> string" where
  "autoDetectLoop [] = []"
| "autoDetectLoop (OtherAddr # as) = autoDetectLoop as"
| "autoDetectLoop (IPNet ip # as) =
     (if isLoopback ip \<or> isLinkLocalUnicast ip \<or> isPrivate ip then autoDetectLoop as
      else case to4 ip of Some v4 \<Rightarrow> ip4String v4 | None \<Rightarrow> autoDetectLoop as)"

definition autoDetectPublicIP :: "ifaddr list option \<Rightarrow> string" where
  "autoDetectPublicIP addrs = (case addrs of None \<Rightarrow> [] | Some as \<Rightarrow> autoDetectLoop as)"

definition noHost :: string where "noHost = ''<YOUR-PUBLIC-IP>''"

definition hostPhase :: "logger \<Rightarrow> env \<Rightarrow> flags \<Rightarrow> string \<times> msg list" where
  "hostPhase lg E F =
     (if fl_publicIP F \<noteq> [] then (fl_publicIP F, [])
      else let host = autoDetectPublicIP (e_addrs E)
           in if host = [] then (noHost, []) else (host, logInfof lg (AutoDetected host)))"

text \<open>The last part: host and SNI are checked, the share string is logged, the listener starts.\<close>

definition servePhase ::
  "logger \<Rightarrow> env \<Rightarrow> flags \<Rightarrow> bytes \<Rightarrow> pskDerivedConfig \<Rightarrow> camouflageFamily \<Rightarrow> string \<Rightarrow> startup \<times> msg list" where
  "servePhase lg E F psk cfg fam certName =
     (let (host, ms) = hostPhase lg E F;
          sni = (if fl_sni F = [] then certName else fl_sni F);
          share = buildShareString psk host (fl_tcp F) sni
      in if host \<noteq> noHost \<and> \<not> isPublicIPLiteral host then (Fatal ''-public-ip'', ms)
         else if sni \<noteq> [] \<and> \<not> isValidHostname sni then (Fatal ''-sni'', ms)
         else (Running \<lparr>rn_psk = psk, rn_cfg = cfg, rn_family = fam, rn_certName = certName, rn_host = host, rn_sni = sni,
                 rn_allowed = parseAllowList (e_uni E) (fl_allow F),
                 rn_share = (if fl_tcp F \<noteq> [] then Some (fl_tcp F, share) else None)\<rparr>,
               ms @ (if fl_tcp F \<noteq> [] then logInfof lg (ShareLine share) else [])))"

text \<open>From the PSK on; the file systems and messages accumulate.\<close>

definition configPhase :: "logger \<Rightarrow> env \<Rightarrow> flags \<Rightarrow> fs \<Rightarrow> startup \<times> fs list \<times> msg list" where
  "configPhase lg E F fs =
     (case pskPhase lg E F fs of
        (None, tr1, ms1) \<Rightarrow> (Fatal ''generate PSK'', tr1, ms1)
      | (Some hex, tr1, ms1) \<Rightarrow>
          (case hexDecode hex of
             None \<Rightarrow> (Fatal ''bad PSK hex'', tr1, ms1)
           | Some psk \<Rightarrow>
               if length psk < 16 then (Fatal ''PSK must be at least 16 bytes (32 hex chars)'', tr1, ms1)
               else case derivePskConfig (e_crypto E) psk of
                 None \<Rightarrow> (Panicked, tr1, ms1)
               | Some cfg \<Rightarrow>
                   let (fam, tr2, ms2) =
                         resolveCloakFamily lg (e_cloakio E) (e_seed E) (last tr1) (cloakPath F) (fl_rotateCloak F);
                       ms3 = logInfof lg (CloakSummary (displayName (server fam)));
                       (cert, tr3, ms4) = certPhase lg E F (last tr2)
                   in case cert of
                        Inl why \<Rightarrow> (Fatal why, tr1 @ tr2 @ tr3, ms1 @ ms2 @ ms3 @ ms4)
                      | Inr name \<Rightarrow>
                          let (out, ms5) = servePhase lg E F psk cfg fam name
                          in (out, tr1 @ tr2 @ tr3, ms1 @ ms2 @ ms3 @ ms4 @ ms5)))"

definition fatalLine :: "logger \<Rightarrow> startup \<Rightarrow> msg list" where
  "fatalLine lg out = (case out of Fatal why \<Rightarrow> stdLogPrint lg (FatalLine why) | _ \<Rightarrow> [])"

definition serverMain :: "string \<Rightarrow> env \<Rightarrow> flags \<Rightarrow> fs \<Rightarrow> startup \<times> fs list \<times> msg list" where
  "serverMain version E F fs =
     (if fl_version F then (Printed version, [fs], [])
      else
        let allowed = parseAllowList (e_uni E) (fl_allow F);
            ms0 = concat (map (\<lambda>e. logWarnf initLogger (AllowIgnored e)) (allowWarnings (e_uni E) (fl_allow F))) @
                  (if allowed \<noteq> [] then logInfof initLogger (AllowListSet allowed) else [])
        in case parseLogLevel (e_uni E) (fl_logLevel F) of
             None \<Rightarrow> (Fatal ''unknown log level'', [fs], ms0 @ fatalLine initLogger (Fatal ''unknown log level''))
           | Some level \<Rightarrow>
               let chosen = (if fl_quiet F then LogOff else level);
                   lg = configureLogger chosen initLogger;
                   ms1 = logInfof lg Starting
               in if fl_genPSK F then
                    (case e_key E of
                       None \<Rightarrow> (Fatal ''rand'', [fs], ms0 @ ms1 @ fatalLine lg (Fatal ''rand''))
                     | Some key \<Rightarrow> (Printed (hexEncode key), [fs], ms0 @ ms1))
                  else
                    let (out, tr, ms2) = configPhase lg E F fs
                    in (out, tr, ms0 @ ms1 @ ms2 @ fatalLine lg out))"

section \<open>The PSK file keeps the contract of persisted choices\<close>

definition decodePSK :: "bytes \<Rightarrow> string option option" where
  "decodePSK d = (let h = trimSpace (string_of d) in if h = [] then None else Some (Some h))"

lemma decodePSK_line: "k \<noteq> [] \<Longrightarrow> decodePSK (bytes_of (hexEncode k @ nl)) = Some (Some (hexEncode k))"
  using trimSpace_state [of "hexEncode k"] hexEncode_plain by (auto simp: decodePSK_def)

interpretation pskf: persisted_choice resolvePSK decodePSK "map_option hexEncode"
  "\<lambda>k. \<exists>b. k = Some b \<and> b \<noteq> []" "\<lambda>m. \<exists>p e. m = PskNotPersisted p e"
proof (unfold_locales, goal_cases)
  case (1 fs path d x ri lg r)
  then show ?case
    using readFile_stateAt [OF noLink_stateAt [OF 1(1)], of True]
    by (auto simp: resolvePSK_def decodePSK_def Let_def split: if_splits)
next
  case (2 l lg ri r fs path rot x tr ms)
  let ?lg = "configureLogger l lg"
  from 2(2) obtain k where k: "r = Some k" "k \<noteq> []" by blast
  obtain err tr1 where p: "persistState ri fs path (hexEncode k) = (err, tr1)" by fastforce
  have "(tr = [fs] \<and> (\<exists>d. readFile (r_read ri) fs path = Some d \<and> decodePSK d = Some x)) \<or>
     (x = Some (hexEncode k) \<and> tr = tr1 \<and>
       ms = (case err of Some e \<Rightarrow> logWarnf ?lg (PskNotPersisted path e) | None \<Rightarrow> logInfof ?lg (PskGenerated path)))"
    using 2(1) p k by (auto simp: resolvePSK_def decodePSK_def Let_def split: option.splits if_splits)
  then show ?case
  proof (elim disjE conjE exE, goal_cases)
    case (1 d)
    then show ?case using readFile_stateAt [OF 2(3), of "r_read ri"] by (intro disjI1) (auto split: if_splits)
  next
    case 2
    then show ?case
      using p k decodePSK_line [OF k(2)] logWarnf_shown [of l lg "PskNotPersisted path _"]
      by (intro disjI2 exI [of _ err] exI [of _ "hexEncode k"]) (cases err; simp)
  qed
qed

section \<open>A running server is well configured\<close>

lemma resolvePersistedCN_valid:
  assumes "resolvePersistedCN lg ri cr fs path rot = (cn, tr, ms)"
  shows "isValidHostname cn"
  using assms synthetic_cn_valid [of cr]
  by (auto simp: resolvePersistedCN_def Let_def split: option.splits if_splits prod.splits)

lemma resolveCloakFamily_mem:
  assumes "resolveCloakFamily lg ri seed fs path rot = (fam, tr, ms)"
  shows "fam \<in> set camouflageFamilies"
  using assms pickRandomFamilyIdx_less [of seed]
  by (auto simp: resolveCloakFamily_def Let_def nat_less_iff split: option.splits if_splits prod.splits)

lemma certPhase_name:
  assumes "certPhase lg E F fs = (Inr name, tr, ms)"
  shows "name \<noteq> []" and "fl_cert F = [] \<Longrightarrow> isValidHostname name"
proof -
  show v: "isValidHostname name" if "fl_cert F = []"
    using assms that resolvePersistedCN_valid
    by (auto simp: certPhase_def Let_def split: option.splits prod.splits)
  show "name \<noteq> []"
  proof (cases "fl_cert F = []")
    case True
    then show ?thesis using v by (simp add: isValidHostname_words)
  next
    case False
    then show ?thesis using assms by (auto simp: certPhase_def Let_def split: option.splits list.splits if_splits)
  qed
qed

text \<open>What a start that reaches the listener went through.\<close>

definition chosenLogger :: "env \<Rightarrow> flags \<Rightarrow> logger option" where
  "chosenLogger E F =
     map_option (\<lambda>level. configureLogger (if fl_quiet F then LogOff else level) initLogger)
       (parseLogLevel (e_uni E) (fl_logLevel F))"

lemma serverMain_running:
  assumes "serverMain v E F fs = (Running r, tr, ms)"
  obtains lg ms2 where "\<not> fl_version F" "\<not> fl_genPSK F" "chosenLogger E F = Some lg"
    "configPhase lg E F fs = (Running r, tr, ms2)" "set ms2 \<subseteq> set ms"
proof (cases "parseLogLevel (e_uni E) (fl_logLevel F)")
  case None
  then show thesis using assms by (auto simp: serverMain_def Let_def split: if_splits)
next
  case (Some level)
  let ?lg = "configureLogger (if fl_quiet F then LogOff else level) initLogger"
  obtain out tr' ms2 where c: "configPhase ?lg E F fs = (out, tr', ms2)" by (metis prod_cases3)
  have f: "\<not> fl_version F" "\<not> fl_genPSK F"
    using assms Some by (auto simp: serverMain_def Let_def split: if_splits option.splits)
  then have "out = Running r" "tr' = tr" "set ms2 \<subseteq> set ms"
    using assms Some c by (simp_all add: serverMain_def Let_def) auto
  then show thesis using that f c Some by (simp add: chosenLogger_def)
qed

lemma configPhase_running:
  assumes "configPhase lg E F fs = (Running r, tr, ms)"
  obtains hex tr1 ms1 tr2 ms2 tr3 ms4 ms5 where
    "pskPhase lg E F fs = (Some hex, tr1, ms1)" "hexDecode hex = Some (rn_psk r)" "16 \<le> length (rn_psk r)"
    "derivePskConfig (e_crypto E) (rn_psk r) = Some (rn_cfg r)"
    "resolveCloakFamily lg (e_cloakio E) (e_seed E) (last tr1) (cloakPath F) (fl_rotateCloak F) = (rn_family r, tr2, ms2)"
    "certPhase lg E F (last tr2) = (Inr (rn_certName r), tr3, ms4)"
    "servePhase lg E F (rn_psk r) (rn_cfg r) (rn_family r) (rn_certName r) = (Running r, ms5)"
    "tr = tr1 @ tr2 @ tr3" "set ms1 \<union> set ms2 \<union> set ms4 \<union> set ms5 \<subseteq> set ms"
proof -
  obtain hexo tr1 ms1 where p: "pskPhase lg E F fs = (hexo, tr1, ms1)" by (metis prod_cases3)
  with assms obtain hex psk cfg where h: "hexo = Some hex" "hexDecode hex = Some psk" "16 \<le> length psk"
    "derivePskConfig (e_crypto E) psk = Some cfg"
    by (auto simp: configPhase_def split: option.splits if_splits)
  obtain fam tr2 ms2 where c: "resolveCloakFamily lg (e_cloakio E) (e_seed E) (last tr1) (cloakPath F)
      (fl_rotateCloak F) = (fam, tr2, ms2)" by (metis prod_cases3)
  obtain cert tr3 ms4 where ce: "certPhase lg E F (last tr2) = (cert, tr3, ms4)" by (metis prod_cases3)
  with assms p h c obtain name where n: "cert = Inr name"
    by (auto simp: configPhase_def Let_def split: sum.splits)
  obtain out ms5 where se: "servePhase lg E F psk cfg fam name = (out, ms5)" by fastforce
  from assms p h c ce n se have o: "out = Running r" "tr = tr1 @ tr2 @ tr3"
    "set ms1 \<union> set ms2 \<union> set ms4 \<union> set ms5 \<subseteq> set ms"
    by (auto simp: configPhase_def Let_def)
  have "rn_psk r = psk" "rn_cfg r = cfg" "rn_family r = fam" "rn_certName r = name"
    using se o by (auto simp: servePhase_def Let_def split: prod.splits if_splits)
  then show thesis using that p h c ce n se o by simp
qed

text \<open>The restriction to what the client can use: the SNI and the host of a running server.\<close>

lemma servePhase_running:
  assumes "servePhase lg E F psk cfg fam name = (Running r, ms)" and "name \<noteq> []"
  shows "isValidHostname (rn_sni r)" "rn_host r = noHost \<or> isPublicIPLiteral (rn_host r)"
    "rn_host r = fst (hostPhase lg E F)" "rn_sni r = (if fl_sni F = [] then name else fl_sni F)"
    "rn_share r = (if fl_tcp F \<noteq> [] then Some (fl_tcp F, buildShareString psk (rn_host r) (fl_tcp F) (rn_sni r)) else None)"
    "rn_allowed r = parseAllowList (e_uni E) (fl_allow F)"
    "rn_psk r = psk" "rn_cfg r = cfg" "rn_family r = fam" "rn_certName r = name"
  using assms by (auto simp: servePhase_def Let_def split: prod.splits if_splits)

section \<open>Restarting\<close>

lemma servePhase_same:
  assumes "servePhase lg E F psk cfg fam name = (Running r, ms)"
    and "fst (hostPhase lg2 E2 F2) = fst (hostPhase lg E F)" and "fl_sni F2 = fl_sni F" and "fl_tcp F2 = fl_tcp F"
    and "fl_allow F2 = fl_allow F" and "e_uni E2 = e_uni E"
  shows "\<exists>ms2. servePhase lg2 E2 F2 psk cfg fam name = (Running r, ms2)"
  using assms by (auto simp: servePhase_def Let_def split: prod.splits if_splits)

text \<open>The three state files are different entries and none of them is a symbolic link.\<close>

definition statePathsOK :: "fs \<Rightarrow> flags \<Rightarrow> bool" where
  "statePathsOK fs F \<longleftrightarrow>
     distinct [pathKey (fl_pskFile F), pathKey (cloakPath F), pathKey (cnPath F)] \<and>
     noLink fs (fl_pskFile F) \<and> noLink fs (cloakPath F) \<and> noLink fs (cnPath F)"

text \<open>The warnings that a choice could not be persisted.\<close>

fun persistWarning :: "msg \<Rightarrow> bool" where
  "persistWarning (PskNotPersisted p e) = True"
| "persistWarning (CloakNotPersisted p e) = True"
| "persistWarning (CnNotPersisted p e) = True"
| "persistWarning _ = False"

lemma persistWarningI:
  "\<forall>m\<in>set ms. \<not> persistWarning m \<Longrightarrow> \<forall>m\<in>set ms. \<not> (\<exists>p e. m = PskNotPersisted p e)"
  "\<forall>m\<in>set ms. \<not> persistWarning m \<Longrightarrow> \<forall>m\<in>set ms. \<not> (\<exists>p e. m = CloakNotPersisted p e)"
  "\<forall>m\<in>set ms. \<not> persistWarning m \<Longrightarrow> \<forall>m\<in>set ms. \<not> (\<exists>p e. m = CnNotPersisted p e)"
  by fastforce+

text \<open>The same machine at a later start: the same environment variable and addresses, the same code outside the
  program, readable state files; all randomness may differ.\<close>

definition sameMachine :: "env \<Rightarrow> env \<Rightarrow> bool" where
  "sameMachine E E2 \<longleftrightarrow>
     e_mxtrPsk E2 = e_mxtrPsk E \<and> e_addrs E2 = e_addrs E \<and> e_uni E2 = e_uni E \<and> e_crypto E2 = e_crypto E \<and>
     e_loadPair E2 = e_loadPair E \<and> e_parseCert E2 = e_parseCert E \<and>
     r_read (e_pskio E2) \<and> r_read (e_cloakio E2) \<and> r_read (e_cnio E2)"

lemma pskPhase_persisted:
  assumes "pskPhase (configureLogger l lg) E F fs = (Some hex, tr, ms)" and "e_key E = Some k" and "k \<noteq> []"
    and "LogWarn \<le> l" and "\<forall>m\<in>set ms. \<not> persistWarning m" and "noLink fs (fl_pskFile F)"
  shows "tr \<noteq> []" and "noLink fs p \<Longrightarrow> noLink (last tr) p"
    and "(fl_psk F \<noteq> [] \<or> e_mxtrPsk E \<noteq> []) \<and> hex = (if fl_psk F = [] then e_mxtrPsk E else fl_psk F) \<or>
       fl_psk F = [] \<and> e_mxtrPsk E = [] \<and> (\<exists>d. stateAt (last tr) (fl_pskFile F) = Some d \<and> decodePSK d = Some (Some hex))"
proof -
  have "tr \<noteq> [] \<and> (noLink fs p \<longrightarrow> noLink (last tr) p) \<and>
    ((fl_psk F \<noteq> [] \<or> e_mxtrPsk E \<noteq> []) \<and> hex = (if fl_psk F = [] then e_mxtrPsk E else fl_psk F) \<or>
     fl_psk F = [] \<and> e_mxtrPsk E = [] \<and> (\<exists>d. stateAt (last tr) (fl_pskFile F) = Some d \<and> decodePSK d = Some (Some hex)))"
  proof (cases "fl_psk F = [] \<and> e_mxtrPsk E = []")
    case True
    then have r: "resolvePSK (configureLogger l lg) (e_pskio E) (e_key E) fs (fl_pskFile F) False = (Some hex, tr, ms)"
      using assms(1) by (simp add: pskPhase_def)
    have g: "\<exists>b. e_key E = Some b \<and> b \<noteq> []" using assms(2,3) by simp
    show ?thesis
      using pskf.persisted [OF r g assms(6,4) persistWarningI(1) [OF assms(5)]] pskf.result(2) [OF r g assms(6)]
        pskf.noLink_kept [OF r g assms(6), of p "last tr"] True by simp
  next
    case False
    then show ?thesis using assms(1) by (auto simp: pskPhase_def Let_def split: if_splits)
  qed
  then show "tr \<noteq> []" and "noLink fs p \<Longrightarrow> noLink (last tr) p"
    and "(fl_psk F \<noteq> [] \<or> e_mxtrPsk E \<noteq> []) \<and> hex = (if fl_psk F = [] then e_mxtrPsk E else fl_psk F) \<or>
       fl_psk F = [] \<and> e_mxtrPsk E = [] \<and> (\<exists>d. stateAt (last tr) (fl_pskFile F) = Some d \<and> decodePSK d = Some (Some hex))"
    by blast+
qed

lemma certPhase_persisted:
  assumes "certPhase (configureLogger l lg) E F fs = (Inr name, tr, ms)"
    and "LogWarn \<le> l" and "\<forall>m\<in>set ms. \<not> persistWarning m" and "noLink fs (cnPath F)"
  shows "tr \<noteq> []"
    and "stateAt fs p = Some d \<Longrightarrow> pathKey p \<noteq> pathKey (cnPath F) \<Longrightarrow> stateAt (last tr) p = Some d"
    and "fl_cert F = [] \<Longrightarrow> \<exists>d. stateAt (last tr) (cnPath F) = Some d \<and> decodeCN d = Some name"
proof -
  have "tr \<noteq> [] \<and> (stateAt fs p = Some d \<longrightarrow> pathKey p \<noteq> pathKey (cnPath F) \<longrightarrow> stateAt (last tr) p = Some d) \<and>
    (fl_cert F = [] \<longrightarrow> (\<exists>d. stateAt (last tr) (cnPath F) = Some d \<and> decodeCN d = Some name))"
  proof (cases "fl_cert F = []")
    case True
    obtain cn tr' ms' where r: "resolvePersistedCN (configureLogger l lg) (e_cnio E) (e_cn E) fs (cnPath F) (fl_rotateCloak F)
        = (cn, tr', ms')" by (metis prod_cases3)
    with True assms(1) have eq: "cn = name" "tr' = tr" "set ms' \<subseteq> set ms"
      by (auto simp: certPhase_def split: option.splits)
    then have "\<forall>m\<in>set ms'. \<not> (\<exists>p e. m = CnNotPersisted p e)" using assms(3) by fastforce
    then show ?thesis
      using cert.persisted [OF r TrueI assms(4,2)] cert.result(2) [OF r TrueI assms(4)]
        cert.state_kept [OF r TrueI assms(4), of p d "last tr"] eq by simp
  next
    case False
    then show ?thesis using assms(1) by (auto simp: certPhase_def Let_def split: option.splits if_splits)
  qed
  then show "tr \<noteq> []"
    and "stateAt fs p = Some d \<Longrightarrow> pathKey p \<noteq> pathKey (cnPath F) \<Longrightarrow> stateAt (last tr) p = Some d"
    and "fl_cert F = [] \<Longrightarrow> \<exists>d. stateAt (last tr) (cnPath F) = Some d \<and> decodeCN d = Some name"
    by blast+
qed

text \<open>The flags of a later start: the same, without a rotation.\<close>

abbreviation again :: "flags \<Rightarrow> flags" where
  "again F \<equiv> F\<lparr>fl_rotateCloak := False\<rparr>"

lemma again_paths [simp]: "cloakPath (again F) = cloakPath F" "cnPath (again F) = cnPath F"
  by (simp_all add: cloakPath_def cnPath_def)

lemma pskPhase_again:
  assumes "sameMachine E E2"
    and "(fl_psk F \<noteq> [] \<or> e_mxtrPsk E \<noteq> []) \<and> hex = (if fl_psk F = [] then e_mxtrPsk E else fl_psk F) \<or>
       fl_psk F = [] \<and> e_mxtrPsk E = [] \<and> (\<exists>d. stateAt fs (fl_pskFile F) = Some d \<and> decodePSK d = Some (Some hex))"
  shows "\<exists>ms. pskPhase lg2 E2 (again F) fs = (Some hex, [fs], ms)"
  using assms pskf.reuse [of fs "fl_pskFile F" _ "Some hex" "e_pskio E2" lg2 "e_key E2"]
  by (auto simp: pskPhase_def sameMachine_def Let_def)

lemma certPhase_again:
  assumes "certPhase lg E F fs0 = (Inr name, tr, ms)" and "sameMachine E E2"
    and "fl_cert F = [] \<Longrightarrow> \<exists>d. stateAt fs (cnPath F) = Some d \<and> decodeCN d = Some name"
    and "fl_cert F = [] \<Longrightarrow> generateSelfSignedCertWithCN (e_create E2) (e_cert E2) name \<noteq> None"
  shows "\<exists>ms2. certPhase lg2 E2 (again F) fs = (Inr name, [fs], ms2)"
proof (cases "fl_cert F = []")
  case True
  moreover have "r_read (e_cnio E2)" using assms(2) by (simp add: sameMachine_def)
  ultimately obtain ms2 where "resolvePersistedCN lg2 (e_cnio E2) (e_cn E2) fs (cnPath F) False = (name, [fs], ms2)"
    using assms(3) cert.reuse by blast
  then show ?thesis using True assms(4) by (auto simp: certPhase_def)
next
  case False
  have "e_loadPair E2 = e_loadPair E" "e_parseCert E2 = e_parseCert E" using assms(2) by (simp_all add: sameMachine_def)
  then show ?thesis using False assms(1) by (auto simp: certPhase_def Let_def split: if_splits option.splits list.splits)
qed

lemma configPhase_again:
  assumes run: "configPhase (configureLogger l lg) E F fs = (Running r, tr, ms)" and key: "e_key E = Some k" "k \<noteq> []"
    and l: "LogWarn \<le> l" and warn: "\<forall>m\<in>set ms. \<not> persistWarning m" and paths: "statePathsOK fs F"
    and same: "sameMachine E E2"
    and gen: "fl_cert F = [] \<Longrightarrow> generateSelfSignedCertWithCN (e_create E2) (e_cert E2) (rn_certName r) \<noteq> None"
  shows "\<exists>ms2. configPhase lg2 E2 (again F) (last tr) = (Running r, replicate 3 (last tr), ms2)"
proof -
  let ?p = "fl_pskFile F" and ?c = "cloakPath F" and ?n = "cnPath F"
  from run obtain hex tr1 ms1 tr2 ms2 tr3 ms4 ms5 where
    p: "pskPhase (configureLogger l lg) E F fs = (Some hex, tr1, ms1)" and
    h: "hexDecode hex = Some (rn_psk r)" "16 \<le> length (rn_psk r)" "derivePskConfig (e_crypto E) (rn_psk r) = Some (rn_cfg r)" and
    c: "resolveCloakFamily (configureLogger l lg) (e_cloakio E) (e_seed E) (last tr1) ?c (fl_rotateCloak F) = (rn_family r, tr2, ms2)" and
    ce: "certPhase (configureLogger l lg) E F (last tr2) = (Inr (rn_certName r), tr3, ms4)" and
    se: "servePhase (configureLogger l lg) E F (rn_psk r) (rn_cfg r) (rn_family r) (rn_certName r) = (Running r, ms5)" and
    tr: "tr = tr1 @ tr2 @ tr3" and ms: "set ms1 \<union> set ms2 \<union> set ms4 \<union> set ms5 \<subseteq> set ms"
    by (rule configPhase_running)
  have w: "\<forall>m\<in>set ms1. \<not> persistWarning m" "\<forall>m\<in>set ms2. \<not> persistWarning m" "\<forall>m\<in>set ms4. \<not> persistWarning m"
    using warn ms by auto
  have nl: "noLink fs ?p" "noLink fs ?c" "noLink fs ?n" and ne: "pathKey ?p \<noteq> pathKey ?c" "pathKey ?p \<noteq> pathKey ?n" "pathKey ?c \<noteq> pathKey ?n"
    using paths by (auto simp: statePathsOK_def)
  note P = pskPhase_persisted [OF p key l w(1) nl(1)]
  have nl1: "noLink (last tr1) ?c" "noLink (last tr1) ?n" using P(2) nl by blast+
  note C = cloak.persisted [OF c TrueI nl1(1) l persistWarningI(2) [OF w(2)]]
  note ne2 = cloak.result(2) [OF c TrueI nl1(1)]
  have nl2: "noLink (last tr2) ?n" using cloak.noLink_kept [OF c TrueI nl1(1) nl1(2)] ne2 by simp
  note N = certPhase_persisted [OF ce l w(3) nl2]
  have last: "last tr = last tr3" using tr N(1) by simp
  have psk: "stateAt (last tr) ?p = Some d" if "stateAt (last tr1) ?p = Some d" for d
    using N(2) [OF cloak.state_kept [OF c TrueI nl1(1) that ne(1)] ne(2)] ne2 last by simp
  have clk: "\<exists>d. stateAt (last tr) ?c = Some d \<and> decodeCloak d = Some (rn_family r)"
    using C N(2) [OF _ ne(3)] last by auto
  obtain m1 where 1: "pskPhase lg2 E2 (again F) (last tr) = (Some hex, [last tr], m1)"
    using pskPhase_again [OF same, of F hex "last tr"] P(3) psk by blast
  have rd: "r_read (e_cloakio E2)" using same by (simp add: sameMachine_def)
  obtain m2 where 2: "resolveCloakFamily lg2 (e_cloakio E2) (e_seed E2) (last tr) ?c False = (rn_family r, [last tr], m2)"
    using clk cloak.reuse rd by blast
  obtain m3 where 3: "certPhase lg2 E2 (again F) (last tr) = (Inr (rn_certName r), [last tr], m3)"
    using certPhase_again [OF ce same _ gen] N(3) last by auto
  have "fst (hostPhase lg2 E2 (again F)) = fst (hostPhase (configureLogger l lg) E F)"
    using same by (simp add: hostPhase_def sameMachine_def Let_def)
  then obtain m4 where 4: "servePhase lg2 E2 (again F) (rn_psk r) (rn_cfg r) (rn_family r) (rn_certName r) = (Running r, m4)"
    using servePhase_same [OF se, of lg2 E2 "again F"] same by (auto simp: sameMachine_def)
  have "e_crypto E2 = e_crypto E" using same by (simp add: sameMachine_def)
  then show ?thesis using 1 2 3 4 h by (simp add: configPhase_def Let_def numeral_3_eq_3)
qed

section \<open>Dying during a start\<close>

text \<open>The identity on disk: the PSK, a family of the set \<open>fams\<close>, a certificate name of the set \<open>cns\<close>.\<close>

definition identityOn :: "fs \<Rightarrow> flags \<Rightarrow> string \<Rightarrow> camouflageFamily set \<Rightarrow> string set \<Rightarrow> bool" where
  "identityOn fs F hex fams cns \<longleftrightarrow>
     (\<exists>d. stateAt fs (fl_pskFile F) = Some d \<and> decodePSK d = Some (Some hex)) \<and>
     (\<exists>d fam. stateAt fs (cloakPath F) = Some d \<and> decodeCloak d = Some fam \<and> fam \<in> fams) \<and>
     (\<exists>d cn. stateAt fs (cnPath F) = Some d \<and> decodeCN d = Some cn \<and> cn \<in> cns)"

lemma identityOn_noLink:
  assumes "identityOn fs F hex fams cns"
  shows "noLink fs (fl_pskFile F)" "noLink fs (cloakPath F)" "noLink fs (cnPath F)"
  using assms noLink_stateAt by (auto simp: identityOn_def)

abbreviation freshFamily :: "env \<Rightarrow> camouflageFamily" where
  "freshFamily E \<equiv> camouflageFamilies ! pickRandomFamilyIdx (e_seed E)"

abbreviation freshCN :: "env \<Rightarrow> string" where
  "freshCN E \<equiv> generateSyntheticCN (e_cn E)"

lemma cloak_crash:
  assumes "resolveCloakFamily (configureLogger l lg) ri (e_seed E) fs (cloakPath F) rot = (fam, tr, ms)"
    and "distinct [pathKey (fl_pskFile F), pathKey (cloakPath F), pathKey (cnPath F)]"
    and "identityOn fs F hex fams cns" and "freshFamily E \<in> fams" and "fs' \<in> set tr"
  shows "identityOn fs' F hex fams cns"
proof -
  note nl = identityOn_noLink(2) [OF assms(3)]
  note keep = cloak.state_kept [OF assms(1) TrueI nl _ _ assms(5)]
  obtain dp dc f dn cn where d: "stateAt fs (fl_pskFile F) = Some dp" "decodePSK dp = Some (Some hex)"
    "stateAt fs (cloakPath F) = Some dc" "decodeCloak dc = Some f" "f \<in> fams"
    "stateAt fs (cnPath F) = Some dn" "decodeCN dn = Some cn" "cn \<in> cns"
    using assms(3) by (auto simp: identityOn_def)
  have "fam = freshFamily E \<or> fam = f" using cloak.result(1) [OF assms(1) TrueI nl] d(3,4) by auto
  then have "\<exists>d fam. stateAt fs' (cloakPath F) = Some d \<and> decodeCloak d = Some fam \<and> fam \<in> fams"
    using cloak.crash [OF assms(1) TrueI d(3,4) assms(5)] d(5) assms(4) by auto
  then show ?thesis using keep [OF d(1)] keep [OF d(6)] d assms(2) by (auto simp: identityOn_def)
qed

lemma cert_crash:
  assumes "resolvePersistedCN (configureLogger l lg) ri (e_cn E) fs (cnPath F) rot = (name, tr, ms)"
    and "distinct [pathKey (fl_pskFile F), pathKey (cloakPath F), pathKey (cnPath F)]"
    and "identityOn fs F hex fams cns" and "freshCN E \<in> cns" and "fs' \<in> set tr"
  shows "identityOn fs' F hex fams cns"
proof -
  note nl = identityOn_noLink(3) [OF assms(3)]
  note keep = cert.state_kept [OF assms(1) TrueI nl _ _ assms(5)]
  obtain dp dc f dn cn where d: "stateAt fs (fl_pskFile F) = Some dp" "decodePSK dp = Some (Some hex)"
    "stateAt fs (cloakPath F) = Some dc" "decodeCloak dc = Some f" "f \<in> fams"
    "stateAt fs (cnPath F) = Some dn" "decodeCN dn = Some cn" "cn \<in> cns"
    using assms(3) by (auto simp: identityOn_def)
  have "name = freshCN E \<or> name = cn" using cert.result(1) [OF assms(1) TrueI nl] d(6,7) by auto
  then have "\<exists>d cn. stateAt fs' (cnPath F) = Some d \<and> decodeCN d = Some cn \<and> cn \<in> cns"
    using cert.crash [OF assms(1) TrueI d(6,7) assms(5)] d(8) assms(4) by auto
  then show ?thesis using keep [OF d(1)] keep [OF d(3)] d assms(2) by (auto simp: identityOn_def)
qed

lemma pskPhase_crash:
  assumes "pskPhase lg E F fs = (x, tr, ms)" and "identityOn fs F hex fams cns" and "r_read (e_pskio E)"
  shows "tr = [fs]"
proof -
  obtain d where "stateAt fs (fl_pskFile F) = Some d" "decodePSK d = Some (Some hex)"
    using assms(2) by (auto simp: identityOn_def)
  then obtain ms' where "resolvePSK lg (e_pskio E) (e_key E) fs (fl_pskFile F) False = (Some hex, [fs], ms')"
    using pskf.reuse assms(3) by blast
  then show ?thesis using assms(1) by (auto simp: pskPhase_def Let_def split: if_splits)
qed

lemma configPhase_crash:
  assumes run: "configPhase (configureLogger l lg) E F fs = (out, tr, ms)"
    and dist: "distinct [pathKey (fl_pskFile F), pathKey (cloakPath F), pathKey (cnPath F)]"
    and ident: "identityOn fs F hex fams cns" and new: "freshFamily E \<in> fams" "freshCN E \<in> cns" and rd: "r_read (e_pskio E)"
    and fs': "fs' \<in> set tr"
  shows "identityOn fs' F hex fams cns"
proof -
  let ?lg = "configureLogger l lg"
  obtain hexo tr1 ms1 where p: "pskPhase ?lg E F fs = (hexo, tr1, ms1)" by (metis prod_cases3)
  obtain fam tr2 ms2 where c: "resolveCloakFamily ?lg (e_cloakio E) (e_seed E) (last tr1) (cloakPath F)
      (fl_rotateCloak F) = (fam, tr2, ms2)" by (metis prod_cases3)
  obtain x tr3 ms4 where ce: "certPhase ?lg E F (last tr2) = (x, tr3, ms4)" by (metis prod_cases3)
  obtain cn tr4 ms5 where n: "resolvePersistedCN ?lg (e_cnio E) (e_cn E) (last tr2) (cnPath F) (fl_rotateCloak F) = (cn, tr4, ms5)"
    by (metis prod_cases3)
  have tr1: "tr1 = [fs]" by (rule pskPhase_crash [OF p ident rd])
  then have c': "resolveCloakFamily ?lg (e_cloakio E) (e_seed E) fs (cloakPath F) (fl_rotateCloak F) = (fam, tr2, ms2)"
    using c by simp
  note ok2 = cloak_crash [OF c' dist ident new(1)]
  have last2: "identityOn (last tr2) F hex fams cns"
    using ok2 cloak.result(2) [OF c' TrueI identityOn_noLink(2) [OF ident]] by simp
  have tr3: "tr3 = [last tr2] \<or> tr3 = tr4"
    using ce n by (auto simp: certPhase_def Let_def split: if_splits option.splits)
  have "fs' = fs \<or> fs' \<in> set tr2 \<or> fs' \<in> set tr3"
    using fs' run p c ce tr1 by (auto simp: configPhase_def Let_def split: option.splits if_splits sum.splits prod.splits)
  then show ?thesis using ident ok2 last2 tr3 cert_crash [OF n dist last2 new(2)] by auto
qed

section \<open>What is logged\<close>

lemma pskPhase_msgs: "pskPhase lg E F fs = (x, tr, ms) \<Longrightarrow> FatalLine w \<notin> set ms \<and> ShareLine s \<notin> set ms"
  by (auto simp: pskPhase_def resolvePSK_def Let_def logger_defs split: option.splits if_splits prod.splits)

lemma resolveCloakFamily_msgs:
  "resolveCloakFamily lg ri seed fs path rot = (x, tr, ms) \<Longrightarrow> FatalLine w \<notin> set ms \<and> ShareLine s \<notin> set ms"
  by (auto simp: resolveCloakFamily_def Let_def logger_defs split: option.splits if_splits prod.splits)

lemma resolvePersistedCN_msgs:
  "resolvePersistedCN lg ri cr fs path rot = (x, tr, ms) \<Longrightarrow> FatalLine w \<notin> set ms \<and> ShareLine s \<notin> set ms"
  by (auto simp: resolvePersistedCN_def Let_def logger_defs split: option.splits if_splits prod.splits)

lemma certPhase_msgs: "certPhase lg E F fs = (x, tr, ms) \<Longrightarrow> FatalLine w \<notin> set ms \<and> ShareLine s \<notin> set ms"
  using resolvePersistedCN_msgs [of lg "e_cnio E" "e_cn E" fs "cnPath F" "fl_rotateCloak F" _ _ _ w s]
  by (auto simp: certPhase_def Let_def logger_defs split: option.splits if_splits prod.splits)

lemma servePhase_msgs:
  assumes "servePhase (configureLogger l lg) E F psk cfg fam name = (x, ms)"
  shows "FatalLine w \<notin> set ms" and "ShareLine s \<in> set ms \<Longrightarrow> LogInfo \<le> l"
  using assms by (auto simp: servePhase_def hostPhase_def Let_def logf_configured split: if_splits prod.splits)

lemma servePhase_shows:
  assumes "servePhase (configureLogger l lg) E F psk cfg fam name = (Running r, ms)" and "rn_share r = Some (a, s)" and "LogInfo \<le> l"
  shows "ShareLine s \<in> set ms"
  using assms by (auto simp: servePhase_def Let_def logf_configured split: if_splits prod.splits)

lemma configPhase_msgs:
  assumes "configPhase (configureLogger l lg) E F fs = (x, tr, ms)"
  shows "FatalLine w \<notin> set ms \<and> (ShareLine s \<in> set ms \<longrightarrow> LogInfo \<le> l)"
proof -
  let ?lg = "configureLogger l lg"
  obtain hexo tr1 ms1 where p: "pskPhase ?lg E F fs = (hexo, tr1, ms1)" by (metis prod_cases3)
  obtain fam tr2 ms2 where c: "resolveCloakFamily ?lg (e_cloakio E) (e_seed E) (last tr1) (cloakPath F)
      (fl_rotateCloak F) = (fam, tr2, ms2)" by (metis prod_cases3)
  obtain cert tr3 ms4 where ce: "certPhase ?lg E F (last tr2) = (cert, tr3, ms4)" by (metis prod_cases3)
  show ?thesis
    using assms p c ce pskPhase_msgs [OF p, of w s] resolveCloakFamily_msgs [OF c, of w s] certPhase_msgs [OF ce, of w s]
    by (auto simp: configPhase_def Let_def logf_configured split: option.splits sum.splits if_splits prod.splits
        dest: servePhase_msgs(1) servePhase_msgs(2))
qed

section \<open>Properties\<close>

text \<open>C23. A server that reaches its listener has a PSK of at least 16 bytes, the knobs derived from it in their ranges,
  one of the camouflage families, a valid host name as SNI, and as host either the placeholder or a public IP literal
  (never a loopback address, with which \<open>src/docs/INTEGRATE-ANDROID.md\<close> starts it); without an override the SNI is the name
  on the certificate.\<close>

theorem running_config_valid:
  assumes "serverMain v E F fs = (Running r, tr, ms)"
  shows "16 \<le> length (rn_psk r) \<and> derivePskConfig (e_crypto E) (rn_psk r) = Some (rn_cfg r) \<and> config_in_range (rn_cfg r) \<and>
    rn_family r \<in> set camouflageFamilies \<and> isValidHostname (rn_sni r) \<and>
    (fl_sni F = [] \<longrightarrow> rn_sni r = rn_certName r) \<and> (rn_host r = noHost \<or> isPublicIPLiteral (rn_host r))"
proof -
  from assms obtain lg ms2 where "configPhase lg E F fs = (Running r, tr, ms2)" by (rule serverMain_running)
  then show ?thesis
  proof (rule configPhase_running, goal_cases)
    case (1 hex tr1 ms1 tr2 ms2 tr3 ms4 ms5)
    then show ?case
      using derivePskConfig_in_range resolveCloakFamily_mem certPhase_name(1) servePhase_running(1,2,4) by metis
  qed
qed

text \<open>C20. After a start whose log shows no failure to persist, every later start on the same machine, with the same
  flags and any randomness, ends in exactly the same configuration: PSK, knobs, camouflage family, certificate
  name, SNI, host and share string. It writes nothing.\<close>

theorem restart_same_identity:
  assumes "serverMain v E F fs = (Running r, tr, ms)" and "e_key E = Some k" and "k \<noteq> []"
    and "parseLogLevel (e_uni E) (fl_logLevel F) = Some l" and "LogWarn \<le> l" and "\<not> fl_quiet F"
    and "\<forall>m\<in>set ms. \<not> persistWarning m" and "statePathsOK fs F" and "sameMachine E E2"
    and "fl_cert F = [] \<longrightarrow> generateSelfSignedCertWithCN (e_create E2) (e_cert E2) (rn_certName r) \<noteq> None"
  shows "\<exists>tr2 ms2. serverMain v E2 (F\<lparr>fl_rotateCloak := False\<rparr>) (last tr) = (Running r, tr2, ms2) \<and> set tr2 = {last tr}"
proof -
  let ?lg = "configureLogger l initLogger"
  from assms(1) obtain lg ms2 where f: "\<not> fl_version F" "\<not> fl_genPSK F" "chosenLogger E F = Some lg"
    "configPhase lg E F fs = (Running r, tr, ms2)" "set ms2 \<subseteq> set ms" by (rule serverMain_running)
  then have c: "configPhase ?lg E F fs = (Running r, tr, ms2)" using assms(4,6) by (simp add: chosenLogger_def)
  have "\<forall>m\<in>set ms2. \<not> persistWarning m" using assms(7) f(5) by blast
  then obtain ms3 where "configPhase ?lg E2 (again F) (last tr) = (Running r, replicate 3 (last tr), ms3)"
    using configPhase_again [OF c assms(2,3,5) _ assms(8,9)] assms(10) by blast
  then show ?thesis
    using f assms(4,6,9) by (simp add: serverMain_def Let_def sameMachine_def)
qed

text \<open>C22. Wherever a start dies or fails, even while rotating, an existing identity survives: the PSK file decodes to the
  same key, and the two other state files to the old choice or to the complete new one.\<close>

theorem crash_keeps_identity:
  assumes "serverMain v E F fs = (out, tr, ms)" and "r_read (e_pskio E)"
    and "distinct [pathKey (fl_pskFile F), pathKey (cloakPath F), pathKey (cnPath F)]"
    and "identityOn fs F hex {fam} {cn}" and "fs' \<in> set tr"
  shows "identityOn fs' F hex {fam, camouflageFamilies ! pickRandomFamilyIdx (e_seed E)} {cn, generateSyntheticCN (e_cn E)}"
proof -
  have i: "identityOn fs F hex {fam, freshFamily E} {cn, freshCN E}" using assms(4) by (auto simp: identityOn_def)
  show ?thesis
  proof (cases "fs' = fs")
    case True
    then show ?thesis using i by simp
  next
    case False
    then obtain level out2 ms2 where
      "configPhase (configureLogger (if fl_quiet F then LogOff else level) initLogger) E F fs = (out2, tr, ms2)"
      using assms(1,5) by (auto simp: serverMain_def Let_def split: if_splits option.splits prod.splits)
    then show ?thesis using configPhase_crash [OF _ assms(3) i _ _ assms(2,5)] by blast
  qed
qed

text \<open>C26. The share string, which holds the PSK, and the message of a fatal error are shown exactly at the levels Info and
  Debug without \<open>-quiet\<close>: a server that starts with its listener logs its share string just then, a start that fails logs
  its reason just then, and at no other level is any share string logged. At the levels Error and Warn a start that fails
  says nothing, because \<open>slog.SetDefault\<close> sends the \<open>log\<close> package through the handler at level Info.\<close>

theorem fatal_and_share_visibility:
  assumes "serverMain v E F fs = (out, tr, ms)" and "parseLogLevel (e_uni E) (fl_logLevel F) = Some l"
  shows "(\<forall>why. out = Fatal why \<longrightarrow> (FatalLine why \<in> set ms \<longleftrightarrow> LogInfo \<le> l \<and> \<not> fl_quiet F)) \<and>
    (\<forall>r a s. out = Running r \<and> rn_share r = Some (a, s) \<longrightarrow> (ShareLine s \<in> set ms \<longleftrightarrow> LogInfo \<le> l \<and> \<not> fl_quiet F)) \<and>
    (\<forall>s. ShareLine s \<in> set ms \<longrightarrow> LogInfo \<le> l \<and> \<not> fl_quiet F)"
proof -
  let ?l = "if fl_quiet F then LogOff else l"
  have l: "LogInfo \<le> ?l \<longleftrightarrow> LogInfo \<le> l \<and> \<not> fl_quiet F" by (auto simp: less_eq_LogLevel_def)
  obtain out2 tr2 ms2 where c: "configPhase (configureLogger ?l initLogger) E F fs = (out2, tr2, ms2)" by (metis prod_cases3)
  note m = configPhase_msgs [OF c]
  have f: "\<forall>why. out = Fatal why \<longrightarrow> (FatalLine why \<in> set ms \<longleftrightarrow> LogInfo \<le> ?l)"
    and s: "\<forall>s. ShareLine s \<in> set ms \<longrightarrow> LogInfo \<le> ?l"
    using assms c m
    by (auto simp: serverMain_def Let_def logf_init logf_configured fatalLine_def split: if_splits option.splits startup.splits)
  have "ShareLine s \<in> set ms" if o: "out = Running r" "rn_share r = Some (a, s)" "LogInfo \<le> ?l" for r a s
  proof -
    from assms(1) o(1) have "serverMain v E F fs = (Running r, tr, ms)" by simp
    then obtain lg ms3 where f: "chosenLogger E F = Some lg" "configPhase lg E F fs = (Running r, tr, ms3)" "set ms3 \<subseteq> set ms"
      by (rule serverMain_running)
    then have lg: "lg = configureLogger ?l initLogger" using assms(2) by (simp add: chosenLogger_def)
    from configPhase_running [OF f(2)] obtain ms5 where
      v: "servePhase lg E F (rn_psk r) (rn_cfg r) (rn_family r) (rn_certName r) = (Running r, ms5)" "set ms5 \<subseteq> set ms3"
      by (metis Un_subset_iff)
    have "ShareLine s \<in> set ms5" using servePhase_shows v(1) o(2,3) unfolding lg by blast
    then show ?thesis using v(2) f(3) by blast
  qed
  then show ?thesis unfolding l [symmetric] using f s by blast
qed

lemma printed_share_usable:
  assumes "serverMain v E F fs = (Running r, tr, ms)" and "length (rn_psk r) = 32"
    and "fl_publicIP F = ip4String ip" and "length ip = 4" and "fl_tcp F = '':'' @ itoaNat n" and "0 < n" and "n \<le> 65535"
  shows "\<exists>s. rn_share r = Some (fl_tcp F, s) \<and>
    parseShareString s = Inr \<lparr>sd_host = rn_host r, sd_port = int n, pskHex = hexEncode (rn_psk r), sd_sni = rn_sni r\<rparr>"
proof -
  from assms(1) obtain lg ms2 where "configPhase lg E F fs = (Running r, tr, ms2)" by (rule serverMain_running)
  then show ?thesis
  proof (rule configPhase_running, goal_cases)
    case (1 hex tr1 ms1 tr2 ms2 tr3 ms4 ms5)
    note S = servePhase_running [OF 1(7) certPhase_name(1) [OF 1(6)]]
    have h: "rn_host r = ip4String ip" using S(3) assms(3) by (simp add: hostPhase_def)
    show ?case
      using share_parses_hostname [OF assms(2,4,6,7) disjI2 [OF S(1)]] S(5) assms(5) h by simp
  qed
qed

text \<open>C40. A server told to listen on a host and a port, as \<open>127.0.0.1:443\<close> or \<open>localhost:443\<close> (the comment of
  \<open>buildShareString\<close> admits both forms), with an IPv4 address as its host, prints a share string with two colons after that
  address, which the client rejects as no URL, whatever its PSK and SNI are. (Listen hosts over letters, digits, dots and
  hyphens.)\<close>

theorem share_with_listen_host_rejected:
  assumes "serverMain v E F fs = (Running r, tr, ms)" and "rn_host r = ip4String ip"
    and "fl_tcp F = lhost @ '':'' @ itoaNat n" and "lhost \<noteq> []" and "simple lhost"
  shows "\<exists>s. rn_share r = Some (fl_tcp F, s) \<and> parseShareString s = Inl UrlInvalid"
proof -
  from assms(1) obtain lg ms2 where "configPhase lg E F fs = (Running r, tr, ms2)" by (rule serverMain_running)
  then show ?thesis
  proof (rule configPhase_running, goal_cases)
    case (1 hex tr1 ms1 tr2 ms2 tr3 ms4 ms5)
    note S = servePhase_running [OF 1(7) certPhase_name(1) [OF 1(6)]]
    show ?case
      using share_listen_host [OF assms(4,5) valid_simple [OF S(1)]] S(5) assms(2-4) by simp
  qed
qed

section \<open>A first start\<close>

definition demo_rio :: resolve_io where
  "demo_rio = \<lparr>r_read = True, r_mkdir = 9, r_io = demo_io\<rparr>"

definition demo_flags :: flags where
  "demo_flags = \<lparr>fl_version = False, fl_tcp = '':443'', fl_psk = [], fl_pskFile = ''./mxtr-psk.hex'', fl_cloakState = [],
     fl_rotateCloak = False, fl_cert = [], fl_key = [], fl_genPSK = False, fl_logLevel = ''info'', fl_quiet = False,
     fl_publicIP = ''203.0.113.9'', fl_sni = [], fl_allow = []\<rparr>"

definition demo_senv :: env where
  "demo_senv = \<lparr>e_mxtrPsk = [], e_key = Some (replicate 32 7), e_seed = Some [1, 2, 3, 4, 5, 6, 7, 8],
     e_cn = \<lparr>cr_region = 3, cr_num = 41, cr_apex = 2, cr_shape = 4\<rparr>,
     e_cert = \<lparr>ct_key = True, ct_org = 1, ct_serial = Some 5, ct_now = 0\<rparr>,
     e_pskio = demo_rio, e_cloakio = demo_rio, e_cnio = demo_rio, e_addrs = None,
     e_create = (\<lambda>t. Some []), e_loadPair = (\<lambda>c k. None), e_parseCert = (\<lambda>c. None), e_uni = (\<lambda>s. s),
     e_crypto = demo_crypto\<rparr>"

lemma persistState_succeeds:
  assumes "r_io ri = demo_io" and "dirOf path = ''.''"
    and "nodeAt fs (pathKey (tmpName path [0xDE, 0xAD, 0xBE, 0xEF])) = None" and "nodeAt fs (pathKey path) = None"
  shows "\<exists>tr. persistState ri fs path line = (None, tr) \<and>
    last tr = fs(pathKey path \<mapsto> FFile (bytes_of (line @ nl)) 384 True)"
proof -
  let ?d = "bytes_of (line @ nl)" and ?t = "pathKey (tmpName path [0xDE, 0xAD, 0xBE, 0xEF])"
  obtain err tr where w: "writeFileSecure demo_io fs (tmpName path [0xDE, 0xAD, 0xBE, 0xEF]) ?d 384 = (err, tr)" by fastforce
  have e: "err = None"
    using w assms(3) by (auto simp: writeFileSecure_def secureCreateExclFile_def openFile_def demo_io_def Let_def)
  note l = writeFileSecure_trace(5) [OF w e]
  have t: "nodeAt (last tr) ?t \<noteq> None" "nodeAt (last tr) (pathKey path) \<noteq> Some FDir"
    using l assms(3,4) tmpName_key(1) [of path "[0xDE, 0xAD, 0xBE, 0xEF]"] by (auto simp: nodeAt_def split: if_splits)
  obtain tr2 where r: "atomicReplaceSecure demo_io fs path ?d 384 = (None, tr2)"
    using w e t by (auto simp: atomicReplaceSecure_def renameFile_def demo_io_def Let_def)
  then show ?thesis
    using atomicReplaceSecure_ok(1) [OF r] replace_trace_nonempty [OF r] assms(1,2) by (simp add: persistState_def)
qed

definition demo_fs1 :: fs where
  "demo_fs1 = [(False, [''mxtr-psk.hex'']) \<mapsto> FFile (bytes_of (hexEncode (replicate 32 7) @ nl)) 384 True]"

definition demo_fs2 :: fs where
  "demo_fs2 = demo_fs1((False, [''mxtr-cloak.idx'']) \<mapsto>
     FFile (bytes_of (itoaNat (pickRandomFamilyIdx (e_seed demo_senv)) @ nl)) 384 True)"

lemma demo_keys:
  "pathKey (fl_pskFile demo_flags) = (False, [''mxtr-psk.hex''])" "pathKey (cloakPath demo_flags) = (False, [''mxtr-cloak.idx''])"
  "pathKey (cnPath demo_flags) = (False, [''mxtr-cert.cn''])"
  "dirOf (fl_pskFile demo_flags) = ''.''" "dirOf (cloakPath demo_flags) = ''.''" "dirOf (cnPath demo_flags) = ''.''"
  "pathKey (tmpName (fl_pskFile demo_flags) [0xDE, 0xAD, 0xBE, 0xEF]) = (False, [''mxtr-psk.hex.deadbeef.tmp''])"
  "pathKey (tmpName (cloakPath demo_flags) [0xDE, 0xAD, 0xBE, 0xEF]) = (False, [''mxtr-cloak.idx.deadbeef.tmp''])"
  "pathKey (tmpName (cnPath demo_flags) [0xDE, 0xAD, 0xBE, 0xEF]) = (False, [''mxtr-cert.cn.deadbeef.tmp''])"
  by code_simp+

lemma demo_psk:
  "\<exists>tr. pskPhase (configureLogger LogInfo initLogger) demo_senv demo_flags Map.empty =
     (Some (hexEncode (replicate 32 7)), tr, [PskGenerated (fl_pskFile demo_flags)]) \<and> last tr = demo_fs1"
proof -
  obtain tr where p: "persistState demo_rio Map.empty (fl_pskFile demo_flags) (hexEncode (replicate 32 7)) = (None, tr)"
    "last tr = demo_fs1"
    using persistState_succeeds [of demo_rio "fl_pskFile demo_flags" Map.empty "hexEncode (replicate 32 7)"]
    by (auto simp: demo_keys nodeAt_def demo_rio_def demo_fs1_def)
  have "readFile True Map.empty (fl_pskFile demo_flags) = None"
    by (simp add: readFile_stateAt noLink_def stateAt_def nodeAt_def demo_keys)
  then show ?thesis
    using p by (simp add: pskPhase_def resolvePSK_def demo_senv_def demo_flags_def demo_rio_def logf_configured)
qed

lemma demo_cloak:
  "\<exists>tr. resolveCloakFamily (configureLogger LogInfo initLogger) (e_cloakio demo_senv) (e_seed demo_senv) demo_fs1
      (cloakPath demo_flags) False =
     (camouflageFamilies ! pickRandomFamilyIdx (e_seed demo_senv), tr,
      [CloakPersisted False (pickRandomFamilyIdx (e_seed demo_senv)) (cloakPath demo_flags)]) \<and> last tr = demo_fs2"
proof -
  let ?i = "itoaNat (pickRandomFamilyIdx (e_seed demo_senv))"
  obtain tr where p: "persistState demo_rio demo_fs1 (cloakPath demo_flags) ?i = (None, tr)" "last tr = demo_fs2"
    using persistState_succeeds [of demo_rio "cloakPath demo_flags" demo_fs1 ?i]
    by (auto simp: demo_keys nodeAt_def demo_rio_def demo_fs1_def demo_fs2_def)
  have "readFile True demo_fs1 (cloakPath demo_flags) = None"
    by (simp add: readFile_stateAt noLink_def stateAt_def nodeAt_def demo_keys demo_fs1_def)
  moreover have "e_cloakio demo_senv = demo_rio" "r_read demo_rio" by (simp_all add: demo_senv_def demo_rio_def)
  ultimately show ?thesis using p by (simp add: resolveCloakFamily_def Let_def logf_configured)
qed

lemma demo_cert:
  "\<exists>tr. certPhase (configureLogger LogInfo initLogger) demo_senv demo_flags demo_fs2 =
     (Inr (generateSyntheticCN (e_cn demo_senv)), tr,
      [CnPersisted False (generateSyntheticCN (e_cn demo_senv)) (cnPath demo_flags), CertReady (generateSyntheticCN (e_cn demo_senv))])"
proof -
  let ?cn = "generateSyntheticCN (e_cn demo_senv)"
  obtain tr where p: "persistState demo_rio demo_fs2 (cnPath demo_flags) ?cn = (None, tr)"
    using persistState_succeeds [of demo_rio "cnPath demo_flags" demo_fs2 ?cn]
    by (auto simp: demo_keys nodeAt_def demo_rio_def demo_fs1_def demo_fs2_def)
  have "readFile True demo_fs2 (cnPath demo_flags) = None"
    by (simp add: readFile_stateAt noLink_def stateAt_def nodeAt_def demo_keys demo_fs1_def demo_fs2_def)
  moreover have "e_cnio demo_senv = demo_rio" "r_read demo_rio" by (simp_all add: demo_senv_def demo_rio_def)
  ultimately have "resolvePersistedCN (configureLogger LogInfo initLogger) (e_cnio demo_senv) (e_cn demo_senv) demo_fs2
      (cnPath demo_flags) False = (?cn, tr, [CnPersisted False ?cn (cnPath demo_flags)])"
    using p by (simp add: resolvePersistedCN_def Let_def logf_configured)
  moreover have "generateSelfSignedCertWithCN (e_create demo_senv) (e_cert demo_senv) ?cn = Some ([], ?cn)"
    by (simp add: generateSelfSignedCertWithCN_def demo_senv_def)
  moreover have "fl_cert demo_flags = []" "\<not> fl_rotateCloak demo_flags" by (simp_all add: demo_flags_def)
  ultimately show ?thesis by (simp add: certPhase_def logf_configured)
qed

lemma demo_running_on:
  assumes "a \<noteq> []"
  shows "\<exists>r tr ms. serverMain ''0.3.0'' demo_senv (demo_flags\<lparr>fl_tcp := a\<rparr>) Map.empty = (Running r, tr, ms) \<and>
     (\<forall>m\<in>set ms. \<not> persistWarning m) \<and> rn_psk r = replicate 32 7 \<and> rn_certName r = generateSyntheticCN (e_cn demo_senv) \<and>
     rn_host r = ''203.0.113.9''"
proof -
  let ?F = "demo_flags\<lparr>fl_tcp := a\<rparr>"
  let ?lg = "configureLogger LogInfo initLogger" and ?cn = "generateSyntheticCN (e_cn demo_senv)"
    and ?fam = "camouflageFamilies ! pickRandomFamilyIdx (e_seed demo_senv)" and ?psk = "replicate 32 7 :: bytes"
  obtain cfg where cfg: "derivePskConfig (e_crypto demo_senv) ?psk = Some cfg"
    using psk_config_ranges [OF demo_hkdf_ok, of ?psk] by (auto simp: demo_senv_def)
  have h: "hostPhase ?lg demo_senv ?F = (''203.0.113.9'', [])" by (simp add: hostPhase_def demo_flags_def)
  have pub: "isPublicIPLiteral ''203.0.113.9''" by code_simp
  have f: "fl_sni ?F = []" by (simp add: demo_flags_def)
  obtain r where r: "servePhase ?lg demo_senv ?F ?psk cfg ?fam ?cn =
      (Running r, [ShareLine (buildShareString ?psk ''203.0.113.9'' a ?cn)])" "rn_psk r = ?psk" "rn_certName r = ?cn"
      "rn_host r = ''203.0.113.9''"
    using h pub f assms synthetic_cn_valid [of "e_cn demo_senv"] by (auto simp: servePhase_def Let_def logf_configured)
  obtain tr1 where 1: "pskPhase ?lg demo_senv demo_flags Map.empty =
      (Some (hexEncode ?psk), tr1, [PskGenerated (fl_pskFile demo_flags)])" "last tr1 = demo_fs1" using demo_psk by blast
  obtain tr2 where 2: "resolveCloakFamily ?lg (e_cloakio demo_senv) (e_seed demo_senv) demo_fs1 (cloakPath demo_flags) False =
      (?fam, tr2, [CloakPersisted False (pickRandomFamilyIdx (e_seed demo_senv)) (cloakPath demo_flags)])" "last tr2 = demo_fs2"
    using demo_cloak by blast
  obtain tr3 where 3: "certPhase ?lg demo_senv demo_flags demo_fs2 =
      (Inr ?cn, tr3, [CnPersisted False ?cn (cnPath demo_flags), CertReady ?cn])" using demo_cert by blast
  have same: "pskPhase ?lg demo_senv ?F = pskPhase ?lg demo_senv demo_flags" "certPhase ?lg demo_senv ?F = certPhase ?lg demo_senv demo_flags"
    "cloakPath ?F = cloakPath demo_flags" "fl_rotateCloak ?F = fl_rotateCloak demo_flags"
    by (auto simp: pskPhase_def certPhase_def cloakPath_def cnPath_def Let_def intro!: ext)
  have rot: "\<not> fl_rotateCloak demo_flags" by (simp add: demo_flags_def)
  obtain tr ms where c: "configPhase ?lg demo_senv ?F Map.empty = (Running r, tr, ms)" "\<forall>m\<in>set ms. \<not> persistWarning m"
    using 1 2 3 cfg r(1) same rot by (simp add: configPhase_def Let_def logf_configured)
  have "parseLogLevel (e_uni demo_senv) (fl_logLevel demo_flags) = Some LogInfo" by code_simp
  then have "parseLogLevel (e_uni demo_senv) (fl_logLevel ?F) = Some LogInfo" by simp
  moreover have "\<not> fl_version ?F" "\<not> fl_genPSK ?F" "\<not> fl_quiet ?F" "fl_allow ?F = []" by (simp_all add: demo_flags_def)
  ultimately show ?thesis
    using c r(2-4) by (simp add: serverMain_def Let_def fatalLine_def logf_configured allowWarnings_def parseAllowList_def)
qed

lemma demo_running:
  "\<exists>r tr ms. serverMain ''0.3.0'' demo_senv demo_flags Map.empty = (Running r, tr, ms) \<and> (\<forall>m\<in>set ms. \<not> persistWarning m) \<and>
     rn_psk r = replicate 32 7 \<and> rn_certName r = generateSyntheticCN (e_cn demo_senv)"
proof -
  have "demo_flags\<lparr>fl_tcp := '':443''\<rparr> = demo_flags" by (simp add: demo_flags_def)
  with demo_running_on [of "'':443''"] show ?thesis by auto
qed

theorem share_with_listen_host_rejected_witness:
  "\<exists>r tr ms s. serverMain ''0.3.0'' demo_senv (demo_flags\<lparr>fl_tcp := ''127.0.0.1:443''\<rparr>) Map.empty = (Running r, tr, ms) \<and>
     rn_share r = Some (''127.0.0.1:443'', s) \<and> parseShareString s = Inl UrlInvalid"
proof -
  obtain r tr ms where run: "serverMain ''0.3.0'' demo_senv (demo_flags\<lparr>fl_tcp := ''127.0.0.1:443''\<rparr>) Map.empty = (Running r, tr, ms)"
    and h: "rn_host r = ''203.0.113.9''" using demo_running_on [of "''127.0.0.1:443''"] by blast
  have e: "''203.0.113.9'' = ip4String [203, 0, 113, 9]" "''127.0.0.1:443'' = ''127.0.0.1'' @ '':'' @ itoaNat 443" "simple ''127.0.0.1''"
    by code_simp+
  show ?thesis
    using share_with_listen_host_rejected [OF run h [unfolded e(1)], of "''127.0.0.1''" 443] e(2,3) run by auto
qed

theorem running_config_valid_witness:
  "\<exists>r tr ms. serverMain ''0.3.0'' demo_senv demo_flags Map.empty = (Running r, tr, ms) \<and>
     16 \<le> length (rn_psk r) \<and> config_in_range (rn_cfg r) \<and> isValidHostname (rn_sni r)"
proof -
  obtain r tr ms where run: "serverMain ''0.3.0'' demo_senv demo_flags Map.empty = (Running r, tr, ms)"
    using demo_running by blast
  show ?thesis using running_config_valid [OF run] run by blast
qed

theorem restart_same_identity_witness:
  "\<exists>r tr ms tr2 ms2. serverMain ''0.3.0'' demo_senv demo_flags Map.empty = (Running r, tr, ms) \<and>
     serverMain ''0.3.0'' (demo_senv\<lparr>e_key := Some (replicate 32 9), e_seed := None\<rparr>) (demo_flags\<lparr>fl_rotateCloak := False\<rparr>)
       (last tr) = (Running r, tr2, ms2) \<and> set tr2 = {last tr}"
proof -
  let ?E2 = "demo_senv\<lparr>e_key := Some (replicate 32 9), e_seed := None\<rparr>"
  obtain r tr ms where run: "serverMain ''0.3.0'' demo_senv demo_flags Map.empty = (Running r, tr, ms)"
    "\<forall>m\<in>set ms. \<not> persistWarning m"
    using demo_running by blast
  have key: "e_key demo_senv = Some (replicate 32 7)" "replicate 32 7 \<noteq> ([] :: bytes)" by (simp_all add: demo_senv_def)
  have lev: "parseLogLevel (e_uni demo_senv) (fl_logLevel demo_flags) = Some LogInfo" by code_simp
  have "LogWarn \<le> LogInfo" "\<not> fl_quiet demo_flags" by (simp_all add: less_eq_LogLevel_def demo_flags_def)
  moreover have "statePathsOK Map.empty demo_flags" by code_simp
  moreover have "sameMachine demo_senv ?E2" by (simp add: sameMachine_def demo_senv_def demo_rio_def)
  moreover have "fl_cert demo_flags = [] \<longrightarrow> generateSelfSignedCertWithCN (e_create ?E2) (e_cert ?E2) (rn_certName r) \<noteq> None"
    by (simp add: generateSelfSignedCertWithCN_def demo_senv_def)
  ultimately show ?thesis
    using restart_same_identity [OF run(1) key lev _ _ run(2)] run(1) by blast
qed

theorem fatal_and_share_visibility_witness:
  "\<exists>tr. serverMain ''0.3.0'' demo_senv (demo_flags\<lparr>fl_psk := ''zz'', fl_logLevel := ''error''\<rparr>) Map.empty = (Fatal ''bad PSK hex'', tr, [])"
proof -
  let ?F = "demo_flags\<lparr>fl_psk := ''zz'', fl_logLevel := ''error''\<rparr>"
  have lev: "parseLogLevel (e_uni demo_senv) (fl_logLevel ?F) = Some LogError" by code_simp
  have "pskPhase (configureLogger LogError initLogger) demo_senv ?F Map.empty = (Some ''zz'', [Map.empty], [])"
    by (simp add: pskPhase_def)
  moreover have "hexDecode ''zz'' = None" by code_simp
  ultimately have c: "configPhase (configureLogger LogError initLogger) demo_senv ?F Map.empty = (Fatal ''bad PSK hex'', [Map.empty], [])"
    by (simp add: configPhase_def)
  obtain out tr ms where run: "serverMain ''0.3.0'' demo_senv ?F Map.empty = (out, tr, ms)" by (metis prod_cases3)
  then have o: "out = Fatal ''bad PSK hex''" "set ms \<subseteq> {FatalLine ''bad PSK hex''}"
    using c lev by (auto simp: serverMain_def Let_def demo_flags_def fatalLine_def logf_configured less_eq_LogLevel_def
        allowWarnings_def parseAllowList_def)
  have "\<not> LogInfo \<le> LogError" by (simp add: less_eq_LogLevel_def)
  then have "FatalLine ''bad PSK hex'' \<notin> set ms"
    using fatal_and_share_visibility [OF run lev] o(1) by blast
  with o have "ms = []" by (cases ms) auto
  with run o show ?thesis by blast
qed

text \<open>A machine with an identity whose operator asks for a rotation.\<close>

definition demo_fs3 :: fs where
  "demo_fs3 =
     [(False, [''mxtr-psk.hex'']) \<mapsto> FFile (bytes_of (hexEncode (replicate 32 7) @ nl)) 384 True,
      (False, [''mxtr-cloak.idx'']) \<mapsto> FFile (bytes_of (itoaNat 1 @ nl)) 384 True,
      (False, [''mxtr-cert.cn'']) \<mapsto> FFile (bytes_of (freshCN demo_senv @ nl)) 384 True]"

lemma demo_identity:
  "identityOn demo_fs3 demo_flags (hexEncode (replicate 32 7)) {camouflageFamilies ! 1} {freshCN demo_senv}"
proof -
  have "1 < length camouflageFamilies" by (simp add: camouflageFamilies_def)
  then show ?thesis
    using decodePSK_line [of "replicate 32 7"] decodeCloak_line [of 1] decodeCN_line [OF synthetic_cn_valid [of "e_cn demo_senv"]]
    by (auto simp: identityOn_def demo_keys stateAt_def nodeAt_def demo_fs3_def simp del: bytes_of_append)
qed

lemma serverMain_trace: "serverMain v E F fs = (out, tr, ms) \<Longrightarrow> identityOn fs F hex fams cns \<Longrightarrow> r_read (e_pskio E) \<Longrightarrow> tr \<noteq> []"
  by (auto simp: serverMain_def configPhase_def Let_def dest!: pskPhase_crash split: if_splits option.splits prod.splits sum.splits)

theorem crash_keeps_identity_witness:
  "\<exists>out tr ms. serverMain ''0.3.0'' demo_senv (demo_flags\<lparr>fl_rotateCloak := True\<rparr>) demo_fs3 = (out, tr, ms) \<and> tr \<noteq> [] \<and>
     identityOn (last tr) (demo_flags\<lparr>fl_rotateCloak := True\<rparr>) (hexEncode (replicate 32 7))
       {camouflageFamilies ! 1, freshFamily demo_senv} {freshCN demo_senv}"
proof -
  let ?F = "demo_flags\<lparr>fl_rotateCloak := True\<rparr>"
  obtain out tr ms where run: "serverMain ''0.3.0'' demo_senv ?F demo_fs3 = (out, tr, ms)" by (metis prod_cases3)
  have p: "fl_pskFile ?F = fl_pskFile demo_flags" "cloakPath ?F = cloakPath demo_flags" "cnPath ?F = cnPath demo_flags"
    by (simp_all add: cloakPath_def cnPath_def)
  have rd: "r_read (e_pskio demo_senv)" by (simp add: demo_senv_def demo_rio_def)
  have dist: "distinct [pathKey (fl_pskFile ?F), pathKey (cloakPath ?F), pathKey (cnPath ?F)]"
    unfolding p by (simp add: demo_keys)
  have i: "identityOn demo_fs3 ?F (hexEncode (replicate 32 7)) {camouflageFamilies ! 1} {freshCN demo_senv}"
    using demo_identity unfolding identityOn_def p .
  have ne: "tr \<noteq> []" by (rule serverMain_trace [OF run i rd])
  have "identityOn (last tr) ?F (hexEncode (replicate 32 7)) {camouflageFamilies ! 1, freshFamily demo_senv} {freshCN demo_senv}"
    using crash_keeps_identity [OF run rd dist i last_in_set [OF ne]] by simp
  then show ?thesis using run ne by blast
qed

end
