(* ===== verification/Client_Main.thy ===== *)
theory Client_Main
  imports Client_Flow Startup
begin

text \<open>
  The rest of \<open>cmd/mxtr-testclient-v2/main.go\<close>: \<open>main\<close> (lines 817 to 903), \<open>streamWriter\<close> and \<open>streamConn\<close>
  (lines 776 to 808), the start of \<open>runSocks5\<close> (lines 633 to 647) and \<open>runHTTPOnce\<close> (lines 745 to 774). In its https mode
  the same reader and writer carry the records of an inner crypto/tls connection: that library is a parameter, a machine
  that answers every call by calls on the connection below it.
\<close>

section \<open>Configuration\<close>

record clientFlags =
  cf_share :: string
  cf_server :: string
  cf_psk :: string
  cf_pskFile :: string
  cf_env :: string
  cf_method :: string
  cf_target :: string
  cf_socksAddr :: string

datatype client_error =
    BadShare share_error | NeedServer | BadServer | BadPort | ReadPskFile | PskRequired | BadPskHex | PskShort nat

record dialConfig =
  dc_host :: string
  dc_port :: int
  dc_psk :: bytes
  dc_sni :: string

text \<open>\<open>main\<close> up to the call of \<open>dialSession\<close>. The error of \<open>hex.DecodeString\<close> on the key of a share string is ignored
  there; the function then returns the bytes decoded so far, which for a key that \<open>parseShareString\<close> encoded is all of them.\<close>

definition clientConfig :: "bool \<Rightarrow> fs \<Rightarrow> clientFlags \<Rightarrow> client_error + dialConfig" where
  "clientConfig rd fs F =
     (if cf_share F \<noteq> [] then
        (case parseShareString (cf_share F) of
           Inl e \<Rightarrow> Inl (BadShare e)
         | Inr sd \<Rightarrow>
             Inr \<lparr>dc_host = sd_host sd, dc_port = sd_port sd,
                  dc_psk = (case hexDecode (pskHex sd) of Some k \<Rightarrow> k | None \<Rightarrow> []), dc_sni = sd_sni sd\<rparr>)
      else if cf_server F = [] then Inl NeedServer
      else case splitHostPort (cf_server F) of
        None \<Rightarrow> Inl BadServer
      | Some (h, portStr) \<Rightarrow>
          (case atoi portStr of
             None \<Rightarrow> Inl BadPort
           | Some port \<Rightarrow>
               let h1 = (if cf_psk F = [] then cf_env F else cf_psk F);
                   useFile = (h1 = [] \<and> cf_pskFile F \<noteq> []);
                   data = readFile rd fs (cf_pskFile F)
               in if useFile \<and> data = None then Inl ReadPskFile
                  else let hex = (if useFile then trimSpace (string_of (the data)) else h1)
                       in if hex = [] then Inl PskRequired
                          else case hexDecode hex of
                            None \<Rightarrow> Inl BadPskHex
                          | Some psk \<Rightarrow>
                              if length psk < 16 then Inl (PskShort (length psk))
                              else Inr \<lparr>dc_host = h, dc_port = port, dc_psk = psk, dc_sni = []\<rparr>))"

section \<open>Writing a buffer to a stream\<close>

text \<open>\<open>streamWriter.Write\<close> between its synchronisation points: the rest of the buffer and \<open>off\<close>; the chunk whose credit
  has been taken; the returned count, with or without an error. The first argument is the stream.\<close>

datatype wstate = WLoop bytes nat | WSend bytes bytes nat | WDone nat | WErr nat

fun streamWriterWrite ::
  "crypto \<Rightarrow> nat \<times> (nat \<Rightarrow> byte) \<Rightarrow> nat \<Rightarrow> wstate \<Rightarrow> tcsession \<Rightarrow> (wstate \<times> tcsession) option" where
  "streamWriterWrite C R r (WLoop rest off) s =
     (if rest = [] then Some (WDone off, s)
      else let chunk = min (length rest) tc_maxStreamPayloadV2
           in case acquireWindow r chunk s of
                None \<Rightarrow> None
              | Some (False, s1) \<Rightarrow> Some (WErr off, s1)
              | Some (True, s1) \<Rightarrow> Some (WSend (take chunk rest) (drop chunk rest) off, s1))"
| "streamWriterWrite C R r (WSend chunk rest off) s =
     (let (ok, s1) = tc_writeStreamFrame C R (cst_id (tobjs s ! r)) typeData chunk s
      in Some (if ok then WLoop rest (off + length chunk) else WErr off, s1))"
| "streamWriterWrite C R r (WDone n) s = None"
| "streamWriterWrite C R r (WErr n) s = None"

text \<open>A call of \<open>Write(p)\<close> on stream \<open>r\<close>, while other goroutines change the session in any way but for the identifier of the
  stream; the last argument collects the plaintexts that the steps of the call have added to \<open>tsealed\<close>, the session's
  history of sealed frames.\<close>

inductive writeCall :: "crypto \<Rightarrow> nat \<Rightarrow> bytes \<Rightarrow> wstate \<Rightarrow> tcsession \<Rightarrow> bytes list \<Rightarrow> bool"
  for C :: crypto and r :: nat and p :: bytes where
  call: "writeCall C r p (WLoop p 0) s []"
| others: "writeCall C r p w s fs \<Longrightarrow> cst_id (tobjs s' ! r) = cst_id (tobjs s ! r) \<Longrightarrow> writeCall C r p w s' fs"
| step: "writeCall C r p w s fs \<Longrightarrow> streamWriterWrite C R r w s = Some (w', s') \<Longrightarrow>
    writeCall C r p w' s' (fs @ map snd (drop (length (tsealed s)) (tsealed s')))"

fun writeInv :: "bytes \<Rightarrow> wstate \<Rightarrow> bytes list \<Rightarrow> bool" where
  "writeInv p (WLoop rest off) sent \<longleftrightarrow> p = concat sent @ rest \<and> off = length (concat sent)"
| "writeInv p (WSend chunk rest off) sent \<longleftrightarrow>
     p = concat sent @ chunk @ rest \<and> off = length (concat sent) \<and> chunk \<noteq> [] \<and> length chunk \<le> tc_maxStreamPayloadV2"
| "writeInv p (WDone n) sent \<longleftrightarrow> p = concat sent \<and> n = length p"
| "writeInv p (WErr n) sent \<longleftrightarrow> concat sent = take n p \<and> n = length (concat sent)"

lemma tc_maxStreamPayloadV2_pos: "0 < tc_maxStreamPayloadV2"
  by code_simp

text \<open>What a step adds to the sealed frames: the chunk as a DATA frame of the stream when the write succeeds, else nothing.\<close>

lemma writer_step_frames:
  assumes st: "streamWriterWrite C R r w s = Some (w', s')" and inv: "writeInv p w sent"
    and lim: "\<forall>c\<in>set sent. c \<noteq> [] \<and> length c \<le> tc_maxStreamPayloadV2"
  shows "\<exists>new. map snd (drop (length (tsealed s)) (tsealed s')) = map (tc_streamFrame (cst_id (tobjs s ! r)) typeData) new \<and>
    writeInv p w' (sent @ new) \<and> (\<forall>c\<in>set new. c \<noteq> [] \<and> length c \<le> tc_maxStreamPayloadV2) \<and>
    cst_id (tobjs s' ! r) = cst_id (tobjs s ! r)"
proof (cases w)
  case (WLoop rest off)
  have aq: "tsealed s1 = tsealed s \<and> cst_id (tobjs s1 ! r) = cst_id (tobjs s ! r)" if "acquireWindow r n s = Some (b, s1)" for n b s1
    using that by (cases "r < length (tobjs s)") (auto simp: acquireWindow_def onStream_def Let_def list_update_beyond split: if_splits)
  show ?thesis
    using st inv WLoop aq tc_maxStreamPayloadV2_pos
    by (intro exI [of _ "[]"]) (auto simp: Let_def split: if_splits option.splits bool.splits)
next
  case (WSend chunk rest off)
  let ?i = "cst_id (tobjs s ! r)"
  obtain ok s1 where w: "tc_writeStreamFrame C R ?i typeData chunk s = (ok, s1)" by fastforce
  then have "tobjs s1 = tobjs s" and
    "map snd (drop (length (tsealed s)) (tsealed s1)) = (if ok then [tc_streamFrame ?i typeData chunk] else [])"
    by (auto simp: tc_writeStreamFrame_def Let_def split: if_splits prod.splits)
  then show ?thesis
    using st inv WSend w by (intro exI [of _ "if ok then [chunk] else []"]) (auto split: if_splits)
qed (use st in simp_all)

lemma writeCall_inv:
  "writeCall C r p w s fs \<Longrightarrow> \<exists>sent. fs = map (tc_streamFrame (cst_id (tobjs s ! r)) typeData) sent \<and> writeInv p w sent \<and>
     (\<forall>c\<in>set sent. c \<noteq> [] \<and> length c \<le> tc_maxStreamPayloadV2)"
proof (induction rule: writeCall.induct)
  case (step w s fs R w' s')
  then obtain sent where f: "fs = map (tc_streamFrame (cst_id (tobjs s ! r)) typeData) sent" and i: "writeInv p w sent"
    and l: "\<forall>c\<in>set sent. c \<noteq> [] \<and> length c \<le> tc_maxStreamPayloadV2" by blast
  from writer_step_frames [OF step(2) i l] obtain new where
    n: "map snd (drop (length (tsealed s)) (tsealed s')) = map (tc_streamFrame (cst_id (tobjs s ! r)) typeData) new"
      "writeInv p w' (sent @ new)" "\<forall>c\<in>set new. c \<noteq> [] \<and> length c \<le> tc_maxStreamPayloadV2"
      "cst_id (tobjs s' ! r) = cst_id (tobjs s ! r)" by blast
  then show ?case using f l by (intro exI [of _ "sent @ new"]) auto
qed auto

section \<open>The one-shot modes\<close>

text \<open>\<open>fmt.Sscanf(portStr, "%d", &port)\<close>: the digits at the start, 0 if there are none or the value does not fit.\<close>

definition sscanfPort :: "string \<Rightarrow> int" where
  "sscanfPort s =
     (let t = dropWhile (\<lambda>c. c = CHR '' '') s;
          neg = (t \<noteq> [] \<and> hd t = CHR ''-'');
          u = (if t \<noteq> [] \<and> (hd t = CHR ''-'' \<or> hd t = CHR ''+'') then tl t else t);
          ds = takeWhile (\<lambda>c. digitVal c \<noteq> None) u
      in if ds = [] then 0
         else case atoi (if neg then CHR ''-'' # ds else ds) of None \<Rightarrow> 0 | Some v \<Rightarrow> v)"

definition httpRequest :: "string \<Rightarrow> bytes" where
  "httpRequest host =
     bytes_of (''GET / HTTP/1.1'' @ crlf @ ''Host: '' @ host @ crlf @ ''Connection: close'' @ crlf @
       ''User-Agent: mxtr-testclient-v2'' @ crlf @ crlf)"

datatype hstate =
    HStart string
  | HWait string u32 nat
  | HWrite nat wstate
  | HCopy nat
  | HDone
  | HFail

text \<open>One step of \<open>runHTTPOnce\<close>; the last component is what it prints.\<close>

fun runHTTPOnce :: "crypto \<Rightarrow> cstepin \<Rightarrow> hstate \<Rightarrow> tcsession \<Rightarrow> (hstate \<times> tcsession \<times> bytes) option" where
  "runHTTPOnce C X (HStart target) s =
     (case splitHostPort target of
        None \<Rightarrow> Some (HFail, s, [])
      | Some (host, portStr) \<Rightarrow>
          (case openStart C X host (nat (sscanfPort portStr mod 65536)) s of
             (None, s1) \<Rightarrow> Some (HFail, s1, [])
           | (Some (sno, r), s1) \<Rightarrow> Some (HWait host sno r, s1, [])))"
| "runHTTPOnce C X (HWait host sno r) s =
     (case openSelect (csel X) sno r s of
        None \<Rightarrow> None
      | Some (False, s1) \<Rightarrow> Some (HFail, s1, [])
      | Some (True, s1) \<Rightarrow> Some (HWrite r (WLoop (httpRequest host) 0), s1, []))"
| "runHTTPOnce C X (HWrite r w) s =
     (case w of
        WDone n \<Rightarrow> Some (HCopy r, s, [])
      | WErr n \<Rightarrow> Some (HFail, s, [])
      | _ \<Rightarrow> (case streamWriterWrite C (crnd X) r w s of None \<Rightarrow> None | Some (w1, s1) \<Rightarrow> Some (HWrite r w1, s1, [])))"
| "runHTTPOnce C X (HCopy r) s =
     (case readStream r 32768 s of
        None \<Rightarrow> None
      | Some (None, s1) \<Rightarrow> Some (HDone, s1, [])
      | Some (Some out, s1) \<Rightarrow> Some (HCopy r, s1, out))"
| "runHTTPOnce C X HDone s = None"
| "runHTTPOnce C X HFail s = None"

text \<open>
  The https mode. A call on the inner TLS connection, the connection operations it makes on its \<open>streamConn\<close>, what they
  answer, and its return: \<open>Inl ()\<close> for an error.
\<close>

datatype tlsCall = TlsHandshake | TlsWrite bytes | TlsRead nat

datatype connOp = ConnRead nat | ConnWrite bytes

datatype connReply = GotData bytes | GotEOF | Wrote nat bool

datatype 'e tlsStep = Ask connOp 'e | Return "unit + bytes" 'e

record 'e innerTLS =
  tlsNew :: "string \<Rightarrow> 'e"
  tlsBegin :: "tlsCall \<Rightarrow> 'e \<Rightarrow> 'e tlsStep"
  tlsResume :: "connReply \<Rightarrow> 'e \<Rightarrow> 'e tlsStep"

text \<open>\<open>streamConn\<close>: one step of the operation the library asked for, with the reply when it is complete.\<close>

datatype connState = CRd nat | CWr wstate

definition connBegin :: "connOp \<Rightarrow> connState" where
  "connBegin p = (case p of ConnRead n \<Rightarrow> CRd n | ConnWrite b \<Rightarrow> CWr (WLoop b 0))"

definition streamConnStep ::
  "crypto \<Rightarrow> nat \<times> (nat \<Rightarrow> byte) \<Rightarrow> nat \<Rightarrow> connState \<Rightarrow> tcsession \<Rightarrow> ((connState + connReply) \<times> tcsession) option" where
  "streamConnStep C R r c s =
     (case c of
        CRd n \<Rightarrow>
          (case readStream r n s of
             None \<Rightarrow> None
           | Some (None, s1) \<Rightarrow> Some (Inr GotEOF, s1)
           | Some (Some out, s1) \<Rightarrow> Some (Inr (GotData out), s1))
      | CWr (WDone n) \<Rightarrow> Some (Inr (Wrote n True), s)
      | CWr (WErr n) \<Rightarrow> Some (Inr (Wrote n False), s)
      | CWr w \<Rightarrow> (case streamWriterWrite C R r w s of None \<Rightarrow> None | Some (w1, s1) \<Rightarrow> Some (Inl (CWr w1), s1)))"

text \<open>\<open>streamConn.Close\<close>, which the library calls when it gives the connection up.\<close>

definition streamConnClose :: "crypto \<Rightarrow> nat \<times> (nat \<Rightarrow> byte) \<Rightarrow> nat \<Rightarrow> tcsession \<Rightarrow> tcsession" where
  "streamConnClose C R r s = snd (tc_writeStreamFrame C R (cst_id (tobjs s ! r)) typeClose [] s)"

datatype 'e sstateTLS =
    TStart string
  | TWait string u32 nat
  | TRun string nat tlsCall "'e tlsStep"
  | TConn string nat tlsCall connState 'e
  | TDone
  | TFail

text \<open>One step of \<open>runHTTPOnce\<close> with \<open>useTLS\<close>: handshake, then the request, then \<open>io.Copy\<close> until \<open>Read\<close> fails; the last
  component is what it prints.\<close>

fun runHTTPSOnce ::
  "'e innerTLS \<Rightarrow> crypto \<Rightarrow> cstepin \<Rightarrow> 'e sstateTLS \<Rightarrow> tcsession \<Rightarrow> ('e sstateTLS \<times> tcsession \<times> bytes) option" where
  "runHTTPSOnce T C X (TStart target) s =
     (case splitHostPort target of
        None \<Rightarrow> Some (TFail, s, [])
      | Some (host, portStr) \<Rightarrow>
          (case openStart C X host (nat (sscanfPort portStr mod 65536)) s of
             (None, s1) \<Rightarrow> Some (TFail, s1, [])
           | (Some (sno, r), s1) \<Rightarrow> Some (TWait host sno r, s1, [])))"
| "runHTTPSOnce T C X (TWait host sno r) s =
     (case openSelect (csel X) sno r s of
        None \<Rightarrow> None
      | Some (False, s1) \<Rightarrow> Some (TFail, s1, [])
      | Some (True, s1) \<Rightarrow> Some (TRun host r TlsHandshake (tlsBegin T TlsHandshake (tlsNew T host)), s1, []))"
| "runHTTPSOnce T C X (TRun host r call (Ask p e)) s = Some (TConn host r call (connBegin p) e, s, [])"
| "runHTTPSOnce T C X (TRun host r call (Return res e)) s =
     (case (call, res) of
        (TlsHandshake, Inl _) \<Rightarrow> Some (TFail, s, [])
      | (TlsHandshake, Inr _) \<Rightarrow> Some (TRun host r (TlsWrite (httpRequest host)) (tlsBegin T (TlsWrite (httpRequest host)) e), s, [])
      | (TlsWrite b, Inl _) \<Rightarrow> Some (TFail, s, [])
      | (TlsWrite b, Inr _) \<Rightarrow> Some (TRun host r (TlsRead 32768) (tlsBegin T (TlsRead 32768) e), s, [])
      | (TlsRead n, Inl _) \<Rightarrow> Some (TDone, s, [])
      | (TlsRead n, Inr out) \<Rightarrow> Some (TRun host r (TlsRead 32768) (tlsBegin T (TlsRead 32768) e), s, out))"
| "runHTTPSOnce T C X (TConn host r call c e) s =
     (case streamConnStep C (crnd X) r c s of
        None \<Rightarrow> None
      | Some (Inl c1, s1) \<Rightarrow> Some (TConn host r call c1 e, s1, [])
      | Some (Inr reply, s1) \<Rightarrow> Some (TRun host r call (tlsResume T reply e), s1, []))"
| "runHTTPSOnce T C X TDone s = None"
| "runHTTPSOnce T C X TFail s = None"

section \<open>main\<close>

text \<open>\<open>runSocks5\<close>: \<open>net.Listen\<close> fails or the accept loop starts beside the read loop of the session; a failed \<open>Accept\<close>
  is skipped.\<close>

definition runSocks5 :: "bool \<Rightarrow> tcsession \<Rightarrow> cstate option" where
  "runSocks5 listening s = (if listening then Some \<lparr>cs = s, conns = [], cthreads = [CLoop]\<rparr> else None)"

definition socksAccept :: "(reader \<times> writer) option \<Rightarrow> cstate \<Rightarrow> cstate" where
  "socksAccept c S = (case c of None \<Rightarrow> S | Some (rd, wr) \<Rightarrow> acceptLocal rd wr S)"

datatype main_error = ConfigError client_error | SessionError dial_error | ListenError | UnknownMethod string

datatype clientMode = ModeSocks cstate | ModeHTTP tcsession hstate | ModeHTTPS tcsession string

text \<open>\<open>main\<close>: the configuration, the session and the switch on the method.\<close>

definition clientMain ::
  "crypto \<Rightarrow> dialenv \<Rightarrow> bool \<Rightarrow> fs \<Rightarrow> bool \<Rightarrow> clientFlags \<Rightarrow> main_error + clientMode" where
  "clientMain C D rd fs listening F =
     (case clientConfig rd fs F of
        Inl e \<Rightarrow> Inl (ConfigError e)
      | Inr cfg \<Rightarrow>
          (case dialSession C D (dc_host cfg) (dc_port cfg) (dc_psk cfg) (dc_sni cfg) of
             Inl e \<Rightarrow> Inl (SessionError e)
           | Inr s \<Rightarrow>
               if cf_method F = ''socks5'' then
                 (case runSocks5 listening s of None \<Rightarrow> Inl ListenError | Some S \<Rightarrow> Inr (ModeSocks S))
               else if cf_method F = ''http'' then Inr (ModeHTTP s (HStart (cf_target F)))
               else if cf_method F = ''https'' then Inr (ModeHTTPS s (cf_target F))
               else Inl (UnknownMethod (cf_method F))))"

section \<open>Properties\<close>

text \<open>C25. Whatever other goroutines do to the session meanwhile, the frames a call of \<open>streamWriter.Write\<close> adds to the
  session's sealed frames are DATA frames of its stream whose payloads, none of them empty or above the limit, are the
  buffer in order: all of it when it returns without an error, exactly the first \<open>n\<close> bytes when it returns \<open>n\<close> with one,
  and a prefix of it at any moment before. (What is sealed goes to the connection: see C35.)\<close>

theorem stream_writer_in_order:
  assumes "writeCall C r p w s fs"
  shows "\<exists>sent rest. fs = map (tc_streamFrame (cst_id (tobjs s ! r)) typeData) sent \<and> p = concat sent @ rest \<and>
    (\<forall>n. w = WDone n \<longrightarrow> n = length p \<and> rest = []) \<and>
    (\<forall>n. w = WErr n \<longrightarrow> n = length (concat sent) \<and> concat sent = take n p) \<and>
    (\<forall>c\<in>set sent. c \<noteq> [] \<and> length c \<le> tc_maxStreamPayloadV2)"
proof -
  from writeCall_inv [OF assms] obtain sent where s: "fs = map (tc_streamFrame (cst_id (tobjs s ! r)) typeData) sent"
    "writeInv p w sent" "\<forall>c\<in>set sent. c \<noteq> [] \<and> length c \<le> tc_maxStreamPayloadV2" by blast
  have "\<exists>rest. p = concat sent @ rest \<and> (\<forall>n. w = WDone n \<longrightarrow> n = length p \<and> rest = []) \<and>
      (\<forall>n. w = WErr n \<longrightarrow> n = length (concat sent) \<and> concat sent = take n p)"
  proof (cases w)
    case (WErr n)
    have e: "concat sent = take n p" "n = length (concat sent)" using s(2) unfolding WErr writeInv.simps by blast+
    have "p = concat sent @ drop n p" unfolding e(1) by simp
    then show ?thesis using e WErr by blast
  qed (use s(2) in simp_all)
  then show ?thesis using s(1,3) by blast
qed

definition demo_wsession :: tcsession where
  "demo_wsession = (tc_newSession \<lparr>inbuf = [], rend = EOF\<rparr> \<lparr>wout = [], wbreak = None\<rparr> [1] [2])\<lparr>tobjs := [newCStream 1]\<rparr>"

theorem stream_writer_in_order_witness:
  "\<exists>s. writeCall demo_crypto 0 [10, 20] (WDone 2) s [tc_streamFrame 1 typeData [10, 20]] \<and>
     (\<exists>sent. [tc_streamFrame 1 typeData [10, 20]] = map (tc_streamFrame (cst_id (tobjs s ! 0)) typeData) sent \<and> concat sent = [10, 20])"
proof -
  let ?R = "(0, \<lambda>_. 0) :: nat \<times> (nat \<Rightarrow> byte)" and ?s = demo_wsession
  have l: "length [10, 20 :: byte] \<le> tc_maxStreamPayloadV2" by code_simp
  have a: "acquireWindow 0 2 ?s = Some (True, ?s\<lparr>tobjs := [(newCStream 1)\<lparr>acquired := 2\<rparr>]\<rparr>)"
    by (simp add: acquireWindow_def demo_wsession_def newCStream_def onStream_def)
  let ?s1 = "?s\<lparr>tobjs := [(newCStream 1)\<lparr>acquired := 2\<rparr>]\<rparr>"
  have w1: "streamWriterWrite demo_crypto ?R 0 (WLoop [10, 20] 0) ?s = Some (WSend [10, 20] [] 0, ?s1)"
    using l a by (simp add: min_def numeral_2_eq_2)
  obtain s2 where b: "tc_writeStreamFrame demo_crypto ?R 1 typeData [10, 20] ?s1 = (True, s2)"
    "map snd (tsealed s2) = [tc_streamFrame 1 typeData [10, 20]]" "tobjs s2 = tobjs ?s1" "tsealed ?s1 = []"
    using writeAEADFrame_unbroken [of "streamFrame 1 typeData [10, 20]" "tout demo_wsession" demo_crypto 0 "\<lambda>_. 0" "[1]" 1]
    by (simp add: tc_writeStreamFrame_def tc_streamFrame_eq streamFrame_length v2FrameHeader_def frame_consts tc_consts Let_def
        demo_wsession_def tc_newSession_def)
  have w2: "streamWriterWrite demo_crypto ?R 0 (WSend [10, 20] [] 0) ?s1 = Some (WLoop [] 2, s2)"
    using b(1) by (simp add: newCStream_def)
  have "writeCall demo_crypto 0 [10, 20] (WSend [10, 20] [] 0) ?s1 []"
    using writeCall.step [OF writeCall.call w1] by simp
  from writeCall.step [OF this w2] have "writeCall demo_crypto 0 [10, 20] (WLoop [] 2) s2 [tc_streamFrame 1 typeData [10, 20]]"
    using b(2,4) by simp
  from writeCall.step [OF this, of ?R "WDone 2" s2]
  have d: "writeCall demo_crypto 0 [10, 20] (WDone 2) s2 [tc_streamFrame 1 typeData [10, 20]]" by simp
  from stream_writer_in_order [OF d] obtain sent rest where
    f: "[tc_streamFrame 1 typeData [10, 20]] = map (tc_streamFrame (cst_id (tobjs s2 ! 0)) typeData) sent"
    and c: "[10, 20] = concat sent @ rest" and e: "\<forall>n. WDone 2 = WDone n \<longrightarrow> n = length [10, 20 :: byte] \<and> rest = []"
    by (elim exE conjE) (rule that)
  have "rest = []" using e by simp
  then have "concat sent = [10, 20]" using c by (simp only: append_Nil2)
  with f d show ?thesis by (intro exI [of _ s2] conjI exI [of _ sent])
qed

lemma shared_host: "parseShareString s = Inr sd \<Longrightarrow> isIPLiteral (sd_host sd)"
  by (auto simp: parseShareString_def Let_def split: if_splits option.splits sum.splits prod.splits)

text \<open>What a running server prints is enough for a client: given its share string, the client dials the host and
  the port the server announced, with the server's PSK and its SNI.\<close>

lemma client_configured_by_server:
  assumes "serverMain v E F fs = (Running r, tr, ms)" and "length (rn_psk r) = 32"
    and "fl_publicIP F = ip4String ip" and "length ip = 4" and "fl_tcp F = '':'' @ itoaNat n" and "0 < n" and "n \<le> 65535"
  obtains share where "rn_share r = Some (fl_tcp F, share)" and "isIPLiteral (rn_host r)"
    and "clientConfig rd cfs (CF\<lparr>cf_share := share\<rparr>) =
      Inr \<lparr>dc_host = rn_host r, dc_port = int n, dc_psk = rn_psk r, dc_sni = rn_sni r\<rparr>"
proof -
  obtain share where s: "rn_share r = Some (fl_tcp F, share)"
    "parseShareString share = Inr \<lparr>sd_host = rn_host r, sd_port = int n, pskHex = hexEncode (rn_psk r), sd_sni = rn_sni r\<rparr>"
    using printed_share_usable [OF assms] by blast
  have "parseShareString [] = Inl NotMxtr"
    using trimSpace_plain [of "[]"] by (simp add: parseShareString_def hasPrefix_def)
  then have "share \<noteq> []" using s(2) by auto
  have "isIPLiteral (rn_host r)" using shared_host [OF s(2)] by simp
  moreover have "clientConfig rd cfs (CF\<lparr>cf_share := share\<rparr>) =
      Inr \<lparr>dc_host = rn_host r, dc_port = int n, dc_psk = rn_psk r, dc_sni = rn_sni r\<rparr>"
    using s(2) \<open>share \<noteq> []\<close> by (simp add: clientConfig_def)
  ultimately show thesis using that s(1) by blast
qed

end
