(* ===== verification/Listener.thy ===== *)
theory Listener
  imports Prelude "HOL-Library.Multiset"
begin

text \<open>
  The accept loop: \<open>runTCP\<close>, \<open>underlyingTCP\<close> and \<open>dispatchTLSConn\<close> of \<open>cmd/mxtr-server/main.go\<close> (lines 986 to
  1098). Before the loop, \<open>startTCP\<close> binds the address and builds the TLS configuration; what the operating system and
  the certificate loader answered are its arguments. The loop and the goroutines it starts interleave; a step is one turn of the loop, the TLS part of
  one goroutine, or the return of its handler. Connections are numbered in the order they are accepted. What
  crypto/tls answers is a record \<open>tlsOutcome\<close>; the handler itself is the subject of the session theories.
\<close>

section \<open>State\<close>

definition maxConcurrentConns :: nat where "maxConcurrentConns = 8192"

text \<open>The dynamic type of an accepted connection, for a TLS connection also whether TCP is below it.\<close>

datatype netConn = TLSConn bool | TCPConn | OtherConn

datatype phase = Dispatching netConn | InHandler

text \<open>The channel \<open>gate\<close> as its number of tokens; the goroutines; the connections with TCP options set; those
  closed without reaching the handler; those whose handler has returned.\<close>

record listener =
  gate :: nat
  active :: "(nat \<times> phase) list"
  tuned :: "nat list"
  dropped :: "nat list"
  served :: "nat list"
  nextConn :: nat

definition initListener :: listener where
  "initListener = \<lparr>gate = 0, active = [], tuned = [], dropped = [], served = [], nextConn = 0\<rparr>"

section \<open>Start\<close>

definition VersionTLS13 :: nat where "VersionTLS13 = 772"

record tlsConfig =
  certificates :: "bytes list list"
  minVersion :: nat
  maxVersion :: nat
  nextProtos :: "string list"
  sessionTicketsDisabled :: bool

datatype listen_fatal = ListenFailed string | LoadedCertNil

text \<open>\<open>runTCP\<close> up to its loop: whether \<open>net.Listen\<close> succeeded, \<open>loadedCert\<close> as the chain it holds, and the protocols of
  the PSK-derived configuration. The result is the configuration of the TLS listener and the state the loop starts in.\<close>

definition startTCP ::
  "bool \<Rightarrow> string \<Rightarrow> bytes list option \<Rightarrow> string list \<Rightarrow> listen_fatal + (tlsConfig \<times> listener)" where
  "startTCP listening addr loadedCert alpn =
     (if \<not> listening then Inl (ListenFailed addr)
      else case loadedCert of
        None \<Rightarrow> Inl LoadedCertNil
      | Some cert \<Rightarrow>
          Inr (\<lparr>certificates = [cert], minVersion = VersionTLS13, maxVersion = VersionTLS13, nextProtos = alpn,
                sessionTicketsDisabled = True\<rparr>, initListener))"

section \<open>Operations\<close>

fun underlyingTCP :: "netConn \<Rightarrow> bool" where
  "underlyingTCP (TLSConn tcp) = tcp"
| "underlyingTCP TCPConn = True"
| "underlyingTCP OtherConn = False"

text \<open>One turn of the loop after a successful \<open>Accept\<close>.\<close>

definition acceptTurn :: "netConn \<Rightarrow> listener \<Rightarrow> listener" where
  "acceptTurn k L =
     (let c = nextConn L;
          L1 = L\<lparr>nextConn := c + 1, tuned := (if underlyingTCP k then tuned L @ [c] else tuned L)\<rparr>
      in if gate L1 < maxConcurrentConns
         then L1\<lparr>gate := gate L1 + 1, active := active L1 @ [(c, Dispatching k)]\<rparr>
         else L1\<lparr>dropped := dropped L1 @ [c]\<rparr>)"

record tlsOutcome =
  setDeadline :: bool
  tlsHandshake :: bool
  clearDeadline :: bool

text \<open>Whether \<open>dispatchTLSConn\<close> calls the handler; otherwise it closes the connection.\<close>

definition dispatchTLSConn :: "netConn \<Rightarrow> tlsOutcome \<Rightarrow> bool" where
  "dispatchTLSConn k t =
     (case k of
        TLSConn tcp \<Rightarrow>
          if \<not> setDeadline t then False
          else if \<not> tlsHandshake t then False
          else if \<not> clearDeadline t then False else True
      | _ \<Rightarrow> True)"

text \<open>The goroutine of connection \<open>c\<close>: the deferred receive gives its token back when it ends.\<close>

inductive runTCP :: "listener \<Rightarrow> listener \<Rightarrow> bool" where
  accept_error: "runTCP L L"
| accept: "runTCP L (acceptTurn k L)"
| dispatch_handler: "active L = xs @ (c, Dispatching k) # ys \<Longrightarrow> dispatchTLSConn k t \<Longrightarrow>
    runTCP L (L\<lparr>active := xs @ (c, InHandler) # ys\<rparr>)"
| dispatch_close: "active L = xs @ (c, Dispatching k) # ys \<Longrightarrow> \<not> dispatchTLSConn k t \<Longrightarrow>
    runTCP L (L\<lparr>active := xs @ ys, dropped := dropped L @ [c], gate := gate L - 1\<rparr>)"
| handler_returns: "active L = xs @ (c, InHandler) # ys \<Longrightarrow>
    runTCP L (L\<lparr>active := xs @ ys, served := served L @ [c], gate := gate L - 1\<rparr>)"

inductive_cases runTCP_cases: "runTCP L L'"

inductive lreach :: "listener \<Rightarrow> bool" where
  lreach_init: "startTCP listening addr loadedCert alpn = Inr (cfg, L) \<Longrightarrow> lreach L"
| lreach_step: "lreach L \<Longrightarrow> runTCP L L' \<Longrightarrow> lreach L'"

section \<open>The gate\<close>

text \<open>The tokens in the channel are the running goroutines, and every accepted connection has exactly one place.\<close>

definition listenerOK :: "listener \<Rightarrow> bool" where
  "listenerOK L \<longleftrightarrow>
     gate L = length (active L) \<and> gate L \<le> maxConcurrentConns \<and>
     mset (map fst (active L)) + mset (dropped L) + mset (served L) = mset [0..<nextConn L]"

lemma acceptTurn_ok: "listenerOK L \<Longrightarrow> listenerOK (acceptTurn k L)"
  by (auto simp: listenerOK_def acceptTurn_def Let_def atLeast0_lessThan_Suc)

lemma runTCP_ok:
  assumes "runTCP L L'" and "listenerOK L"
  shows "listenerOK L'"
  using assms by (cases rule: runTCP.cases) (auto simp: acceptTurn_ok, auto simp: listenerOK_def)

lemma lreach_ok: "lreach L \<Longrightarrow> listenerOK L"
proof (induction rule: lreach.induct)
  case (lreach_init listening addr loadedCert alpn cfg L)
  then show ?case by (auto simp: startTCP_def listenerOK_def initListener_def split: if_splits option.splits)
next
  case (lreach_step L L')
  then show ?case by (blast intro: runTCP_ok)
qed

section \<open>Properties\<close>

text \<open>C24. However accepts, TLS handshakes and sessions interleave, at most 8192 connections of a listener are in
  flight; every accepted connection is in flight, was closed, or was served to the end of its handler, exactly
  one of these and once; and a newcomer is turned away exactly when all 8192 slots are taken.\<close>

theorem listener_bounded:
  assumes "lreach L"
  shows "length (active L) \<le> 8192 \<and> distinct (map fst (active L) @ dropped L @ served L) \<and>
    set (map fst (active L)) \<union> set (dropped L) \<union> set (served L) = {0..<nextConn L} \<and>
    (nextConn L \<in> set (dropped (acceptTurn k L)) \<longleftrightarrow> length (active L) = 8192)"
proof -
  have ok: "gate L = length (active L)" "gate L \<le> 8192"
    and m: "mset (map fst (active L) @ dropped L @ served L) = mset [0..<nextConn L]"
    using lreach_ok [OF assms] by (auto simp: listenerOK_def maxConcurrentConns_def add.assoc)
  have s: "set (map fst (active L) @ dropped L @ served L) = {0..<nextConn L}"
    using mset_eq_setD [OF m] by simp
  then have "nextConn L \<notin> set (dropped L)" by auto
  then have "nextConn L \<in> set (dropped (acceptTurn k L)) \<longleftrightarrow> length (active L) = 8192"
    using ok by (auto simp: acceptTurn_def Let_def maxConcurrentConns_def)
  moreover have "distinct (map fst (active L) @ dropped L @ served L)"
    using mset_eq_imp_distinct_iff [OF m] by simp
  ultimately show ?thesis using ok s by auto
qed

definition demo_listener :: listener where
  "demo_listener = acceptTurn TCPConn (acceptTurn (TLSConn True) initListener)"

theorem listener_bounded_witness:
  "lreach demo_listener \<and> map fst (active demo_listener) = [0, 1] \<and> distinct (map fst (active demo_listener))"
proof -
  have "startTCP True '':443'' (Some [[1]]) [''http/1.1''] =
      Inr (\<lparr>certificates = [[[1]]], minVersion = 772, maxVersion = 772, nextProtos = [''http/1.1''],
            sessionTicketsDisabled = True\<rparr>, initListener)"
    by (simp add: startTCP_def VersionTLS13_def)
  from lreach_step [OF lreach_step [OF lreach_init [OF this] runTCP.accept] runTCP.accept]
  have r: "lreach demo_listener" unfolding demo_listener_def .
  moreover have "map fst (active demo_listener) = [0, 1]"
    by (simp add: demo_listener_def acceptTurn_def initListener_def maxConcurrentConns_def)
  ultimately show ?thesis using listener_bounded [OF r] by simp
qed

end
