(* ===== verification/Tunnel.thy ===== *)
theory Tunnel
  imports Lifecycle Client_Upload
begin

text \<open>
  One client and the server's session for it, joined by an untrusted network. The two ends are the
  state machines of the session and client theories, started with the keys of one handshake.
  Between them the network may deliver any bytes in either direction: it drops, repeats, reorders
  and invents them. The one thing it cannot do is forge: a ciphertext that opens under a session key
  is one that the other end has sealed under that key and nonce. That is the authenticity of the AEAD,
  stated for each read by \<open>unforged\<close>; every other behaviour of the network is allowed.

  The record \<open>tunnel\<close> has four fields no step depends on: \<open>upread\<close> and \<open>downread\<close> count the frames
  either end has read, \<open>bridged\<close> lists which local connection was given which stream and what its
  application had received by then (the SOCKS5 replies), and \<open>fetched\<close> collects what the upstream connections of the server have delivered.
\<close>

section \<open>Frames by stream and type\<close>

definition isFrame :: "u32 \<Rightarrow> byte \<Rightarrow> bytes \<Rightarrow> bool" where
  "isFrame i t pt = (case splitFrame pt of Some (j, u, p) \<Rightarrow> j = i \<and> u = t | None \<Rightarrow> False)"

definition countFrames :: "u32 \<Rightarrow> byte \<Rightarrow> bytes list \<Rightarrow> nat" where
  "countFrames i t fs = length (filter (isFrame i t) fs)"

definition dataFrames :: "u32 \<Rightarrow> bytes list \<Rightarrow> bytes" where
  "dataFrames i fs = concat (map (dataIn i) fs)"

lemma countFrames_simps [simp]:
  "countFrames i t [] = 0" "countFrames i t (fs @ gs) = countFrames i t fs + countFrames i t gs"
  "countFrames i t (pt # fs) = (if isFrame i t pt then 1 else 0) + countFrames i t fs"
  by (simp_all add: countFrames_def)

lemma dataFrames_simps [simp]:
  "dataFrames i [] = []" "dataFrames i (fs @ gs) = dataFrames i fs @ dataFrames i gs"
  "dataFrames i (pt # fs) = dataIn i pt @ dataFrames i fs"
  by (simp_all add: dataFrames_def)

lemma isFrame_stream:
  "length p \<le> maxPlaintextSize - v2FrameHeader \<Longrightarrow> isFrame i t (streamFrame j u p) \<longleftrightarrow> j = i \<and> u = t"
  by (simp add: isFrame_def splitFrame_streamFrame)

lemma isFrame_split: "splitFrame pt = Some (j, u, p) \<Longrightarrow> isFrame i t pt \<longleftrightarrow> j = i \<and> u = t"
  by (simp add: isFrame_def)

lemma dataIn_split: "splitFrame pt = Some (j, u, p) \<Longrightarrow> dataIn i pt = (if j = i \<and> u = v2TypeData then p else [])"
  by (simp add: dataIn_def)

lemma dataFrames_map: "dataFrames i (map snd fs) = dataOf i fs"
  by (simp add: dataFrames_def dataOf_def comp_def)

lemma dataFrames_none: "countFrames i v2TypeData fs = 0 \<Longrightarrow> dataFrames i fs = []"
proof (induction fs)
  case (Cons pt fs)
  then show ?case
    by (auto simp: isFrame_def dataIn_def split: option.splits if_splits)
qed simp

lemma countFrames_take: "countFrames i t (take n fs) \<le> countFrames i t fs"
proof -
  have "countFrames i t fs = countFrames i t (take n fs) + countFrames i t (drop n fs)"
    by (metis append_take_drop_id countFrames_simps(2))
  then show ?thesis by simp
qed

lemma countFrames_take_pos: "0 < countFrames i t (take n fs) \<Longrightarrow> 0 < countFrames i t fs"
  using countFrames_take [of i t n fs] by linarith

lemma dataFrames_take: "prefix (dataFrames i (take n fs)) (dataFrames i fs)"
proof -
  have "dataFrames i fs = dataFrames i (take n fs) @ dataFrames i (drop n fs)"
    by (metis append_take_drop_id dataFrames_simps(2))
  then show ?thesis by simp
qed

declare isFrame_stream [simp] dataIn_frame [simp]

text \<open>The credit a WINDOW_UPDATE carries, and the window an OPEN_OK carries, for stream \<open>i\<close>.\<close>

definition amountIn :: "u32 \<Rightarrow> byte \<Rightarrow> bytes \<Rightarrow> nat" where
  "amountIn i t pt =
     (case splitFrame pt of
        Some (j, u, p) \<Rightarrow> if j = i \<and> u = t \<and> 4 \<le> length p then getBE (take 4 p) else 0
      | None \<Rightarrow> 0)"

definition amounts :: "u32 \<Rightarrow> byte \<Rightarrow> bytes list \<Rightarrow> nat" where
  "amounts i t fs = sum_list (map (amountIn i t) fs)"

lemma amounts_simps [simp]:
  "amounts i t [] = 0" "amounts i t (fs @ gs) = amounts i t fs + amounts i t gs"
  "amounts i t (pt # fs) = amountIn i t pt + amounts i t fs"
  by (simp_all add: amounts_def)

lemma amountIn_stream [simp]:
  "length p \<le> maxPlaintextSize - v2FrameHeader \<Longrightarrow>
   amountIn i t (streamFrame j u p) = (if j = i \<and> u = t \<and> 4 \<le> length p then getBE (take 4 p) else 0)"
  by (simp add: amountIn_def splitFrame_streamFrame)

lemma amounts_take: "amounts i t (take n fs) \<le> amounts i t fs"
  by (metis amounts_simps(2) append_take_drop_id le_add1)

text \<open>The payload of OPEN_OK is the initial window.\<close>

definition grantsWindow :: "bytes \<Rightarrow> bool" where
  "grantsWindow pt =
     (case splitFrame pt of
        Some (i, t, p) \<Rightarrow> t = v2TypeOpenOK \<longrightarrow> p = putBE 4 (nat v2InitialWindow)
      | None \<Rightarrow> True)"

lemma grantsWindow_stream [simp]:
  "length p \<le> maxPlaintextSize - v2FrameHeader \<Longrightarrow>
   grantsWindow (streamFrame i t p) \<longleftrightarrow> (t = v2TypeOpenOK \<longrightarrow> p = putBE 4 (nat v2InitialWindow))"
  by (simp add: grantsWindow_def splitFrame_streamFrame)

section \<open>The network\<close>

text \<open>Key, nonce and plaintext of every box sealed by either end: none where the randomness failed.\<close>

definition boxes :: "bytes \<Rightarrow> ((nat \<times> (nat \<Rightarrow> byte) option) \<times> bytes) list \<Rightarrow> (bytes \<times> bytes \<times> bytes) list" where
  "boxes key fs =
     concat (map (\<lambda>(k, (r, pad), pt).
       case pad of
         None \<Rightarrow> []
       | Some rnd \<Rightarrow> [(key, frameNonce (1 + word_of_nat k), innerFrame (pickPadRung r (length pt + 2)) rnd pt)])
       (zip [0..<length fs] fs))"

definition boxesC :: "tcsession \<Rightarrow> (bytes \<times> bytes \<times> bytes) list" where
  "boxesC s = boxes (tkeyC2S s) (map (\<lambda>((r, rnd), pt). ((r, Some rnd), pt)) (tsealed s))"

definition boxesS :: "v2Session \<Rightarrow> (bytes \<times> bytes \<times> bytes) list" where
  "boxesS s = boxes (keyS2C s) (sealed s)"

text \<open>What the next read finds on the connection does not open, unless it is one of the boxes.\<close>

definition unforged :: "crypto \<Rightarrow> bytes \<Rightarrow> u64 \<Rightarrow> (bytes \<times> bytes \<times> bytes) list \<Rightarrow> reader \<Rightarrow> bool" where
  "unforged C key seq bs rd \<longleftrightarrow>
     (\<forall>ct rest m. inbuf rd = putBE 2 (length ct) @ ct @ rest \<longrightarrow> length ct \<le> maxCiphertextLen \<longrightarrow>
        aead_open C key (frameNonce seq) ct = Some m \<longrightarrow> (key, frameNonce seq, m) \<in> set bs)"

lemma boxes_mem:
  assumes "(key', frameNonce (1 + word_of_nat m), x) \<in> set (boxes key fs)" and "m < 2 ^ 64" and "length fs < 2 ^ 64"
  shows "m < length fs \<and> (\<exists>r rnd. x = innerFrame (pickPadRung r (length (snd (fs ! m)) + 2)) rnd (snd (fs ! m)))"
proof -
  from assms(1) obtain k r rnd pt where k: "k < length fs" "fs ! k = ((r, Some rnd), pt)"
    and n: "frameNonce (1 + word_of_nat m) = frameNonce (1 + word_of_nat k)"
    and x: "x = innerFrame (pickPadRung r (length pt + 2)) rnd pt"
    by (auto simp: boxes_def set_zip split: option.splits dest!: sym [of "((_, _), _)"])
  have "m = k"
    using seq_inj [of m "2 ^ 64" k] frameNonce_inj [OF n] k assms(2,3) by simp
  then show ?thesis using k x by auto
qed

lemma readFrame_boxed:
  assumes un: "unforged C key (1 + word_of_nat m) (boxes key' fs) rd" and m: "m \<le> length fs" "length fs < 2 ^ 64"
    and rf: "readFrame C rd key (1 + word_of_nat m) = (Inr pt, rd')"
    and len: "\<forall>f\<in>set fs. length (snd f) \<le> maxPlaintextSize"
  shows "m < length fs \<and> pt = snd (fs ! m)"
proof -
  let ?seq = "1 + word_of_nat m :: u64"
  obtain e1 lb r1 where rd1: "readFull 2 rd = (e1, lb, r1)" by (metis prod_cases3)
  with rf have e1: "e1 = None" by (cases e1) (auto simp: readFrame_def)
  obtain e2 ct r2 where rd2: "readFull (getBE lb) r1 = (e2, ct, r2)" by (metis prod_cases3)
  from rf rd1 e1 rd2 have e2: "e2 = None"
    by (cases e2) (auto simp: readFrame_def Let_def split: if_splits)
  from rf rd1 e1 rd2 e2 obtain inner where
    op: "aead_open C key (frameNonce ?seq) ct = Some inner"
    and pt: "pt = take (getBE (take 2 inner)) (drop 2 inner)" and mx: "getBE lb \<le> maxCiphertextLen"
    by (auto simp: readFrame_def Let_def split: if_splits option.splits)
  from rd1 e1 rd2 e2 have "length lb = 2" "length ct = getBE lb" and i: "inbuf rd = lb @ ct @ inbuf r2"
    by (auto simp: readFull_None_iff)
  then have "inbuf rd = putBE 2 (length ct) @ ct @ inbuf r2" "length ct \<le> maxCiphertextLen"
    using mx by (simp_all add: putBE_getBE_eq)
  with un op have "(key, frameNonce ?seq, inner) \<in> set (boxes key' fs)" unfolding unforged_def by blast
  from boxes_mem [OF this] m obtain r rnd where ml: "m < length fs"
    and inner: "inner = innerFrame (pickPadRung r (length (snd (fs ! m)) + 2)) rnd (snd (fs ! m))" by auto
  have "length (snd (fs ! m)) < 256 ^ 2" using bspec [OF len nth_mem [OF ml]] by (simp add: frame_consts)
  then have "getBE (take 2 inner) = length (snd (fs ! m))" by (simp add: inner innerFrame_def getBE_putBE)
  then show ?thesis using ml pt by (simp add: inner innerFrame_def)
qed

text \<open>A network that delivers the other end's frames in order does not forge.\<close>

lemma unforged_honest:
  assumes "aead_ok C" and k: "k < length fs" and f: "fs ! k = ((r, Some rnd), pt)" and l: "length pt \<le> maxPlaintextSize"
    and i: "inbuf rd = frameBytes C r rnd key (1 + word_of_nat k) pt @ rest"
  shows "unforged C key (1 + word_of_nat k) (boxes key fs) rd"
  unfolding unforged_def
proof (intro allI impI)
  fix ct rest' m
  let ?in = "innerFrame (pickPadRung r (length pt + 2)) rnd pt" and ?n = "frameNonce (1 + word_of_nat k)"
  let ?ct = "aead_seal C key ?n ?in"
  assume "inbuf rd = putBE 2 (length ct) @ ct @ rest'" and lc: "length ct \<le> maxCiphertextLen"
    and op: "aead_open C key ?n ct = Some m"
  then have e: "putBE 2 (length ct) @ ct @ rest' = putBE 2 (length ?ct) @ ?ct @ rest"
    using i by (simp add: frameBytes_def Let_def)
  then have p: "putBE 2 (length ct) = putBE 2 (length ?ct)" and c: "ct @ rest' = ?ct @ rest"
    by (simp_all add: append_eq_append_conv)
  have "length ?ct < 256 ^ 2"
    using frameBytes_shape [OF assms(1) l, of key ?n r rnd] rung_max [of r "length pt + 2"] by simp
  moreover have "length ct < 256 ^ 2" using lc by (simp add: frame_consts)
  ultimately have "length ct = length ?ct" using p putBE_inj by blast
  then have "ct = ?ct" using c by simp
  then have "m = ?in" using op assms(1) by (simp add: aead_open_seal)
  then show "(key, ?n, m) \<in> set (boxes key fs)"
    using k f by (force simp: boxes_def set_zip)
qed

section \<open>The joint state machine\<close>

record tunnel =
  client :: cstate
  server :: sstate
  upread :: nat
  downread :: nat
  bridged :: "(nat \<times> nat \<times> bytes) list"
  fetched :: "sref \<Rightarrow> bytes"

abbreviation "srv J \<equiv> ses (server J)"
abbreviation "cli J \<equiv> cs (client J)"

text \<open>The plaintexts either end has sealed, and the part of them the other end has read.\<close>

definition sentC :: "tunnel \<Rightarrow> bytes list" where "sentC J = map snd (tsealed (cli J))"
definition sentS :: "tunnel \<Rightarrow> bytes list" where "sentS J = map snd (sealed (srv J))"
definition gotS :: "tunnel \<Rightarrow> bytes list" where "gotS J = take (upread J) (sentC J)"
definition gotC :: "tunnel \<Rightarrow> bytes list" where "gotC J = take (downread J) (sentS J)"

text \<open>What a step of the upstream reader adds to the history of its connection.\<close>

fun fetch :: "stepin \<Rightarrow> thread \<Rightarrow> (sref \<Rightarrow> bytes) \<Rightarrow> sref \<Rightarrow> bytes" where
  "fetch X (UpRead i r) f = f(r := f r @ take (maxPlaintextSize - v2FrameHeader) (rdata X))"
| "fetch X _ f = f"

text \<open>A bridge that starts: its local connection, its stream and what the application has received so far.\<close>

fun bridgesOf :: "cstate \<Rightarrow> cthread list \<Rightarrow> (nat \<times> nat \<times> bytes) list" where
  "bridgesOf S [] = []"
| "bridgesOf S (Bridge k r # ts) = (k, r, wout (lout (conns S ! k))) # bridgesOf S ts"
| "bridgesOf S (t # ts) = bridgesOf S ts"

text \<open>
  The steps: a goroutine of the session or of the client runs, bytes arrive at either end, other
  sessions of the server use the global byte counter and the buffer pools, the reaper closes the connection,
  a local application connects.
\<close>

inductive tstep :: "senv \<Rightarrow> tunnel \<Rightarrow> tunnel \<Rightarrow> bool" for E :: senv where
  srv_run: "schedule E X n (server J) = Some T \<Longrightarrow>
    (threads (srv J) ! n = RlRead \<longrightarrow>
       unforged (crypt E) (keyC2S (srv J)) (seqRead (srv J)) (boxesC (cli J)) (cin (srv J))) \<Longrightarrow>
    tstep E J (J\<lparr>server := T, upread := upread J + (if seqRead (ses T) = seqRead (srv J) then 0 else 1),
                 fetched := fetch X (threads (srv J) ! n) (fetched J)\<rparr>)"
| srv_bytes: "tstep E J (J\<lparr>server := (server J)\<lparr>ses := (srv J)\<lparr>cin := rd\<rparr>\<rparr>\<rparr>)"
| srv_others: "pools_ok ps \<Longrightarrow> tstep E J (J\<lparr>server := (server J)\<lparr>gbuf := g, bpools := ps\<rparr>\<rparr>)"
| srv_reap: "tstep E J (J\<lparr>server := (server J)\<lparr>ses := closeConn (srv J)\<rparr>\<rparr>)"
| cli_run: "n < length (cthreads (client J)) \<Longrightarrow>
    cthreadStep (crypt E) X (cthreads (client J) ! n) (client J) = Some (t, ts, S) \<Longrightarrow>
    (cthreads (client J) ! n = CLoop \<longrightarrow>
       unforged (crypt E) (tkeyS2C (cli J)) (tseqRead (cli J)) (boxesS (srv J)) (tin (cli J))) \<Longrightarrow>
    tstep E J (J\<lparr>client := S\<lparr>cthreads := (cthreads (client J))[n := t] @ ts\<rparr>,
                 downread := downread J + (if tseqRead (cs S) = tseqRead (cli J) then 0 else 1),
                 bridged := bridged J @ bridgesOf S ts\<rparr>)"
| cli_bytes: "tstep E J (J\<lparr>client := (client J)\<lparr>cs := (cli J)\<lparr>tin := rd\<rparr>\<rparr>\<rparr>)"
| cli_local: "tstep E J (J\<lparr>client := acceptLocal rd wr (client J)\<rparr>)"

text \<open>
  The two sessions after one handshake: \<open>dialSession\<close> and \<open>acceptConn\<close> derive the same keys. A session
  is followed as long as its stream identifiers and sequence numbers do not wrap around.
\<close>

definition tunnelStart :: "cstate \<Rightarrow> sstate \<Rightarrow> tunnel" where
  "tunnelStart A T = \<lparr>client = A, server = T, upread = 0, downread = 0, bridged = [], fetched = (\<lambda>_. [])\<rparr>"

definition inRange :: "tunnel \<Rightarrow> bool" where
  "inRange J \<longleftrightarrow>
     length (tobjs (cli J)) < 2 ^ 31 \<and> length (tsealed (cli J)) < 2 ^ 64 \<and> length (sealed (srv J)) < 2 ^ 64"

inductive treach :: "senv \<Rightarrow> tunnel \<Rightarrow> bool" for E :: senv where
  init: "pools_ok ps \<Longrightarrow>
    treach E (tunnelStart \<lparr>cs = tc_newSession rd wr kc ks, conns = [], cthreads = [CLoop]\<rparr>
                          \<lparr>ses = newSession i rd' wr' kc ks now, gbuf = g, bpools = ps\<rparr>)"
| step: "treach E J \<Longrightarrow> tstep E J J' \<Longrightarrow> inRange J' \<Longrightarrow> treach E J'"

inductive_cases tstepE: "tstep E J J'"

section \<open>Invariants of either end\<close>

text \<open>A property of the session that does not read the connection holds in every tunnel.\<close>

locale fed_session_inv = session_inv +
  assumes inv_feed: "I s \<Longrightarrow> I (s\<lparr>cin := rd\<rparr>)"
begin

lemma tunnel: "treach E J \<Longrightarrow> I (srv J) \<and> pools_ok (bpools (server J))"
proof (induction rule: treach.induct)
  case (init ps rd wr kc ks i rd' wr' now g)
  then show ?case by (simp add: tunnelStart_def inv_new)
next
  case (step J J')
  from step.hyps(2) show ?case
  proof cases
    case (srv_run X n T)
    then show ?thesis using inv_step [OF _ _ srv_run(2)] schedule_pools [OF _ srv_run(2)] step.IH by simp
  qed (use step.IH inv_feed inv_reap in auto)
qed

end

locale fed_client_inv = client_inv +
  assumes inv_feed: "I S \<Longrightarrow> I (S\<lparr>cs := (cs S)\<lparr>tin := rd\<rparr>\<rparr>)"
begin

lemma tunnel: "treach E J \<Longrightarrow> crypt E = C \<Longrightarrow> I (client J)"
proof (induction rule: treach.induct)
  case (init ps rd wr kc ks i rd' wr' now g)
  then show ?case by (simp add: tunnelStart_def inv_new)
next
  case (step J J')
  from step.hyps(2) show ?case
  proof cases
    case (cli_run n X t ts S)
    then show ?thesis using inv_run step.IH step.prems by auto
  qed (use step.IH step.prems inv_feed inv_local in auto)
qed

end

definition sideS :: "senv \<Rightarrow> v2Session \<Rightarrow> bool" where
  "sideS E s \<longleftrightarrow> sessOK s \<and> flowOK s \<and> limitsOK s \<and> lifeOK E s \<and> wireOK (crypt E) s"

definition sideC :: "crypto \<Rightarrow> cstate \<Rightarrow> bool" where
  "sideC C S \<longleftrightarrow> upInv S \<and> flowC (cs S) \<and> wireC C (cs S)"

lemma threadOK_feed: "threadOK (s\<lparr>cin := rd\<rparr>) t = threadOK s t"
  by (cases t) (simp_all add: threadOK_def)

lemma upload_feed:
  "uploadOK (S\<lparr>cs := (cs S)\<lparr>tin := rd\<rparr>\<rparr>) = uploadOK S" "idsOK (s\<lparr>tin := rd\<rparr>) = idsOK s"
  by (simp_all add: uploadOK_def threadUp_def lostS_def idsOK_def)

lemma side_feed:
  "sessOK s \<Longrightarrow> sessOK (s\<lparr>cin := rd\<rparr>)" "flowOK s \<Longrightarrow> flowOK (s\<lparr>cin := rd\<rparr>)"
  "limitsOK s \<Longrightarrow> limitsOK (s\<lparr>cin := rd\<rparr>)" "lifeOK E s \<Longrightarrow> lifeOK E (s\<lparr>cin := rd\<rparr>)"
  "upInv S \<Longrightarrow> upInv (S\<lparr>cs := (cs S)\<lparr>tin := rd\<rparr>\<rparr>)"
  by (simp_all add: sessOK_def heapOK_def countsOK_def queued_def threadOK_feed flowOK_def heapFlow_def
      limitsOK_def lifeOK_def upInv_def upload_feed)

interpretation sideS: fed_session_inv E "sideS E" for E
  by unfold_locales
    (auto simp: sideS_def sessOK_new flowOK_new limitsOK_new wireOK_new sessOK_closeConn flowOK_closeConn wireOK_closeConn
      life.inv_new life.inv_reap lim.inv_reap
      intro: schedule_keeps(1) flowOK_step limitsOK_step lifeOK_step wireOK_step side_feed)

interpretation sideC: fed_client_inv C "sideC C" for C
  by unfold_locales
    (auto simp: sideC_def cup.inv_new cup.inv_local flowC_new wireC_new cthreadStep_flowC cthreadStep_wireC upInv_run
      side_feed)

end
