(* ===== verification/Tunnel_Server.thy ===== *)
theory Tunnel_Server
  imports Tunnel
begin

text \<open>
  The session seen from the other end of its connection: how the frames it has read determine what
  its streams have accepted, and what the frames it has sealed tell about its state. The client is
  assumed to open every stream once and to send data only after OPEN_OK; the client's side of the
  development proves that it does.
\<close>

section \<open>Frames read and written by a step\<close>

abbreviation sentBy :: "v2Session \<Rightarrow> bytes list" where
  "sentBy s \<equiv> map snd (sealed s)"

definition readNow :: "senv \<Rightarrow> thread \<Rightarrow> v2Session \<Rightarrow> bytes list" where
  "readNow E u s =
     (if u = RlRead
      then (case readFrame (crypt E) (cin s) (keyC2S s) (seqRead s) of (Inr pt, _) \<Rightarrow> [pt] | _ \<Rightarrow> [])
      else [])"

lemma readNow_other [simp]: "u \<noteq> RlRead \<Longrightarrow> readNow E u s = []"
  by (simp add: readNow_def)

lemma readNow_read:
  "readNow E RlRead s = (case readFrame (crypt E) (cin s) (keyC2S s) (seqRead s) of (Inr pt, _) \<Rightarrow> [pt] | _ \<Rightarrow> [])"
  by (simp add: readNow_def)

lemma sent_writeSF [simp]:
  "sentBy (ses (snd (writeSF E X i t p S))) =
     sentBy (ses S) @ (if length p \<le> maxPlaintextSize - v2FrameHeader then [streamFrame i t p] else [])"
  by (simp add: writeSF_def writeStreamFrame_def Let_def case_prod_beta)

lemma count_stream [simp]:
  "countFrames i t (if length p \<le> maxPlaintextSize - v2FrameHeader then [streamFrame j u p] else []) =
     (if length p \<le> maxPlaintextSize - v2FrameHeader \<and> j = i \<and> u = t then 1 else 0)"
  by simp

lemma data_stream [simp]:
  "dataFrames i (if length p \<le> maxPlaintextSize - v2FrameHeader then [streamFrame j u p] else []) =
     (if length p \<le> maxPlaintextSize - v2FrameHeader \<and> j = i \<and> u = v2TypeData then p else [])"
  by simp

lemma short_payload [simp]:
  "length (putBE 4 n) \<le> maxPlaintextSize - v2FrameHeader" "4 \<le> maxPlaintextSize - v2FrameHeader"
  by (simp_all add: frame_consts v2FrameHeader_def)

lemma dispatch_seqRead: "dispatchFrame E X i ft p S = Some (t, ts, S') \<Longrightarrow> seqRead (ses S') = seqRead (ses S)"
  by (auto simp: dispatchFrame_def split: if_splits option.splits)

lemma step_seqRead:
  assumes "threadStep E X u S = Some (t, ts, S')"
  shows "seqRead (ses S') = seqRead (ses S) + word_of_nat (length (readNow E u (ses S)))"
proof (cases u)
  case RlRead
  with assms have "threadStep E X RlRead S = Some (t, ts, S')" by simp
  then show ?thesis
    by (cases rule: RlRead_cases) (auto simp: RlRead readNow_read received_def touch_def dest!: dispatch_seqRead)
qed (use assms in \<open>auto simp: threadStep_def Let_def case_prod_beta closeConn_def split: if_splits list.splits sum.splits\<close>)

section \<open>Openers and acknowledgements\<close>

fun openerFor :: "u32 \<Rightarrow> thread \<Rightarrow> bool" where
  "openerFor i (Opener j _) = (j = i)"
| "openerFor i (OpenerDial j _) = (j = i)"
| "openerFor i (OpenerStore j _) = (j = i)"
| "openerFor i (OpenerCheck j _) = (j = i)"
| "openerFor i (OpenerAck j _) = (j = i)"
| "openerFor i _ = False"

fun dialerFor :: "u32 \<Rightarrow> thread \<Rightarrow> bool" where
  "dialerFor i (Opener j _) = (j = i)"
| "dialerFor i (OpenerDial j _) = (j = i)"
| "dialerFor i _ = False"

fun workerFor :: "u32 \<Rightarrow> thread \<Rightarrow> bool" where
  "workerFor i (UpCheck j _) = (j = i)"
| "workerFor i (UpRead j _) = (j = i)"
| "workerFor i (UpFail j _) = (j = i)"
| "workerFor i (PumpWait j _ _) = (j = i)"
| "workerFor i (PumpWrite j _ _ _ _) = (j = i)"
| "workerFor i (PumpCredit j _ _) = (j = i)"
| "workerFor i _ = False"

abbreviation howMany :: "('a \<Rightarrow> bool) \<Rightarrow> 'a list \<Rightarrow> nat" where
  "howMany P xs \<equiv> length (filter P xs)"

lemma howMany_update:
  "n < length xs \<Longrightarrow> howMany P (xs[n := x]) + (if P (xs ! n) then 1 else 0) = howMany P xs + (if P x then 1 else 0)"
proof (induction xs arbitrary: n)
  case (Cons y ys)
  then show ?case by (cases n) auto
qed simp

lemma howMany_pos: "x \<in> set xs \<Longrightarrow> P x \<Longrightarrow> 0 < howMany P xs"
  by (induction xs) auto

text \<open>An OPEN makes one opener, an opener at most one stream and one acknowledgement.\<close>

definition opensOK :: "bytes list \<Rightarrow> v2Session \<Rightarrow> bool" where
  "opensOK g s \<longleftrightarrow>
     (\<forall>i. howMany (openerFor i) (threads s) + countFrames i v2TypeOpenOK (sentBy s) \<le> countFrames i v2TypeOpen g \<and>
          howMany (dialerFor i) (threads s) + count_list (map st_id (objs s)) i \<le> countFrames i v2TypeOpen g)"

lemma ids_update: "st_id st = st_id (xs ! r) \<Longrightarrow> map st_id (xs[r := st]) = map st_id xs"
  by (cases "r < length xs") (simp_all add: map_update list_update_same_conv list_update_beyond)

lemma ids_ops [simp]:
  "map st_id (objs (ses (closeUpstream r S))) = map st_id (objs (ses S))"
  "map st_id (objs (ses (dequeue r S))) = map st_id (objs (ses S))"
  "map st_id (objs (ses (upstreamWrite r bs S))) = map st_id (objs (ses S))"
  "map st_id (objs (ses (noteCredit r n S))) = map st_id (objs (ses S))"
  "map st_id (objs (ses (enqueue r p S))) = map st_id (objs (ses S))"
  "map st_id (objs (ses (closeStream i S))) = map st_id (objs (ses S))"
  "map st_id (objs (ses (closeAllEntry i S))) = map st_id (objs (ses S))"
  by (simp_all add: objs_update ids_update enqueue_def closeStream_def closeAllEntry_def Let_def split: option.split)

lemma dispatch_opens:
  fixes i :: u32
  assumes "dispatchFrame E X j ft p S = Some (t, ts, S')"
  shows "howMany (openerFor i) (t # ts) \<le> (if j = i \<and> ft = v2TypeOpen then 1 else 0)"
    and "howMany (dialerFor i) (t # ts) \<le> (if j = i \<and> ft = v2TypeOpen then 1 else 0)"
    and "countFrames i v2TypeOpenOK (sentBy (ses S')) = countFrames i v2TypeOpenOK (sentBy (ses S))"
    and "map st_id (objs (ses S')) = map st_id (objs (ses S))"
  using assms
  by (auto simp: dispatchFrame_def v2_types split: if_splits option.splits)

lemma step_opens_read:
  assumes st: "threadStep E X RlRead S = Some (t, ts, S')"
  shows "howMany (openerFor i) (t # ts) + countFrames i v2TypeOpenOK (sentBy (ses S'))
           \<le> countFrames i v2TypeOpenOK (sentBy (ses S)) + countFrames i v2TypeOpen (readNow E RlRead (ses S)) \<and>
         howMany (dialerFor i) (t # ts) + count_list (map st_id (objs (ses S'))) i
           \<le> count_list (map st_id (objs (ses S))) i + countFrames i v2TypeOpen (readNow E RlRead (ses S))"
  using st
proof (cases rule: RlRead_cases)
  case (frame rd pt j ft p)
  have "countFrames i v2TypeOpen (readNow E RlRead (ses S)) = (if j = i \<and> ft = v2TypeOpen then 1 else 0)"
    using frame by (simp add: readNow_read isFrame_split)
  then show ?thesis
    using dispatch_opens(1-3) [OF frame(3), of i] dispatch_opens(4) [OF frame(3)] by simp
qed (simp_all add: readNow_read)

lemma step_opens:
  assumes "threadStep E X u S = Some (t, ts, S')"
  shows "howMany (openerFor i) (t # ts) + countFrames i v2TypeOpenOK (sentBy (ses S'))
           \<le> howMany (openerFor i) [u] + countFrames i v2TypeOpenOK (sentBy (ses S)) + countFrames i v2TypeOpen (readNow E u (ses S)) \<and>
         howMany (dialerFor i) (t # ts) + count_list (map st_id (objs (ses S'))) i
           \<le> howMany (dialerFor i) [u] + count_list (map st_id (objs (ses S))) i + countFrames i v2TypeOpen (readNow E u (ses S))"
proof (cases "u = RlRead")
  case True
  then show ?thesis using step_opens_read [of E X S t ts S' i] assms by simp
next
  case False
  then show ?thesis
    using assms
    by (cases u; auto simp: threadStep_def Let_def case_prod_beta newStream_def v2_types closeConn_def
        split: if_splits list.splits sum.splits)
qed

lemma howMany_step:
  assumes "n < length ths"
  shows "howMany P (ths[n := t] @ ts) + howMany P [ths ! n] = howMany P ths + howMany P (t # ts)"
  using howMany_update [OF assms, of P t] by (simp add: algebra_simps split: if_splits)

lemma opensOK_step:
  assumes ok: "opensOK g (ses S)" and sch: "schedule E X n S = Some S'"
  shows "opensOK (g @ readNow E (threads (ses S) ! n) (ses S)) (ses S')"
proof -
  let ?u = "threads (ses S) ! n"
  from sch obtain t ts S1 where n: "n < length (threads (ses S))"
    and st: "threadStep E X ?u S = Some (t, ts, S1)"
    and S': "S' = S1\<lparr>ses := (ses S1)\<lparr>threads := (threads (ses S))[n := t] @ ts\<rparr>\<rparr>"
    by (rule schedule_SomeE)
  show ?thesis
    unfolding opensOK_def
  proof (intro allI)
    fix i
    have a: "howMany (openerFor i) (threads (ses S)) + countFrames i v2TypeOpenOK (sentBy (ses S)) \<le> countFrames i v2TypeOpen g"
      "howMany (dialerFor i) (threads (ses S)) + count_list (map st_id (objs (ses S))) i \<le> countFrames i v2TypeOpen g"
      using ok unfolding opensOK_def by blast+
    show "howMany (openerFor i) (threads (ses S')) + countFrames i v2TypeOpenOK (sentBy (ses S'))
          \<le> countFrames i v2TypeOpen (g @ readNow E ?u (ses S)) \<and>
        howMany (dialerFor i) (threads (ses S')) + count_list (map st_id (objs (ses S'))) i
          \<le> countFrames i v2TypeOpen (g @ readNow E ?u (ses S))"
      using a step_opens [OF st, of i] howMany_step [OF n, of "openerFor i" t ts] howMany_step [OF n, of "dialerFor i" t ts]
      by (simp add: S')
  qed
qed

section \<open>Which frames a step may write\<close>

definition dataRead :: "senv \<Rightarrow> thread \<Rightarrow> v2Session \<Rightarrow> u32 \<Rightarrow> bool" where
  "dataRead E u s i \<longleftrightarrow> 0 < countFrames i v2TypeData (readNow E u s)"

text \<open>The frames added by a step of goroutine \<open>u\<close>: data only by a worker of the stream, CLOSE only by a worker or on
  the arrival of data, and never without taking the stream out of the map.\<close>

definition frameStep :: "senv \<Rightarrow> thread \<Rightarrow> sstate \<Rightarrow> sstate \<Rightarrow> u32 \<Rightarrow> bool" where
  "frameStep E u S S' i \<longleftrightarrow>
     (\<exists>fs. sentBy (ses S') = sentBy (ses S) @ fs \<and>
        (0 < countFrames i v2TypeData fs \<longrightarrow> workerFor i u) \<and>
        (0 < countFrames i v2TypeClose fs \<longrightarrow>
           (workerFor i u \<or> dataRead E u (ses S) i) \<and> map_of (streams (ses S')) i = None))"

lemma map_of_closeStream [simp]:
  "map_of (streams (ses (closeStream i S))) j = (if j = i then None else map_of (streams (ses S)) j)"
  by (auto simp: closeStream_def Let_def map_of_delete split: option.split)

lemma map_of_closeAllEntry [simp]:
  "map_of (streams (ses (closeAllEntry i S))) j = (if j = i then None else map_of (streams (ses S)) j)"
  by (auto simp: closeAllEntry_def Let_def map_of_delete split: option.split)

lemma step_frames:
  assumes "threadStep E X u S = Some (t, ts, S')"
  shows "frameStep E u S S' i"
proof (cases "u = RlRead")
  case True
  with assms have "threadStep E X RlRead S = Some (t, ts, S')" by simp
  then show ?thesis
  proof (cases rule: RlRead_cases)
    case (frame rd pt j ft p)
    have "dataRead E u (ses S) i" if "ft = v2TypeData" "j = i"
      using frame True that by (simp add: dataRead_def readNow_read isFrame_split)
    with frame(3) True show ?thesis
      by (auto simp: frameStep_def dispatchFrame_def v2_types split: if_splits option.splits)
  qed (simp_all add: frameStep_def)
next
  case False
  then show ?thesis
    using assms
    by (cases u; auto simp: frameStep_def threadStep_def Let_def case_prod_beta v2_types closeConn_def
        split: if_splits list.splits sum.splits)
qed

lemma step_workers:
  assumes "threadStep E X u S = Some (t, ts, S')" and "w \<in> set (t # ts)" and "workerFor i w"
  shows "workerFor i u \<or> 0 < countFrames i v2TypeOpenOK (sentBy (ses S'))"
proof (cases "u = RlRead")
  case True
  with assms have "threadStep E X RlRead S = Some (t, ts, S')" by simp
  then show ?thesis
    using assms(2,3)
    by (cases rule: RlRead_cases) (auto simp: dispatchFrame_def split: if_splits option.splits)
next
  case False
  then show ?thesis
    using assms
    by (cases u; auto simp: threadStep_def Let_def case_prod_beta split: if_splits list.splits sum.splits)
qed

text \<open>An identifier enters the map only with its opener.\<close>

lemma step_map:
  assumes "threadStep E X u S = Some (t, ts, S')" and "map_of (streams (ses S')) i = Some r"
  shows "map_of (streams (ses S)) i = Some r \<or> u = OpenerStore i r"
proof (cases "u = RlRead")
  case True
  with assms have "threadStep E X RlRead S = Some (t, ts, S')" by simp
  then show ?thesis
    using assms(2)
    by (cases rule: RlRead_cases) (auto simp: dispatchFrame_def split: if_splits option.splits)
next
  case False
  then show ?thesis
    using assms
    by (cases u; auto simp: threadStep_def Let_def case_prod_beta map_of_delete update_conv' closeConn_def
        split: if_splits list.splits sum.splits)
qed

definition ackedOK :: "v2Session \<Rightarrow> bool" where
  "ackedOK s \<longleftrightarrow>
     (\<forall>i. ((\<exists>w\<in>set (threads s). workerFor i w) \<or> 0 < countFrames i v2TypeData (sentBy s) \<longrightarrow>
            0 < countFrames i v2TypeOpenOK (sentBy s)) \<and>
          (0 < countFrames i v2TypeClose (sentBy s) \<longrightarrow>
             0 < countFrames i v2TypeOpenOK (sentBy s) \<and> map_of (streams s) i = None))"

text \<open>What the session relies on: one OPEN per identifier, and no data before OPEN_OK.\<close>

definition polite :: "bytes list \<Rightarrow> v2Session \<Rightarrow> bool" where
  "polite g s \<longleftrightarrow>
     (\<forall>i. countFrames i v2TypeOpen g \<le> 1 \<and>
          (0 < countFrames i v2TypeData g \<longrightarrow> 0 < countFrames i v2TypeOpenOK (sentBy s)))"

lemma opener_unacked:
  assumes "opensOK g s" and "polite g s" and "u \<in> set (threads s)" and "openerFor i u"
  shows "countFrames i v2TypeOpenOK (sentBy s) = 0"
proof -
  have "0 < howMany (openerFor i) (threads s)" using assms(3,4) by (rule howMany_pos)
  moreover have "howMany (openerFor i) (threads s) + countFrames i v2TypeOpenOK (sentBy s) \<le> countFrames i v2TypeOpen g"
    and "countFrames i v2TypeOpen g \<le> 1"
    using assms(1,2) by (auto simp: opensOK_def polite_def)
  ultimately show ?thesis by linarith
qed

lemma polite_before: "polite (g @ h) s \<Longrightarrow> polite g s"
  unfolding polite_def by (auto intro: add_leD1)

lemma ackedOK_step:
  assumes ok: "ackedOK (ses S)" and op: "opensOK g (ses S)" and sch: "schedule E X n S = Some S'"
    and po: "polite (g @ readNow E (threads (ses S) ! n) (ses S)) (ses S)"
  shows "ackedOK (ses S')"
  unfolding ackedOK_def
proof (intro allI conjI impI)
  fix i
  let ?u = "threads (ses S) ! n"
  from sch obtain t ts S1 where n: "n < length (threads (ses S))"
    and st: "threadStep E X ?u S = Some (t, ts, S1)"
    and S': "S' = S1\<lparr>ses := (ses S1)\<lparr>threads := (threads (ses S))[n := t] @ ts\<rparr>\<rparr>"
    by (rule schedule_SomeE)
  from step_frames [OF st, of i] obtain fs where fs: "sentBy (ses S') = sentBy (ses S) @ fs"
    and da: "0 < countFrames i v2TypeData fs \<Longrightarrow> workerFor i ?u"
    and cl: "0 < countFrames i v2TypeClose fs \<Longrightarrow> (workerFor i ?u \<or> dataRead E ?u (ses S) i) \<and> map_of (streams (ses S')) i = None"
    by (auto simp: frameStep_def S')
  have u: "?u \<in> set (threads (ses S))" using n by simp
  have wk: "0 < countFrames i v2TypeOpenOK (sentBy (ses S))" if "workerFor i ?u"
    using ok that u by (auto simp: ackedOK_def)
  have dr: "0 < countFrames i v2TypeOpenOK (sentBy (ses S))" if "dataRead E ?u (ses S) i"
    using po that by (auto simp: polite_def dataRead_def)
  have po': "polite g (ses S)" using po by (rule polite_before)
  show "0 < countFrames i v2TypeOpenOK (sentBy (ses S'))"
    if a: "(\<exists>w\<in>set (threads (ses S')). workerFor i w) \<or> 0 < countFrames i v2TypeData (sentBy (ses S'))"
  proof (cases "0 < countFrames i v2TypeData (sentBy (ses S'))")
    case True
    then show ?thesis using da wk ok unfolding fs by (auto simp: ackedOK_def)
  next
    case False
    with a obtain w where "w \<in> set ((threads (ses S))[n := t] @ ts)" "workerFor i w" by (auto simp: S')
    then have "w \<in> set (threads (ses S)) \<or> w \<in> set (t # ts)" "workerFor i w"
      by (auto dest: subsetD [OF set_update_subset_insert])
    then show ?thesis
      using step_workers [OF st, of w i] wk ok fs by (auto simp: ackedOK_def S')
  qed
  assume c: "0 < countFrames i v2TypeClose (sentBy (ses S'))"
  show "0 < countFrames i v2TypeOpenOK (sentBy (ses S'))"
    using c cl wk dr ok unfolding fs by (auto simp: ackedOK_def)
  show "map_of (streams (ses S')) i = None"
  proof (cases "0 < countFrames i v2TypeClose fs")
    case False
    then have o: "0 < countFrames i v2TypeOpenOK (sentBy (ses S))" "map_of (streams (ses S)) i = None"
      using c ok unfolding fs by (auto simp: ackedOK_def)
    have "?u \<noteq> OpenerStore i r" for r
      using opener_unacked [OF op po' u, of i] o(1) by auto
    then show ?thesis
      using step_map [OF st, of i] o(2) by (cases "map_of (streams (ses S')) i") (auto simp: S')
  qed (use cl in simp)
qed

section \<open>What the streams accept\<close>

fun pendingFor :: "sref \<Rightarrow> thread \<Rightarrow> bytes" where
  "pendingFor r (RlEnqueue r' p) = (if r' = r then p else [])"
| "pendingFor r _ = []"

text \<open>With the frames \<open>g\<close> read and the read loop at \<open>t\<close>, a stream has accepted the first data bytes sent to it, and
  while it is open in the map all of them but the chunk in the hands of the read loop.\<close>

definition acceptOK :: "bytes list \<Rightarrow> thread \<Rightarrow> v2Session \<Rightarrow> bool" where
  "acceptOK g t s \<longleftrightarrow>
     (\<forall>r < length (objs s). prefix (accepted (objs s ! r)) (dataFrames (st_id (objs s ! r)) g)) \<and>
     (\<forall>i r. map_of (streams s) i = Some r \<and> \<not> st_closed (objs s ! r) \<longrightarrow>
        dataFrames i g = accepted (objs s ! r) @ pendingFor r t) \<and>
     (\<forall>r p. t = RlEnqueue r p \<and> \<not> st_closed (objs s ! r) \<longrightarrow> map_of (streams s) (st_id (objs s ! r)) = Some r)"

text \<open>Steps that add no stream, to the heap or to the map, and accept nothing.\<close>

definition accCalm :: "sstate \<Rightarrow> sstate \<Rightarrow> bool" where
  "accCalm S S' \<longleftrightarrow>
     length (objs (ses S')) = length (objs (ses S)) \<and> sclosed (ses S') = sclosed (ses S) \<and>
     (\<forall>r. st_id (objs (ses S') ! r) = st_id (objs (ses S) ! r) \<and> accepted (objs (ses S') ! r) = accepted (objs (ses S) ! r) \<and>
        (st_closed (objs (ses S) ! r) \<longrightarrow> st_closed (objs (ses S') ! r))) \<and>
     (\<forall>i r. map_of (streams (ses S')) i = Some r \<longrightarrow> map_of (streams (ses S)) i = Some r) \<and>
     (\<forall>i r. map_of (streams (ses S)) i = Some r \<and> r < length (objs (ses S)) \<and> \<not> st_closed (objs (ses S') ! r) \<and>
        \<not> sclosed (ses S) \<longrightarrow> map_of (streams (ses S')) i = Some r)"

lemma accCalm_refl: "accCalm S S"
  by (simp add: accCalm_def)

lemma accCalmD:
  assumes "accCalm S S'"
  shows "length (objs (ses S')) = length (objs (ses S))" and "sclosed (ses S') = sclosed (ses S)"
    and "st_id (objs (ses S') ! r) = st_id (objs (ses S) ! r)" and "accepted (objs (ses S') ! r) = accepted (objs (ses S) ! r)"
    and "st_closed (objs (ses S) ! r) \<Longrightarrow> st_closed (objs (ses S') ! r)"
    and "map_of (streams (ses S')) i = Some r \<Longrightarrow> map_of (streams (ses S)) i = Some r"
    and "map_of (streams (ses S)) i = Some r \<Longrightarrow> r < length (objs (ses S)) \<Longrightarrow> \<not> st_closed (objs (ses S') ! r) \<Longrightarrow>
      \<not> sclosed (ses S) \<Longrightarrow> map_of (streams (ses S')) i = Some r"
  using assms unfolding accCalm_def by blast+

lemma accCalm_trans:
  assumes a: "accCalm S0 S" and b: "accCalm S S'"
  shows "accCalm S0 S'"
  unfolding accCalm_def
proof (intro conjI allI impI, goal_cases)
  case (5 r)
  then show ?case using accCalmD(5) [OF a] accCalmD(5) [OF b] by blast
next
  case (6 i r)
  then show ?case using accCalmD(6) [OF a] accCalmD(6) [OF b] by blast
next
  case (7 i r)
  then have "\<not> st_closed (objs (ses S) ! r)" using accCalmD(5) [OF b] by blast
  with 7 have "map_of (streams (ses S)) i = Some r" using accCalmD(7) [OF a] by blast
  moreover have "r < length (objs (ses S))" "\<not> sclosed (ses S)" using 7 accCalmD(1,2) [OF a] by auto
  ultimately show ?case using 7 accCalmD(7) [OF b] by blast
qed (simp_all only: accCalmD(1-4) [OF a] accCalmD(1-4) [OF b])

lemma accCalm_same:
  "objs (ses S') = objs (ses S) \<Longrightarrow> streams (ses S') = streams (ses S) \<Longrightarrow> sclosed (ses S') = sclosed (ses S) \<Longrightarrow> accCalm S S'"
  by (simp add: accCalm_def)

lemma accCalm_update:
  assumes "objs (ses S') = (objs (ses S))[r := st]" and "streams (ses S') = streams (ses S)" and "sclosed (ses S') = sclosed (ses S)"
    and "st_id st = st_id (objs (ses S) ! r)" "accepted st = accepted (objs (ses S) ! r)" "st_closed st = st_closed (objs (ses S) ! r)"
  shows "accCalm S S'"
proof -
  have "st_id (objs (ses S') ! k) = st_id (objs (ses S) ! k) \<and> accepted (objs (ses S') ! k) = accepted (objs (ses S) ! k) \<and>
      (st_closed (objs (ses S') ! k) \<longleftrightarrow> st_closed (objs (ses S) ! k))" for k
    using assms by (cases "k = r"; cases "r < length (objs (ses S))") (auto simp: list_update_beyond)
  then show ?thesis using assms by (simp add: accCalm_def)
qed

lemma closed_objs:
  assumes "map_of (streams (ses S)) i = Some r"
  shows "objs (ses (closeStream i S)) = (objs (ses S))[r := (if st_closed (objs (ses S) ! r) then objs (ses S) ! r
           else shutStream (objs (ses S) ! r))]"
    and "objs (ses (closeAllEntry i S)) = objs (ses (closeStream i S))"
  using assms by (simp_all add: closeStream_def closeAllEntry_def Let_def)

lemma accCalm_closing:
  assumes "\<And>r. map_of (streams (ses S)) i = Some r \<Longrightarrow> objs (ses S') = (objs (ses S))[r := (if st_closed (objs (ses S) ! r)
      then objs (ses S) ! r else shutStream (objs (ses S) ! r))]"
    and "map_of (streams (ses S)) i = None \<Longrightarrow> objs (ses S') = objs (ses S)"
    and m: "map_of (streams (ses S')) = (map_of (streams (ses S)))(i := None)" and "sclosed (ses S') = sclosed (ses S)"
  shows "accCalm S S'"
proof (cases "map_of (streams (ses S)) i")
  case None
  then show ?thesis using assms(2,4) m by (auto simp: accCalm_def)
next
  case (Some r)
  note o = assms(1) [OF Some]
  have "st_id (objs (ses S') ! k) = st_id (objs (ses S) ! k) \<and> accepted (objs (ses S') ! k) = accepted (objs (ses S) ! k) \<and>
      (st_closed (objs (ses S) ! k) \<longrightarrow> st_closed (objs (ses S') ! k))" for k
    unfolding o by (cases "k = r"; cases "r < length (objs (ses S))") (auto simp: list_update_beyond shutStream_def)
  moreover have "st_closed (objs (ses S') ! r)" if "r < length (objs (ses S))"
    unfolding o using that by (simp add: shutStream_def)
  moreover have "length (objs (ses S')) = length (objs (ses S))" unfolding o by simp
  ultimately show ?thesis using assms(4) Some by (auto simp: accCalm_def m)
qed

lemma accCalm_ops:
  "accCalm S (closeStream i S)" "accCalm S (closeAllEntry i S)" "accCalm S (closeUpstream r S)"
  "accCalm S (dequeue r S)" "accCalm S (upstreamWrite r bs S)" "accCalm S (noteCredit r n S)"
  "accCalm S (snd (writeSF E X j t p S))" "accCalm S (releaseOpen S)" "accCalm S (received rd now S)"
  "accCalm S (S\<lparr>ses := (ses S)\<lparr>openSem := k\<rparr>\<rparr>)" "accCalm S (S\<lparr>ses := (ses S)\<lparr>cin := rd\<rparr>\<rparr>)"
  "accCalm S (S\<lparr>ses := closeConn ((ses S)\<lparr>registered := b\<rparr>)\<rparr>)"
proof -
  have "objs (ses (closeStream i S)) = objs (ses S)" "objs (ses (closeAllEntry i S)) = objs (ses S)"
    if "map_of (streams (ses S)) i = None"
    using that by (simp_all add: closeStream_def closeAllEntry_def Let_def)
  then show "accCalm S (closeStream i S)" "accCalm S (closeAllEntry i S)"
    by (auto intro!: accCalm_closing [where i = i] simp: closed_objs fun_eq_iff)
  show "accCalm S (closeUpstream r S)" by (rule accCalm_update [OF objs_update(1)]) simp_all
  show "accCalm S (dequeue r S)" by (rule accCalm_update [OF objs_update(2)]) (simp_all add: popChunk_def)
  show "accCalm S (upstreamWrite r bs S)" by (rule accCalm_update [OF objs_update(3)]) simp_all
  show "accCalm S (noteCredit r n S)" by (rule accCalm_update [OF objs_update(4)]) simp_all
qed (simp_all add: accCalm_same)

lemmas accCalm_rules = accCalm_refl accCalm_ops accCalm_trans [OF _ accCalm_ops(1)] accCalm_trans [OF _ accCalm_ops(2)]
  accCalm_trans [OF _ accCalm_ops(3)] accCalm_trans [OF _ accCalm_ops(5)] accCalm_trans [OF _ accCalm_ops(6)]
  accCalm_trans [OF _ accCalm_ops(7)] accCalm_trans [OF _ accCalm_ops(8)]

lemma acceptOKD:
  assumes "acceptOK g t s"
  shows "r < length (objs s) \<Longrightarrow> prefix (accepted (objs s ! r)) (dataFrames (st_id (objs s ! r)) g)"
    and "map_of (streams s) i = Some r \<Longrightarrow> \<not> st_closed (objs s ! r) \<Longrightarrow> dataFrames i g = accepted (objs s ! r) @ pendingFor r t"
    and "t = RlEnqueue r p \<Longrightarrow> \<not> st_closed (objs s ! r) \<Longrightarrow> map_of (streams s) (st_id (objs s ! r)) = Some r"
  using assms unfolding acceptOK_def by blast+

lemma acceptOK_calm:
  assumes acc: "acceptOK g t (ses S)" and c: "accCalm S S'" and h: "heapOK (ses S)"
    and cl: "\<And>r p. t = RlEnqueue r p \<Longrightarrow> \<not> sclosed (ses S)"
  shows "acceptOK g t (ses S')"
  unfolding acceptOK_def
proof (intro conjI allI impI, goal_cases)
  case (1 r)
  then show ?case using acceptOKD(1) [OF acc, of r] by (simp add: accCalmD(1,3,4) [OF c])
next
  case (2 i r)
  then have "map_of (streams (ses S)) i = Some r" "\<not> st_closed (objs (ses S) ! r)"
    using accCalmD(5,6) [OF c] by blast+
  then show ?case using acceptOKD(2) [OF acc] by (simp add: accCalmD(4) [OF c])
next
  case (3 r p)
  then have "\<not> st_closed (objs (ses S) ! r)" using accCalmD(5) [OF c] by blast
  then have m: "map_of (streams (ses S)) (st_id (objs (ses S) ! r)) = Some r" using acceptOKD(3) [OF acc] 3 by blast
  then have "r < length (objs (ses S))" by (rule heapOK_ref [OF h])
  then show ?case using accCalmD(7) [OF c m] 3 cl by (simp add: accCalmD(3) [OF c])
qed

text \<open>Goroutines other than the read loop.\<close>

lemma accCalm_unstore: "sclosed (ses S) \<Longrightarrow> accCalm S (S\<lparr>ses := (ses S)\<lparr>streams := AList.delete i (streams (ses S))\<rparr>\<rparr>)"
  by (auto simp: accCalm_def map_of_delete split: if_splits)

lemma other_accCalm:
  assumes "threadStep E X u S = Some (t, ts, S')" and "\<not> readerThread u"
    and "\<And>i a. u \<noteq> OpenerDial i a" and "\<And>i r. u \<noteq> OpenerStore i r"
  shows "accCalm S S'"
  using assms accCalm_unstore
  by (cases u; auto simp: threadStep_def Let_def case_prod_beta intro!: accCalm_rules
      split: if_splits list.splits sum.splits)

lemma acceptOK_other:
  assumes acc: "acceptOK g t0 (ses S)" and ok: "heapOK (ses S)" and hf: "heapFlow (ses S)"
    and tf: "threadFlow (objs (ses S)) u" and tok: "threadOK (ses S) u" "threadOK (ses S) t0"
    and st: "threadStep E X u S = Some (t, ts, S')" and nr: "\<not> readerThread u"
    and cl: "\<And>r p. t0 = RlEnqueue r p \<Longrightarrow> \<not> sclosed (ses S)"
    and fresh: "\<And>i r. u = OpenerStore i r \<Longrightarrow> dataFrames i g = []"
  shows "acceptOK g t0 (ses S')"
proof (cases "(\<exists>i a. u = OpenerDial i a) \<or> (\<exists>i r. u = OpenerStore i r)")
  case False
  then have "accCalm S S'" by (intro other_accCalm [OF st nr]) auto
  then show ?thesis by (rule acceptOK_calm [OF acc _ ok cl])
next
  case True
  then consider (dial) i a where "u = OpenerDial i a" | (store) i r where "u = OpenerStore i r" by blast
  then show ?thesis
  proof cases
    case dial
    show ?thesis
    proof (cases "dialOK X")
      case False
      then have "accCalm S S'" using st dial by (auto simp: threadStep_def intro!: accCalm_rules split: if_splits)
      then show ?thesis by (rule acceptOK_calm [OF acc _ ok cl])
    next
      case True
      then have S': "S' = S\<lparr>ses := (ses S)\<lparr>objs := objs (ses S) @ [newStream i]\<rparr>\<rparr>"
        using st dial by (simp add: threadStep_def split: if_splits)
      have old: "r < length (objs (ses S))" if "t0 = RlEnqueue r p" for r p using tok(2) that by (simp add: threadOK_def)
      show ?thesis
        unfolding acceptOK_def
      proof (intro conjI allI impI, goal_cases)
        case (1 r)
        then show ?case using acceptOKD(1) [OF acc, of r] by (auto simp: S' nth_append newStream_def)
      next
        case (2 j r)
        then show ?case using acceptOKD(2) [OF acc, of j r] heapOK_ref [OF ok, of j r] by (simp add: S' nth_append)
      next
        case (3 r p)
        then show ?case using acceptOKD(3) [OF acc, of r p] old [of r p] by (simp add: S' nth_append)
      qed
    qed
  next
    case store
    show ?thesis
    proof (cases "map_of (streams (ses S)) i")
      case (Some x)
      then have "accCalm S S'" using st store by (auto simp: threadStep_def intro!: accCalm_rules)
      then show ?thesis by (rule acceptOK_calm [OF acc _ ok cl])
    next
      case None
      then have S': "S' = S\<lparr>ses := (ses S)\<lparr>streams := AList.update i r (streams (ses S))\<rparr>\<rparr>"
        using st store by (simp add: threadStep_def)
      have id: "st_id (objs (ses S) ! r) = i" and r: "r < length (objs (ses S))"
        using tf tok(1) store by (simp_all add: threadOK_def)
      have "accepted (objs (ses S) ! r) = []" using acceptOKD(1) [OF acc r] fresh [OF store] id by simp
      moreover have "pendingFor r t0 = []" if "\<not> st_closed (objs (ses S) ! r)"
        using acceptOKD(3) [OF acc, of r] that None id by (cases t0) auto
      ultimately show ?thesis
        using acceptOKD [OF acc] fresh [OF store] None id
        by (auto simp: acceptOK_def S' update_conv' split: if_splits)
    qed
  qed
qed

text \<open>The read loop.\<close>

lemma acceptOK_same:
  assumes "acceptOK g t (ses S)" and "objs (ses S') = objs (ses S)" and "streams (ses S') = streams (ses S)"
    and "\<And>r p. t \<noteq> RlEnqueue r p" and "\<And>r p. t' \<noteq> RlEnqueue r p" and "\<And>i. dataFrames i h = []"
  shows "acceptOK (g @ h) t' (ses S')"
proof -
  have "pendingFor r t = [] \<and> pendingFor r t' = []" for r using assms(4,5) by (cases t; cases t') auto
  then show ?thesis using assms by (auto simp: acceptOK_def)
qed

lemma acceptOK_calm_read:
  assumes acc: "acceptOK g t (ses S)" and c: "accCalm S S'" and "heapOK (ses S)"
    and n: "\<And>r p. t \<noteq> RlEnqueue r p" "\<And>r p. t' \<noteq> RlEnqueue r p"
    and d: "\<And>i. dataFrames i h = [] \<or> map_of (streams (ses S')) i = None"
  shows "acceptOK (g @ h) t' (ses S')"
proof -
  have a: "acceptOK g t (ses S')" by (rule acceptOK_calm [OF acc c assms(3)]) (use n in blast)
  have e: "pendingFor r t = [] \<and> pendingFor r t' = []" for r using n by (cases t; cases t') auto
  show ?thesis
    unfolding acceptOK_def
  proof (intro conjI allI impI, goal_cases)
    case (1 r)
    then show ?case using acceptOKD(1) [OF a, of r] by (simp add: prefix_more)
  next
    case (2 i r)
    then show ?case using acceptOKD(2) [OF a, of i r] d [of i] e by simp
  qed (use n in blast)
qed

lemma dispatch_accept:
  assumes acc: "acceptOK g RlRead (ses S)" and ok: "heapOK (ses S)" and hf: "heapFlow (ses S)"
    and d: "dispatchFrame E X i ft p S = Some (t, ts, S')" and pt: "splitFrame pt = Some (i, ft, p)"
  shows "acceptOK (g @ [pt]) t (ses S')"
proof (cases "ft = v2TypeData")
  case False
  then have "accCalm S S' \<and> t = RlRead"
    using d by (auto simp: dispatchFrame_def split: if_splits intro!: accCalm_rules)
  then show ?thesis
    using False pt by (intro acceptOK_calm_read [OF acc _ ok]) (auto simp: dataIn_split)
next
  case True
  have nd: "v2TypeData \<noteq> v2TypeOpen" by (simp add: v2_types)
  show ?thesis
  proof (cases "map_of (streams (ses S)) i")
    case None
    then have "S' = S" "t = RlRead" using d True nd by (auto simp: dispatchFrame_def)
    then show ?thesis
      using None pt by (intro acceptOK_calm_read [OF acc _ ok]) (auto simp: dataIn_split accCalm_refl)
  next
    case (Some r)
    show ?thesis
    proof (cases "overBudget (length p) S")
      case over: True
      then have "S' = closeStream i (snd (writeSF E X i v2TypeClose [] S))" "t = RlRead"
        using d True nd Some by (auto simp: dispatchFrame_def)
      then show ?thesis
        using pt by (intro acceptOK_calm_read [OF acc _ ok]) (auto simp: dataIn_split intro: accCalm_rules)
    next
      case False
      then have S': "S' = S" "t = RlEnqueue r p" using d True nd Some by (auto simp: dispatchFrame_def)
      have id: "st_id (objs (ses S) ! x) = j" if "map_of (streams (ses S)) j = Some x" for j x
        using hf map_of_SomeD [OF that] by (auto simp: heapFlow_def)
      show ?thesis
        unfolding acceptOK_def
      proof (intro conjI allI impI, goal_cases)
        case (1 x)
        then show ?case using acceptOKD(1) [OF acc, of x] S' by (simp add: prefix_more)
      next
        case (2 j x)
        then show ?case
          using acceptOKD(2) [OF acc, of j x] S' pt True id [OF Some] id [of j x] Some by (auto simp: dataIn_split)
      next
        case (3 x q)
        then show ?case using S' id [OF Some] Some by simp
      qed
    qed
  qed
qed

lemma enqueue_accept:
  assumes acc: "acceptOK g (RlEnqueue r p) (ses S)" and r: "r < length (objs (ses S))"
    and hf: "heapFlow (ses S)"
  shows "acceptOK g RlRead (ses (enqueue r p S))"
proof (cases "st_closed (objs (ses S) ! r)")
  case True
  then have "enqueue r p S = S" by (simp add: enqueue_def)
  moreover have "pendingFor x (RlEnqueue r p) = []" if "\<not> st_closed (objs (ses S) ! x)" for x
    using that True by auto
  ultimately show ?thesis using acc by (auto simp: acceptOK_def)
next
  case False
  let ?st = "pushChunk p (objs (ses S) ! r)" and ?S = "enqueue r p S"
  have o: "objs (ses ?S) = (objs (ses S))[r := ?st]" using False by (simp add: enqueue_def Let_def)
  have m: "map_of (streams (ses S)) (st_id (objs (ses S) ! r)) = Some r" by (rule acceptOKD(3) [OF acc refl False])
  have all: "dataFrames (st_id (objs (ses S) ! r)) g = accepted (objs (ses S) ! r) @ p"
    using acceptOKD(2) [OF acc m False] by simp
  show ?thesis
    unfolding acceptOK_def
  proof (intro conjI allI impI, goal_cases)
    case (1 x)
    then show ?case using acceptOKD(1) [OF acc, of x] all r by (cases "x = r") (simp_all add: o pushChunk_def)
  next
    case (2 j x)
    have "st_id (objs (ses S) ! x) = j"
      using hf map_of_SomeD [of "streams (ses S)" j x] 2 by (auto simp: heapFlow_def)
    then show ?case using 2 acceptOKD(2) [OF acc, of j x] all r by (cases "x = r") (auto simp: o pushChunk_def)
  qed simp
qed

lemma acceptOK_reader:
  assumes acc: "acceptOK g u (ses S)" and ok: "heapOK (ses S)" and hf: "heapFlow (ses S)" and tok: "threadOK (ses S) u"
    and st: "threadStep E X u S = Some (t, ts, S')" and rd: "readerThread u"
  shows "acceptOK (g @ readNow E u (ses S)) t (ses S')"
proof (cases u)
  case RlRead
  with st have "threadStep E X RlRead S = Some (t, ts, S')" by simp
  then show ?thesis
  proof (cases rule: RlRead_cases)
    case (fail r e)
    then show ?thesis using acc RlRead by (intro acceptOK_same [of g u S]) (auto simp: readNow_read)
  next
    case (short r pt)
    then show ?thesis using acc RlRead by (intro acceptOK_same [of g u S]) (auto simp: readNow_read dataIn_def)
  next
    case (frame r pt i ft p)
    have "acceptOK g RlRead (ses (received r (onow X) S))" "heapOK (ses (received r (onow X) S))" "heapFlow (ses (received r (onow X) S))"
      using acc ok hf RlRead by (simp_all add: acceptOK_def heapOK_def heapFlow_def)
    from dispatch_accept [OF this frame(3,2)] show ?thesis using frame(1) RlRead by (simp add: readNow_read)
  qed
next
  case (RlEnqueue r p)
  then show ?thesis
    using enqueue_accept [of g r p S] acc tok hf st by (auto simp: threadStep_def threadOK_def)
next
  case (RlRange ks)
  show ?thesis
  proof (cases ks)
    case Nil
    then have "S' = S" "t = RlExit" using st RlRange by (auto simp: threadStep_def)
    then show ?thesis using acc RlRange acceptOK_same [of g u S S t "[]"] by simp
  next
    case (Cons k rest)
    then have "S' = closeAllEntry k S" "t = RlRange rest" using st RlRange by (auto simp: threadStep_def)
    then show ?thesis
      using acc RlRange by (intro acceptOK_calm_read [OF acc _ ok]) (auto intro: accCalm_rules)
  qed
qed (use rd st acc in \<open>auto simp: threadStep_def acceptOK_def\<close>)

lemma unacked_data:
  assumes "opensOK g s" and "polite g s" and "u \<in> set (threads s)" and "openerFor i u"
  shows "dataFrames i g = []"
proof -
  have "countFrames i v2TypeOpenOK (sentBy s) = 0" by (rule opener_unacked [OF assms])
  then have "countFrames i v2TypeData g = 0" using assms(2) by (auto simp: polite_def)
  then show ?thesis by (rule dataFrames_none)
qed

lemma acceptOK_step:
  assumes side: "sideS E (ses S)" and acc: "acceptOK g (hd (threads (ses S))) (ses S)" and op: "opensOK g (ses S)"
    and po: "polite g (ses S)" and sch: "schedule E X n S = Some S'"
  shows "acceptOK (g @ readNow E (threads (ses S) ! n) (ses S)) (hd (threads (ses S'))) (ses S')"
proof -
  let ?u = "threads (ses S) ! n"
  from sch obtain t ts S1 where n: "n < length (threads (ses S))"
    and st: "threadStep E X ?u S = Some (t, ts, S1)"
    and S': "S' = S1\<lparr>ses := (ses S1)\<lparr>threads := (threads (ses S))[n := t] @ ts\<rparr>\<rparr>"
    by (rule schedule_SomeE)
  from side obtain t0 us where thr: "threads (ses S) = t0 # us" and t0: "readerThread t0 \<or> t0 = Finished"
    and us: "\<forall>u\<in>set us. \<not> readerThread u" and cl: "sclosed (ses S) \<longleftrightarrow> ending t0"
    by (auto simp: sideS_def lifeOK_def)
  have hk: "heapOK (ses S)" and hf: "heapFlow (ses S)" and u: "?u \<in> set (threads (ses S))"
    and tok: "threadOK (ses S) ?u" and tf: "threadFlow (objs (ses S)) ?u"
    using side n by (simp_all add: sideS_def sessOK_def flowOK_def)
  have tok0: "threadOK (ses S) t0" using side thr by (simp add: sideS_def sessOK_def)
  have acc0: "acceptOK g t0 (ses S)" using acc thr by simp
  have acc': "acceptOK h v (ses S1) = acceptOK h v (ses S')" for h v by (simp add: acceptOK_def S')
  show ?thesis
  proof (cases n)
    case 0
    with st t0 have "readerThread t0" by (auto simp: threadStep_def thr)
    with acceptOK_reader [OF acc0 hk hf tok0, of E X t ts S1] st show ?thesis by (simp add: 0 thr acc' S')
  next
    case (Suc m)
    then have nr: "\<not> readerThread ?u" using us n thr by simp
    then have "?u \<noteq> RlRead" by auto
    moreover have "acceptOK g t0 (ses S1)"
    proof (rule acceptOK_other [OF acc0 hk hf tf tok tok0 st nr])
      show "\<not> sclosed (ses S)" if "t0 = RlEnqueue r p" for r p using that cl by simp
      show "dataFrames i g = []" if "?u = OpenerStore i r" for i r
        using unacked_data [OF op po u, of i] that by simp
    qed
    ultimately show ?thesis by (simp add: acc' S' thr Suc)
  qed
qed

section \<open>Credit\<close>

fun creditFor :: "u32 \<Rightarrow> thread \<Rightarrow> nat" where
  "creditFor i (PumpCredit j r c) = (if j = i then nat c mod 2 ^ 32 else 0)"
| "creditFor i _ = 0"

fun ackFor :: "u32 \<Rightarrow> thread \<Rightarrow> nat" where
  "ackFor i (OpenerAck j r) = (if j = i then nat v2InitialWindow else 0)"
| "ackFor i _ = 0"

fun fetchFor :: "stepin \<Rightarrow> u32 \<Rightarrow> thread \<Rightarrow> bytes" where
  "fetchFor X i (UpRead j r) = (if j = i then take (maxPlaintextSize - v2FrameHeader) (rdata X) else [])"
| "fetchFor X i _ = []"

lemma getBE_window: "getBE (putBE 4 n) = n mod 2 ^ 32"
  by (simp add: getBE_putBE)

lemma step_amounts:
  assumes "threadStep E X u S = Some (t, ts, S')"
  shows "amounts i v2TypeWindowUpdate (sentBy (ses S')) = amounts i v2TypeWindowUpdate (sentBy (ses S)) + creditFor i u"
    and "amounts i v2TypeOpenOK (sentBy (ses S')) = amounts i v2TypeOpenOK (sentBy (ses S)) + ackFor i u"
    and "dataFrames i (sentBy (ses S')) = dataFrames i (sentBy (ses S)) @ fetchFor X i u"
proof -
  have "amounts i v2TypeWindowUpdate (sentBy (ses S')) = amounts i v2TypeWindowUpdate (sentBy (ses S)) + creditFor i u \<and>
    amounts i v2TypeOpenOK (sentBy (ses S')) = amounts i v2TypeOpenOK (sentBy (ses S)) + ackFor i u \<and>
    dataFrames i (sentBy (ses S')) = dataFrames i (sentBy (ses S)) @ fetchFor X i u"
  proof (cases "u = RlRead")
    case True
    with assms have "threadStep E X RlRead S = Some (t, ts, S')" by simp
    then show ?thesis
      using True by (cases rule: RlRead_cases) (auto simp: dispatchFrame_def v2_types split: if_splits option.splits)
  next
    case False
    then show ?thesis
      using assms
      by (cases u; auto simp: threadStep_def Let_def case_prod_beta v2_types v2_limits closeConn_def getBE_window
          split: if_splits list.splits sum.splits)
  qed
  then show "amounts i v2TypeWindowUpdate (sentBy (ses S')) = amounts i v2TypeWindowUpdate (sentBy (ses S)) + creditFor i u"
    and "amounts i v2TypeOpenOK (sentBy (ses S')) = amounts i v2TypeOpenOK (sentBy (ses S)) + ackFor i u"
    and "dataFrames i (sentBy (ses S')) = dataFrames i (sentBy (ses S)) @ fetchFor X i u" by blast+
qed

text \<open>The credit noted for the streams changes only in the pump's step.\<close>

lemma granted_update: "granted st = granted (xs ! r) \<Longrightarrow> map granted (xs[r := st]) = map granted xs"
  by (cases "r < length xs") (simp_all add: map_update list_update_same_conv list_update_beyond)

lemma granted_ops [simp]:
  "map granted (objs (ses (closeUpstream r S))) = map granted (objs (ses S))"
  "map granted (objs (ses (dequeue r S))) = map granted (objs (ses S))"
  "map granted (objs (ses (upstreamWrite r bs S))) = map granted (objs (ses S))"
  "map granted (objs (ses (enqueue r p S))) = map granted (objs (ses S))"
  "map granted (objs (ses (closeStream i S))) = map granted (objs (ses S))"
  "map granted (objs (ses (closeAllEntry i S))) = map granted (objs (ses S))"
  by (simp_all add: objs_update granted_update enqueue_def closeStream_def closeAllEntry_def shutStream_def pushChunk_def
      popChunk_def Let_def split: option.split)

definition newIds :: "stepin \<Rightarrow> thread \<Rightarrow> u32 list" where
  "newIds X u = (case u of OpenerDial i a \<Rightarrow> if dialOK X then [i] else [] | _ \<Rightarrow> [])"

lemma step_ids:
  assumes "threadStep E X u S = Some (t, ts, S')"
  shows "map st_id (objs (ses S')) = map st_id (objs (ses S)) @ newIds X u"
    and "(\<And>i r c. u \<noteq> PumpCredit i r c) \<Longrightarrow> map granted (objs (ses S')) = map granted (objs (ses S)) @ map (\<lambda>_. 0) (newIds X u)"
proof -
  have "map st_id (objs (ses S')) = map st_id (objs (ses S)) @ newIds X u \<and>
    ((\<forall>i r c. u \<noteq> PumpCredit i r c) \<longrightarrow> map granted (objs (ses S')) = map granted (objs (ses S)) @ map (\<lambda>_. 0) (newIds X u))"
  proof (cases "u = RlRead")
    case True
    with assms have "threadStep E X RlRead S = Some (t, ts, S')" by simp
    then show ?thesis
      using True by (cases rule: RlRead_cases) (auto simp: newIds_def dispatchFrame_def split: if_splits option.splits)
  next
    case False
    then show ?thesis
      using assms
      by (cases u; auto simp: newIds_def threadStep_def Let_def case_prod_beta newStream_def closeConn_def
          split: if_splits list.splits sum.splits)
  qed
  then show "map st_id (objs (ses S')) = map st_id (objs (ses S)) @ newIds X u"
    and "(\<And>i r c. u \<noteq> PumpCredit i r c) \<Longrightarrow> map granted (objs (ses S')) = map granted (objs (ses S)) @ map (\<lambda>_. 0) (newIds X u)"
    by blast+
qed

lemma step_granted:
  assumes st: "threadStep E X u S = Some (t, ts, S')" and r: "r < length (objs (ses S))" and u: "\<And>j c. u \<noteq> PumpCredit j r c"
  shows "granted (objs (ses S') ! r) = granted (objs (ses S) ! r)"
proof (cases "\<exists>j x c. u = PumpCredit j x c")
  case False
  have "map granted (objs (ses S')) ! r = (map granted (objs (ses S)) @ map (\<lambda>_. 0) (newIds X u)) ! r"
    using step_ids(2) [OF st] False by simp
  moreover have "length (objs (ses S)) \<le> length (objs (ses S'))"
    using arg_cong [OF step_ids(1) [OF st], of length] by simp
  ultimately show ?thesis using r by (simp add: nth_append)
next
  case True
  then obtain j x c where us: "u = PumpCredit j x c" by blast
  then have x: "x \<noteq> r" using u by blast
  let ?S = "snd (writeSF E X j v2TypeWindowUpdate (putBE 4 (nat c)) S)"
  from st us consider "S' = noteCredit x c ?S" | "S' = closeStream j (closeUpstream x ?S)"
    by (auto simp: threadStep_def case_prod_beta split: if_splits)
  then show ?thesis
  proof cases
    case 1
    then show ?thesis using x by (simp add: objs_update)
  next
    case 2
    have "map granted (objs (ses S')) = map granted (objs (ses S))" unfolding 2 by simp
    then show ?thesis using r by (metis length_map nth_map)
  qed
qed

lemma distinct_count: "(\<And>x. count_list xs x \<le> 1) \<Longrightarrow> distinct xs"
proof (induction xs)
  case (Cons y ys)
  have "count_list ys x \<le> 1" for x using Cons.prems [of x] by (simp split: if_splits)
  moreover have "count_list ys y = 0" using Cons.prems [of y] by simp
  ultimately show ?case using Cons.IH by (simp add: count_list_0_iff)
qed simp

lemma opens_distinct:
  assumes "opensOK g s" and "polite g s"
  shows "distinct (map st_id (objs s))"
proof (rule distinct_count)
  fix i
  have "count_list (map st_id (objs s)) i \<le> countFrames i v2TypeOpen g" "countFrames i v2TypeOpen g \<le> 1"
    using assms by (auto simp: opensOK_def polite_def dest: add_leD2)
  then show "count_list (map st_id (objs s)) i \<le> 1" by linarith
qed

text \<open>A stream accepts data only from the read loop and while it is open, and it stays closed.\<close>

lemma step_stream:
  assumes "threadStep E X u S = Some (t, ts, S')" and r: "r < length (objs (ses S))"
  shows "accepted (objs (ses S') ! r) = accepted (objs (ses S) ! r) \<and>
           (st_closed (objs (ses S) ! r) \<longrightarrow> st_closed (objs (ses S') ! r)) \<or>
         (\<exists>p. u = RlEnqueue r p \<and> \<not> st_closed (objs (ses S) ! r))"
proof -
  have c: "?thesis" if "accCalm S S'" using accCalmD(4,5) [OF that] by blast
  show ?thesis
  proof (cases u)
    case RlRead
    with assms have "threadStep E X RlRead S = Some (t, ts, S')" by simp
    then show ?thesis
    proof (cases rule: RlRead_cases)
      case (frame rd pt i ft p)
      have "accCalm S S'"
        using frame(3) by (auto simp: dispatchFrame_def split: if_splits option.splits intro!: accCalm_rules
            intro: accCalm_trans [OF accCalm_ops(9)])
      then show ?thesis by (rule c)
    qed (use r in simp_all)
  next
    case (RlEnqueue x p)
    then show ?thesis using assms(1) r by (cases "x = r") (auto simp: threadStep_def enqueue_def Let_def)
  next
    case (RlRange ks)
    then show ?thesis
      using assms(1) r c accCalm_ops(2) by (auto simp: threadStep_def split: list.splits)
  next
    case (OpenerDial i a)
    have "accCalm S (releaseOpen (snd (writeSF E X i v2TypeOpenErr p S)))" for p by (intro accCalm_rules)
    then show ?thesis
      using assms(1) r OpenerDial c by (auto simp: threadStep_def nth_append split: if_splits)
  next
    case (OpenerStore i x)
    have "accCalm S (releaseOpen (closeUpstream x S))" by (intro accCalm_rules)
    then show ?thesis
      using assms(1) r OpenerStore c by (auto simp: threadStep_def split: if_splits)
  qed (use assms c [OF other_accCalm [OF assms(1)]] in \<open>auto simp: threadStep_def\<close>)
qed

lemma step_closed:
  assumes "threadStep E X u S = Some (t, ts, S')" and "r < length (objs (ses S))" "st_closed (objs (ses S) ! r)"
  shows "st_closed (objs (ses S') ! r)"
  using step_stream [OF assms(1,2)] assms(3) by blast

text \<open>Credit is sent for what an open stream has noted, and OPEN_OK carries the initial window once.\<close>

definition paidOK :: "v2Session \<Rightarrow> bool" where
  "paidOK s \<longleftrightarrow>
     (\<forall>i. (\<forall>r. map_of (streams s) i = Some r \<and> \<not> st_closed (objs s ! r) \<longrightarrow>
              int (amounts i v2TypeWindowUpdate (sentBy s)) \<le> granted (objs s ! r)) \<and>
          (0 < amounts i v2TypeWindowUpdate (sentBy s) \<longrightarrow> 0 < countFrames i v2TypeOpenOK (sentBy s)) \<and>
          amounts i v2TypeOpenOK (sentBy s) \<le> nat v2InitialWindow * countFrames i v2TypeOpenOK (sentBy s))"

lemma ack_counts:
  assumes "threadStep E X u S = Some (t, ts, S')"
  shows "nat v2InitialWindow * countFrames i v2TypeOpenOK (sentBy (ses S)) + ackFor i u
           \<le> nat v2InitialWindow * countFrames i v2TypeOpenOK (sentBy (ses S'))"
proof (cases "\<exists>r. u = OpenerAck i r")
  case True
  then show ?thesis using assms by (auto simp: threadStep_def case_prod_beta split: if_splits)
next
  case False
  obtain fs where "sentBy (ses S') = sentBy (ses S) @ fs" using step_frames [OF assms, of i] by (auto simp: frameStep_def)
  moreover have "ackFor i u = 0" using False by (cases u) auto
  ultimately show ?thesis by simp
qed

lemma pumpCredit_paid:
  assumes st: "threadStep E X (PumpCredit i r c) S = Some (t, ts, S')" and r: "r < length (objs (ses S))"
    and c: "0 < c" "c < 2 ^ 32" and m: "map_of (streams (ses S')) i = Some r" and p: "int k \<le> granted (objs (ses S) ! r)"
  shows "int (k + creditFor i (PumpCredit i r c)) \<le> granted (objs (ses S') ! r)"
proof -
  have "S' = noteCredit r c (snd (writeSF E X i v2TypeWindowUpdate (putBE 4 (nat c)) S))"
    using st m by (auto simp: threadStep_def case_prod_beta split: if_splits)
  then have "granted (objs (ses S') ! r) = granted (objs (ses S) ! r) + c" using r by (simp add: objs_update)
  then show ?thesis using c p by simp
qed

lemma paidOK_step:
  assumes side: "sideS E (ses S)" and pd: "paidOK (ses S)" and ak: "ackedOK (ses S)" and op: "opensOK g (ses S)"
    and po: "polite g (ses S)" and sch: "schedule E X n S = Some S'"
  shows "paidOK (ses S')"
  unfolding paidOK_def
proof (intro allI conjI impI)
  fix i
  let ?u = "threads (ses S) ! n"
  from sch obtain t ts S1 where n: "n < length (threads (ses S))"
    and st: "threadStep E X ?u S = Some (t, ts, S1)"
    and S': "S' = S1\<lparr>ses := (ses S1)\<lparr>threads := (threads (ses S))[n := t] @ ts\<rparr>\<rparr>"
    by (rule schedule_SomeE)
  have hk: "heapOK (ses S)" and hf: "heapFlow (ses S)" and u: "?u \<in> set (threads (ses S))"
    and tok: "threadOK (ses S) ?u" and tf: "threadFlow (objs (ses S)) ?u"
    using side n by (simp_all add: sideS_def sessOK_def flowOK_def)
  note am = step_amounts(1,2) [OF st, of i]
  have w: "amounts i v2TypeWindowUpdate (sentBy (ses S')) = amounts i v2TypeWindowUpdate (sentBy (ses S)) + creditFor i ?u"
    using am by (simp add: S')
  obtain fs where fs: "sentBy (ses S') = sentBy (ses S) @ fs"
    using step_frames [OF st, of i] by (auto simp: frameStep_def S')
  have p: "int (amounts i v2TypeWindowUpdate (sentBy (ses S))) \<le> granted (objs (ses S) ! r)"
    if "map_of (streams (ses S)) i = Some r" "\<not> st_closed (objs (ses S) ! r)" for r
    using pd that by (simp add: paidOK_def)
  show "amounts i v2TypeOpenOK (sentBy (ses S')) \<le> nat v2InitialWindow * countFrames i v2TypeOpenOK (sentBy (ses S'))"
    using ack_counts [OF st, of i] pd am by (auto simp: paidOK_def S' intro: order_trans [OF add_le_mono1])
  show "0 < countFrames i v2TypeOpenOK (sentBy (ses S'))" if "0 < amounts i v2TypeWindowUpdate (sentBy (ses S'))"
  proof (cases "creditFor i ?u = 0")
    case True
    then show ?thesis using that pd fs w by (auto simp: paidOK_def)
  next
    case False
    then have "workerFor i ?u" by (cases ?u) (auto split: if_splits)
    then show ?thesis using ak u fs by (auto simp: ackedOK_def)
  qed
  fix r
  assume a: "map_of (streams (ses S')) i = Some r \<and> \<not> st_closed (objs (ses S') ! r)"
  show "int (amounts i v2TypeWindowUpdate (sentBy (ses S'))) \<le> granted (objs (ses S') ! r)"
  proof (cases "map_of (streams (ses S)) i = Some r")
    case False
    then have us: "?u = OpenerStore i r" using step_map [OF st] a by (auto simp: S')
    have "countFrames i v2TypeOpenOK (sentBy (ses S)) = 0" using opener_unacked [OF op po u] us by simp
    then have z: "amounts i v2TypeWindowUpdate (sentBy (ses S)) = 0" using pd by (auto simp: paidOK_def)
    have "0 \<le> granted (objs (ses S) ! r)" and r: "r < length (objs (ses S))"
      using tf tok us by (auto simp: flow_def threadOK_def)
    moreover have "granted (objs (ses S1) ! r) = granted (objs (ses S) ! r)"
      using us by (intro step_granted [OF st r]) auto
    ultimately show ?thesis using z w us by (simp add: S')
  next
    case True
    have r: "r < length (objs (ses S))" using heapOK_ref [OF hk True] .
    have id: "st_id (objs (ses S) ! r) = i" using hf map_of_SomeD [OF True] by (auto simp: heapFlow_def)
    have op': "\<not> st_closed (objs (ses S) ! r)" using step_closed [OF st r] a by (auto simp: S')
    note pr = p [OF True op']
    show ?thesis
    proof (cases "\<exists>c. ?u = PumpCredit i r c")
      case True
      then obtain c where us: "?u = PumpCredit i r c" by blast
      then have "0 < c" "c < 2 ^ 32" using tf by (simp_all add: v2_limits)
      then show ?thesis using pumpCredit_paid [of E X i r c S t ts S1] st r a pr w us by (simp add: S')
    next
      case False
      have nu: "?u \<noteq> PumpCredit j r c" for j c using tf False id by auto
      have "creditFor i ?u = 0"
      proof (cases "\<exists>x c. ?u = PumpCredit i x c")
        case True
        then obtain x c where us: "?u = PumpCredit i x c" by blast
        then have "x < length (objs (ses S))" "st_id (objs (ses S) ! x) = i" using tf tok by (simp_all add: threadOK_def)
        then have "x = r" using nth_eq_iff_index_eq [OF opens_distinct [OF op po], of x r] r id by simp
        then show ?thesis using nu us by blast
      next
        case none: False
        then show ?thesis by (cases ?u) auto
      qed
      then show ?thesis using pr w step_granted [OF st r nu] by (simp add: S')
    qed
  qed
qed

section \<open>What the upstream delivered\<close>

definition fetchOK :: "(sref \<Rightarrow> bytes) \<Rightarrow> v2Session \<Rightarrow> bool" where
  "fetchOK f s \<longleftrightarrow>
     (\<forall>r. if r < length (objs s) then f r = dataFrames (st_id (objs s ! r)) (sentBy s) else f r = [])"

lemma fetchOK_step:
  assumes side: "sideS E (ses S)" and fe: "fetchOK f (ses S)" and ak: "ackedOK (ses S)" and op: "opensOK g (ses S)"
    and po: "polite g (ses S)" and sch: "schedule E X n S = Some S'"
  shows "fetchOK (fetch X (threads (ses S) ! n) f) (ses S')"
proof -
  let ?u = "threads (ses S) ! n"
  from sch obtain t ts S1 where n: "n < length (threads (ses S))"
    and st: "threadStep E X ?u S = Some (t, ts, S1)"
    and S': "S' = S1\<lparr>ses := (ses S1)\<lparr>threads := (threads (ses S))[n := t] @ ts\<rparr>\<rparr>"
    by (rule schedule_SomeE)
  have u: "?u \<in> set (threads (ses S))" and tok: "threadOK (ses S) ?u" and tf: "threadFlow (objs (ses S)) ?u"
    using side n by (simp_all add: sideS_def sessOK_def flowOK_def)
  have ids: "map st_id (objs (ses S')) = map st_id (objs (ses S)) @ newIds X ?u" using step_ids(1) [OF st] by (simp add: S')
  have len: "length (objs (ses S')) = length (objs (ses S)) + length (newIds X ?u)" using arg_cong [OF ids, of length] by simp
  have data: "dataFrames j (sentBy (ses S')) = dataFrames j (sentBy (ses S)) @ fetchFor X j ?u" for j
    using step_amounts(3) [OF st] by (simp add: S')
  have new: "fetch X ?u f r = f r @ (case ?u of UpRead j x \<Rightarrow> if x = r then take (maxPlaintextSize - v2FrameHeader) (rdata X) else [] | _ \<Rightarrow> [])" for r
    by (cases ?u) auto
  show ?thesis
    unfolding fetchOK_def
  proof (intro allI)
    fix r
    show "if r < length (objs (ses S')) then fetch X ?u f r = dataFrames (st_id (objs (ses S') ! r)) (sentBy (ses S'))
      else fetch X ?u f r = []"
    proof (cases "r < length (objs (ses S))")
      case True
      then have id: "st_id (objs (ses S') ! r) = st_id (objs (ses S) ! r)"
        using arg_cong [OF ids, of "\<lambda>xs. xs ! r"] len by (simp add: nth_append)
      have "x = r \<longleftrightarrow> j = st_id (objs (ses S) ! r)" if "?u = UpRead j x" for j x
        using nth_eq_iff_index_eq [OF opens_distinct [OF op po], of x r] True tf tok that by (auto simp: threadOK_def)
      then have "fetch X ?u f r = f r @ fetchFor X (st_id (objs (ses S) ! r)) ?u" unfolding new by (cases ?u) auto
      then show ?thesis using True fe len data id by (simp add: fetchOK_def)
    next
      case False
      then have "fetch X ?u f r = f r" using tok unfolding new by (cases ?u) (auto simp: threadOK_def)
      then have f: "fetch X ?u f r = []" using fe False by (simp add: fetchOK_def)
      show ?thesis
      proof (cases "r < length (objs (ses S'))")
        case True
        then obtain i a where us: "?u = OpenerDial i a" "newIds X ?u = [i]"
          using False len by (cases ?u) (auto simp: newIds_def split: if_splits)
        then have "r = length (objs (ses S))" using True False len by simp
        then have "st_id (objs (ses S') ! r) = i"
          using arg_cong [OF ids, of "\<lambda>xs. xs ! r"] True us by (simp add: nth_append)
        moreover have "countFrames i v2TypeOpenOK (sentBy (ses S)) = 0" using opener_unacked [OF op po u] us by simp
        then have "dataFrames i (sentBy (ses S)) = []" using ak by (intro dataFrames_none) (auto simp: ackedOK_def)
        ultimately show ?thesis using f data us by simp
      qed (use f in simp)
    qed
  qed
qed

section \<open>The payload of OPEN_OK\<close>

definition acksOK :: "v2Session \<Rightarrow> bool" where
  "acksOK s \<longleftrightarrow> (\<forall>pt\<in>set (sentBy s). grantsWindow pt)"

lemma acksOK_writeSF [simp]:
  assumes "t = v2TypeOpenOK \<longrightarrow> p = putBE 4 (nat v2InitialWindow)" and "acksOK (ses S)"
  shows "acksOK (ses (snd (writeSF E X i t p S)))"
  using assms unfolding acksOK_def sent_writeSF by auto

lemma acksOK_same [simp]:
  "acksOK (ses (releaseOpen S)) = acksOK (ses S)" "acksOK (ses (closeUpstream r S)) = acksOK (ses S)"
  "acksOK (ses (dequeue r S)) = acksOK (ses S)" "acksOK (ses (upstreamWrite r bs S)) = acksOK (ses S)"
  "acksOK (ses (noteCredit r n S)) = acksOK (ses S)" "acksOK (ses (closeStream i S)) = acksOK (ses S)"
  "acksOK (ses (closeAllEntry i S)) = acksOK (ses S)" "acksOK (ses (closeAllStart S)) = acksOK (ses S)"
  "acksOK (ses (enqueue r p S)) = acksOK (ses S)" "acksOK (ses (received rd now S)) = acksOK (ses S)"
  "acksOK (s\<lparr>openSem := k\<rparr>) = acksOK s" "acksOK (s\<lparr>objs := h\<rparr>) = acksOK s" "acksOK (s\<lparr>streams := m\<rparr>) = acksOK s"
  "acksOK (s\<lparr>cin := rd\<rparr>) = acksOK s" "acksOK (s\<lparr>threads := ths\<rparr>) = acksOK s" "acksOK (s\<lparr>registered := b\<rparr>) = acksOK s"
  "acksOK (closeConn s) = acksOK s"
  by (simp_all add: acksOK_def)

lemma acksOK_step:
  assumes "acksOK (ses S)" and sch: "schedule E X n S = Some S'"
  shows "acksOK (ses S')"
proof -
  let ?u = "threads (ses S) ! n"
  from sch obtain t ts S1 where st: "threadStep E X ?u S = Some (t, ts, S1)"
    and S': "S' = S1\<lparr>ses := (ses S1)\<lparr>threads := (threads (ses S))[n := t] @ ts\<rparr>\<rparr>"
    by (rule schedule_SomeE)
  have "acksOK (ses S1)"
  proof (cases "?u = RlRead")
    case True
    with st have "threadStep E X RlRead S = Some (t, ts, S1)" by simp
    then show ?thesis
      using assms(1) by (cases rule: RlRead_cases) (auto simp: dispatchFrame_def v2_types split: if_splits option.splits)
  next
    case False
    then show ?thesis
      using assms(1) st
      by (cases ?u; auto simp: threadStep_def Let_def case_prod_beta v2_types split: if_splits list.splits sum.splits)
  qed
  then show ?thesis by (simp add: S')
qed

section \<open>The session's side of the tunnel\<close>

definition srvInv :: "bytes list \<Rightarrow> (sref \<Rightarrow> bytes) \<Rightarrow> v2Session \<Rightarrow> bool" where
  "srvInv g f s \<longleftrightarrow>
     opensOK g s \<and> ackedOK s \<and> acceptOK g (hd (threads s)) s \<and> paidOK s \<and> fetchOK f s \<and> acksOK s"

lemma srvInv_new: "srvInv [] (\<lambda>_. []) (newSession i rd wr kc ks now)"
  by (simp add: srvInv_def newSession_def opensOK_def ackedOK_def acceptOK_def paidOK_def fetchOK_def acksOK_def)

lemma srvInv_step:
  assumes "sideS E (ses S)" and inv: "srvInv g f (ses S)"
    and po: "polite (g @ readNow E (threads (ses S) ! n) (ses S)) (ses S)" and sch: "schedule E X n S = Some S'"
  shows "srvInv (g @ readNow E (threads (ses S) ! n) (ses S)) (fetch X (threads (ses S) ! n) f) (ses S')"
proof -
  have po': "polite g (ses S)" using po by (rule polite_before)
  have i: "opensOK g (ses S)" "ackedOK (ses S)" "acceptOK g (hd (threads (ses S))) (ses S)" "paidOK (ses S)" "fetchOK f (ses S)"
    "acksOK (ses S)"
    using inv by (simp_all add: srvInv_def)
  show ?thesis
    unfolding srvInv_def
    using opensOK_step [OF i(1) sch] ackedOK_step [OF i(2,1) sch po] acceptOK_step [OF assms(1) i(3,1) po' sch]
      paidOK_step [OF assms(1) i(4,2,1) po' sch] fetchOK_step [OF assms(1) i(5,2,1) po' sch]
      acksOK_step [OF i(6) sch] by blast
qed

lemma srvInv_conn: "srvInv g f (closeConn s) = srvInv g f s" "srvInv g f (s\<lparr>cin := rd\<rparr>) = srvInv g f s"
  by (simp_all add: srvInv_def opensOK_def ackedOK_def acceptOK_def paidOK_def fetchOK_def)

end
