(* ===== verification/Tunnel_Client.thy ===== *)
theory Tunnel_Client
  imports Tunnel
begin

text \<open>
  The client seen from the other end of its connection: it opens every stream once, sends data only
  after OPEN_OK and within the window it was given, and what its streams receive is the data sent to
  them. The frames it has read are a parameter \<open>g\<close>; of the server it is assumed that OPEN_OK comes at most
  once per stream, with the initial window, and no data for streams that do not exist.
\<close>

section \<open>Invariants of the session\<close>

abbreviation sentT :: "tcsession \<Rightarrow> bytes list" where
  "sentT s \<equiv> map snd (tsealed s)"

text \<open>A stream was acknowledged before it is used, closed by the server or with the session, and
  its limit is what the server has granted.\<close>

definition streamC :: "bytes list \<Rightarrow> bool \<Rightarrow> cstream \<Rightarrow> bool" where
  "streamC g tcl st \<longleftrightarrow>
     (openOKc st \<or> acquired st \<noteq> 0 \<longrightarrow> 0 < countFrames (cst_id st) v2TypeOpenOK g \<and> flowControlled st) \<and>
     (cst_closed st \<longrightarrow> 0 < countFrames (cst_id st) v2TypeClose g \<or> tcl) \<and>
     wlimit st \<le> int (amounts (cst_id st) v2TypeOpenOK g + amounts (cst_id st) v2TypeWindowUpdate g)"

definition linkedC :: "tcsession \<Rightarrow> bool" where
  "linkedC s \<longleftrightarrow>
     (\<forall>i r. map_of (tstreams s) i = Some r \<longrightarrow> r < length (tobjs s) \<and> cst_id (tobjs s ! r) = i) \<and>
     (\<forall>i. countFrames i v2TypeOpen (sentT s) \<le> count_list (map cst_id (tobjs s)) i)"

definition dataC :: "bytes list \<Rightarrow> tcsession \<Rightarrow> bool" where
  "dataC g s \<longleftrightarrow> (\<forall>i. 0 < countFrames i v2TypeData (sentT s) \<longrightarrow> 0 < countFrames i v2TypeOpenOK g)"

fun delivering :: "nat \<Rightarrow> cthread \<Rightarrow> bool" where
  "delivering r (CDeliver r' p) = (r' = r)"
| "delivering r _ = False"

text \<open>With the read loop at \<open>t\<close>, the data that has arrived on a stream is the first part of the data read
  for it, and all of it while the stream is open and nothing is being delivered to it.\<close>

definition deliverC :: "bytes list \<Rightarrow> cthread \<Rightarrow> tcsession \<Rightarrow> bool" where
  "deliverC g t s \<longleftrightarrow>
     (\<forall>r < length (tobjs s). let st = tobjs s ! r in
        prefix (arrived st) (dataFrames (cst_id st) g) \<and>
        (map_of (tstreams s) (cst_id st) = Some r \<and> \<not> cst_closed st \<and> \<not> delivering r t \<longrightarrow>
           arrived st = dataFrames (cst_id st) g)) \<and>
     (\<forall>r p. t = CDeliver r p \<longrightarrow> r < length (tobjs s) \<and>
        (\<not> cst_closed (tobjs s ! r) \<longrightarrow> dataFrames (cst_id (tobjs s ! r)) g = arrived (tobjs s ! r) @ p))"

definition cliS :: "bytes list \<Rightarrow> cthread \<Rightarrow> tcsession \<Rightarrow> bool" where
  "cliS g t s \<longleftrightarrow>
     linkedC s \<and> dataC g s \<and> (\<forall>r < length (tobjs s). streamC g (tclosed s) (tobjs s ! r)) \<and> deliverC g t s"

lemma cliS_D:
  assumes "cliS g t s"
  shows "map_of (tstreams s) i = Some r \<Longrightarrow> r < length (tobjs s) \<and> cst_id (tobjs s ! r) = i"
    and "countFrames i v2TypeOpen (sentT s) \<le> count_list (map cst_id (tobjs s)) i"
    and "0 < countFrames i v2TypeData (sentT s) \<Longrightarrow> 0 < countFrames i v2TypeOpenOK g"
    and "r < length (tobjs s) \<Longrightarrow> streamC g (tclosed s) (tobjs s ! r)"
    and "r < length (tobjs s) \<Longrightarrow> prefix (arrived (tobjs s ! r)) (dataFrames (cst_id (tobjs s ! r)) g)"
    and "r < length (tobjs s) \<Longrightarrow> map_of (tstreams s) (cst_id (tobjs s ! r)) = Some r \<Longrightarrow> \<not> cst_closed (tobjs s ! r) \<Longrightarrow>
           \<not> delivering r t \<Longrightarrow> arrived (tobjs s ! r) = dataFrames (cst_id (tobjs s ! r)) g"
    and "t = CDeliver r p \<Longrightarrow> r < length (tobjs s)"
    and "t = CDeliver r p \<Longrightarrow> \<not> cst_closed (tobjs s ! r) \<Longrightarrow>
           dataFrames (cst_id (tobjs s ! r)) g = arrived (tobjs s ! r) @ p"
  using assms unfolding cliS_def linkedC_def dataC_def deliverC_def Let_def by blast+

lemma cliS_I:
  assumes "\<And>i r. map_of (tstreams s) i = Some r \<Longrightarrow> r < length (tobjs s) \<and> cst_id (tobjs s ! r) = i"
    and "\<And>i. countFrames i v2TypeOpen (sentT s) \<le> count_list (map cst_id (tobjs s)) i"
    and "\<And>i. 0 < countFrames i v2TypeData (sentT s) \<Longrightarrow> 0 < countFrames i v2TypeOpenOK g"
    and "\<And>r. r < length (tobjs s) \<Longrightarrow> streamC g (tclosed s) (tobjs s ! r)"
    and "\<And>r. r < length (tobjs s) \<Longrightarrow> prefix (arrived (tobjs s ! r)) (dataFrames (cst_id (tobjs s ! r)) g)"
    and "\<And>r. r < length (tobjs s) \<Longrightarrow> map_of (tstreams s) (cst_id (tobjs s ! r)) = Some r \<Longrightarrow> \<not> cst_closed (tobjs s ! r) \<Longrightarrow>
           \<not> delivering r t \<Longrightarrow> arrived (tobjs s ! r) = dataFrames (cst_id (tobjs s ! r)) g"
    and "\<And>r p. t = CDeliver r p \<Longrightarrow> r < length (tobjs s)"
    and "\<And>r p. t = CDeliver r p \<Longrightarrow> \<not> cst_closed (tobjs s ! r) \<Longrightarrow>
           dataFrames (cst_id (tobjs s ! r)) g = arrived (tobjs s ! r) @ p"
  shows "cliS g t s"
  using assms unfolding cliS_def linkedC_def dataC_def deliverC_def Let_def by blast

section \<open>Calm steps\<close>

text \<open>Steps that open no stream, send no data, receive nothing and grant nothing.\<close>

definition quiet :: "bytes list \<Rightarrow> bool" where
  "quiet fs \<longleftrightarrow> (\<forall>i. countFrames i v2TypeOpen fs = 0 \<and> countFrames i v2TypeData fs = 0)"

definition calmC :: "tcsession \<Rightarrow> tcsession \<Rightarrow> bool" where
  "calmC s s' \<longleftrightarrow>
     length (tobjs s') = length (tobjs s) \<and>
     (\<forall>r < length (tobjs s). cst_id (tobjs s' ! r) = cst_id (tobjs s ! r) \<and> arrived (tobjs s' ! r) = arrived (tobjs s ! r) \<and>
        (cst_closed (tobjs s ! r) \<longrightarrow> cst_closed (tobjs s' ! r)) \<and>
        (flowControlled (tobjs s ! r) \<longrightarrow> flowControlled (tobjs s' ! r)) \<and>
        (\<forall>g. streamC g (tclosed s) (tobjs s ! r) \<longrightarrow> streamC g (tclosed s') (tobjs s' ! r))) \<and>
     (\<forall>i r. map_of (tstreams s') i = Some r \<longrightarrow> map_of (tstreams s) i = Some r) \<and>
     (\<exists>fs. sentT s' = sentT s @ fs \<and> quiet fs)"

lemma calmC_refl: "calmC s s"
  by (auto simp: calmC_def quiet_def)

lemma calmC_D:
  assumes "calmC s s'"
  shows "length (tobjs s') = length (tobjs s)"
    and "r < length (tobjs s) \<Longrightarrow> cst_id (tobjs s' ! r) = cst_id (tobjs s ! r)"
    and "r < length (tobjs s) \<Longrightarrow> arrived (tobjs s' ! r) = arrived (tobjs s ! r)"
    and "r < length (tobjs s) \<Longrightarrow> cst_closed (tobjs s ! r) \<Longrightarrow> cst_closed (tobjs s' ! r)"
    and "r < length (tobjs s) \<Longrightarrow> flowControlled (tobjs s ! r) \<Longrightarrow> flowControlled (tobjs s' ! r)"
    and "r < length (tobjs s) \<Longrightarrow> streamC g (tclosed s) (tobjs s ! r) \<Longrightarrow> streamC g (tclosed s') (tobjs s' ! r)"
    and "map_of (tstreams s') i = Some r \<Longrightarrow> map_of (tstreams s) i = Some r"
    and "countFrames i v2TypeOpen (sentT s') = countFrames i v2TypeOpen (sentT s)"
    and "countFrames i v2TypeData (sentT s') = countFrames i v2TypeData (sentT s)"
proof -
  show "countFrames i v2TypeOpen (sentT s') = countFrames i v2TypeOpen (sentT s)"
    and "countFrames i v2TypeData (sentT s') = countFrames i v2TypeData (sentT s)"
    using assms by (auto simp: calmC_def quiet_def)
qed (use assms in \<open>unfold calmC_def, blast+\<close>)

lemma calmC_ids: "calmC s s' \<Longrightarrow> map cst_id (tobjs s') = map cst_id (tobjs s)"
  by (intro nth_equalityI) (simp_all add: calmC_D)

lemma cliS_calm:
  assumes inv: "cliS g t s" and c: "calmC s s'"
  shows "cliS g t s'"
proof (rule cliS_I)
  fix i r assume "map_of (tstreams s') i = Some r"
  then have "map_of (tstreams s) i = Some r" by (rule calmC_D(7) [OF c])
  then show "r < length (tobjs s') \<and> cst_id (tobjs s' ! r) = i" using cliS_D(1) [OF inv] calmC_D(1,2) [OF c] by auto
next
  fix i
  show "countFrames i v2TypeOpen (sentT s') \<le> count_list (map cst_id (tobjs s')) i"
    using cliS_D(2) [OF inv] calmC_D(8) [OF c] calmC_ids [OF c] by simp
  show "0 < countFrames i v2TypeOpenOK g" if "0 < countFrames i v2TypeData (sentT s')"
    using cliS_D(3) [OF inv] calmC_D(9) [OF c] that by simp
next
  fix r assume "r < length (tobjs s')"
  then have r: "r < length (tobjs s)" using calmC_D(1) [OF c] by simp
  note d = calmC_D(2-4) [OF c r]
  show "streamC g (tclosed s') (tobjs s' ! r)" using cliS_D(4) [OF inv r] calmC_D(6) [OF c r] by blast
  show "prefix (arrived (tobjs s' ! r)) (dataFrames (cst_id (tobjs s' ! r)) g)" using cliS_D(5) [OF inv r] d by simp
  show "arrived (tobjs s' ! r) = dataFrames (cst_id (tobjs s' ! r)) g"
    if "map_of (tstreams s') (cst_id (tobjs s' ! r)) = Some r" "\<not> cst_closed (tobjs s' ! r)" "\<not> delivering r t"
    using cliS_D(6) [OF inv r] calmC_D(7) [OF c that(1)] that d by auto
next
  fix r p assume t: "t = CDeliver r p"
  have r: "r < length (tobjs s)" by (rule cliS_D(7) [OF inv t])
  then show "r < length (tobjs s')" using calmC_D(1) [OF c] by simp
  show "dataFrames (cst_id (tobjs s' ! r)) g = arrived (tobjs s' ! r) @ p" if "\<not> cst_closed (tobjs s' ! r)"
    using cliS_D(8) [OF inv t] calmC_D(2-4) [OF c r] that by auto
qed

text \<open>Changing one stream calmly.\<close>

lemma calmC_onStream:
  assumes "\<And>st. cst_id (f st) = cst_id st \<and> arrived (f st) = arrived st \<and> (cst_closed st \<longrightarrow> cst_closed (f st)) \<and>
      (flowControlled st \<longrightarrow> flowControlled (f st)) \<and> (\<forall>g. streamC g (tclosed s) st \<longrightarrow> streamC g (tclosed s) (f st))"
  shows "calmC s (onStream r f s)"
proof -
  have "P (tobjs s ! k) ((tobjs s)[r := f (tobjs s ! r)] ! k)"
    if "\<And>st. P st st" "\<And>st. P st (f st)" "k < length (tobjs s)" for P k
    using that by (cases "k = r") auto
  from this [of "\<lambda>st st'. cst_id st' = cst_id st \<and> arrived st' = arrived st \<and> (cst_closed st \<longrightarrow> cst_closed st') \<and>
      (flowControlled st \<longrightarrow> flowControlled st') \<and> (\<forall>g. streamC g (tclosed s) st \<longrightarrow> streamC g (tclosed s) st')"]
  have "cst_id ((tobjs s)[r := f (tobjs s ! r)] ! k) = cst_id (tobjs s ! k) \<and>
      arrived ((tobjs s)[r := f (tobjs s ! r)] ! k) = arrived (tobjs s ! k) \<and>
      (cst_closed (tobjs s ! k) \<longrightarrow> cst_closed ((tobjs s)[r := f (tobjs s ! r)] ! k)) \<and>
      (flowControlled (tobjs s ! k) \<longrightarrow> flowControlled ((tobjs s)[r := f (tobjs s ! r)] ! k)) \<and>
      (\<forall>g. streamC g (tclosed s) (tobjs s ! k) \<longrightarrow> streamC g (tclosed s) ((tobjs s)[r := f (tobjs s ! r)] ! k))"
    if "k < length (tobjs s)" for k
    using assms that by blast
  then show ?thesis by (simp add: calmC_def onStream_def) (simp add: quiet_def)
qed

text \<open>What a write adds.\<close>

lemma tc_write_sent:
  "sentT (snd (tc_writeStreamFrame C R i t p s)) =
     sentT s @ (if fst (tc_writeStreamFrame C R i t p s) then [streamFrame i t p] else [])"
  "fst (tc_writeStreamFrame C R i t p s) \<Longrightarrow> length p \<le> maxPlaintextSize - v2FrameHeader"
  by (auto simp: tc_writeStreamFrame_def tc_streamFrame_eq Let_def case_prod_beta tc_consts frame_consts v2FrameHeader_def
      split: if_splits)

lemma tc_write_same:
  "tobjs (snd (tc_writeStreamFrame C R i t p s)) = tobjs s" "tclosed (snd (tc_writeStreamFrame C R i t p s)) = tclosed s"
  "tstreams (snd (tc_writeStreamFrame C R i t p s)) = tstreams s"
  "tseqRead (snd (tc_writeStreamFrame C R i t p s)) = tseqRead s"
  by (simp_all add: tc_writeStreamFrame_def Let_def case_prod_beta)

lemma calmC_write:
  assumes "t \<noteq> v2TypeOpen" and "t \<noteq> v2TypeData"
  shows "calmC s (snd (tc_writeStreamFrame C R i t p s))"
  using assms tc_write_sent [of C R i t p s] by (auto simp: calmC_def tc_write_same quiet_def)

lemma calmC_unlink: "calmC s (s\<lparr>tstreams := AList.delete i (tstreams s)\<rparr>)"
  by (auto simp: calmC_def quiet_def map_of_delete split: if_splits)

lemma calmC_trans:
  assumes a: "calmC s s1" and b: "calmC s1 s2"
  shows "calmC s s2"
proof -
  have l: "length (tobjs s1) = length (tobjs s)" by (rule calmC_D(1) [OF a])
  have "cst_id (tobjs s2 ! r) = cst_id (tobjs s ! r) \<and> arrived (tobjs s2 ! r) = arrived (tobjs s ! r) \<and>
      (cst_closed (tobjs s ! r) \<longrightarrow> cst_closed (tobjs s2 ! r)) \<and> (flowControlled (tobjs s ! r) \<longrightarrow> flowControlled (tobjs s2 ! r)) \<and>
      (\<forall>g. streamC g (tclosed s) (tobjs s ! r) \<longrightarrow> streamC g (tclosed s2) (tobjs s2 ! r))" if r: "r < length (tobjs s)" for r
    using calmC_D(2-6) [OF a r] calmC_D(2-6) [OF b, of r] r l by auto
  moreover have "\<forall>i r. map_of (tstreams s2) i = Some r \<longrightarrow> map_of (tstreams s) i = Some r"
    using calmC_D(7) [OF a] calmC_D(7) [OF b] by blast
  moreover have "\<exists>fs. sentT s2 = sentT s @ fs \<and> quiet fs"
  proof -
    obtain fs gs where "sentT s1 = sentT s @ fs" "quiet fs" "sentT s2 = sentT s1 @ gs" "quiet gs"
      using a b by (auto simp: calmC_def)
    then show ?thesis by (intro exI [of _ "fs @ gs"]) (simp add: quiet_def)
  qed
  ultimately show ?thesis using l calmC_D(1) [OF b] by (simp add: calmC_def)
qed

text \<open>Closing happens on CLOSE or when the session is closed.\<close>

lemma calmC_markClosed: "tclosed s \<Longrightarrow> calmC s (snd (markClosed r s))"
  by (auto simp: markClosed_def calmC_refl streamC_def intro!: calmC_onStream)

lemma calmC_openSelect:
  assumes "openSelect ch i r s = Some (b, s')"
  shows "calmC s s'"
proof -
  have e: "calmC s (onStream r (\<lambda>st. st\<lparr>openErrc := None\<rparr>) (s\<lparr>tstreams := AList.delete i (tstreams s)\<rparr>))"
    by (rule calmC_trans [OF calmC_unlink calmC_onStream]) (simp add: streamC_def)
  have f: "calmC s (onStream r (\<lambda>st. st\<lparr>openOKc := False\<rparr>) s)" by (rule calmC_onStream) (auto simp: streamC_def)
  show ?thesis
    using assms e f calmC_unlink by (cases ch) (auto simp: openSelect_def Let_def split: if_splits)
qed

lemma takePending_streamC:
  "streamC g tcl (snd (takePending n st)) = streamC g tcl st" "arrived (snd (takePending n st)) = arrived st"
  "flowControlled (snd (takePending n st)) = flowControlled st"
  by (simp_all add: takePending_def Let_def streamC_def)

lemma calmC_readStream:
  assumes "readStream r n s = Some (x, s')"
  shows "calmC s s'"
proof -
  have a: "calmC s (onStream r (\<lambda>_. snd (takePending n st)) s)"
    if "st = tobjs s ! r \<or> (\<exists>c cs. st = (tobjs s ! r)\<lparr>incoming := cs, pendingChunk := Some c, pendingPos := 0\<rparr>)" for st
  proof -
    have "onStream r (\<lambda>_. snd (takePending n st)) s = onStream r (\<lambda>y. if y = tobjs s ! r then snd (takePending n st) else y) s"
      by (simp add: onStream_def)
    moreover have "calmC s (onStream r (\<lambda>y. if y = tobjs s ! r then snd (takePending n st) else y) s)"
      using that by (intro calmC_onStream) (auto simp: takePending_same takePending_streamC, auto simp: streamC_def)
    ultimately show ?thesis by simp
  qed
  have "calmC s (onStream r (\<lambda>st. snd (takePending n st)) s)"
    using a [of "tobjs s ! r"] by (simp add: onStream_def)
  then show ?thesis
    using assms a by (auto simp: readStream_def Let_def calmC_refl split: option.splits list.splits if_splits)
qed

section \<open>The read loop\<close>

lemma streamC_more: "streamC g tcl st \<Longrightarrow> streamC (g @ h) tcl st"
  by (auto simp: streamC_def)

text \<open>A frame is read: nothing changes for the streams, if it carries no data or its stream is gone.\<close>

lemma cliS_read:
  assumes inv: "cliS g CLoop s" and d: "\<And>i. 0 < countFrames i v2TypeData [pt] \<Longrightarrow> map_of (tstreams s) i = None"
    and s': "tobjs s' = tobjs s" "tstreams s' = tstreams s" "tsealed s' = tsealed s" "tclosed s' = tclosed s"
  shows "cliS (g @ [pt]) CLoop s'"
proof (rule cliS_I)
  fix i r assume "map_of (tstreams s') i = Some r"
  then show "r < length (tobjs s') \<and> cst_id (tobjs s' ! r) = i" using cliS_D(1) [OF inv] s' by simp
next
  fix i
  show "countFrames i v2TypeOpen (sentT s') \<le> count_list (map cst_id (tobjs s')) i" using cliS_D(2) [OF inv] s' by simp
  show "0 < countFrames i v2TypeOpenOK (g @ [pt])" if "0 < countFrames i v2TypeData (sentT s')"
    using cliS_D(3) [OF inv] that s' by simp
next
  fix r assume "r < length (tobjs s')"
  then have r: "r < length (tobjs s)" using s' by simp
  show "streamC (g @ [pt]) (tclosed s') (tobjs s' ! r)" using cliS_D(4) [OF inv r] s' by (simp add: streamC_more)
  show "prefix (arrived (tobjs s' ! r)) (dataFrames (cst_id (tobjs s' ! r)) (g @ [pt]))"
    using cliS_D(5) [OF inv r] s' by (simp add: prefix_more)
  assume a: "map_of (tstreams s') (cst_id (tobjs s' ! r)) = Some r" "\<not> cst_closed (tobjs s' ! r)"
  then have "countFrames (cst_id (tobjs s ! r)) v2TypeData [pt] = 0" using d [of "cst_id (tobjs s ! r)"] s' by auto
  then have "dataFrames (cst_id (tobjs s ! r)) [pt] = []" by (rule dataFrames_none)
  then show "arrived (tobjs s' ! r) = dataFrames (cst_id (tobjs s' ! r)) (g @ [pt])"
    using cliS_D(6) [OF inv r] a s' by simp
qed simp_all

text \<open>Then one stream changes.\<close>

lemma cliS_onStream:
  assumes inv: "cliS g t s" and r: "r < length (tobjs s)"
    and f: "cst_id (f (tobjs s ! r)) = cst_id (tobjs s ! r)" "arrived (f (tobjs s ! r)) = arrived (tobjs s ! r)"
      "cst_closed (tobjs s ! r) \<longrightarrow> cst_closed (f (tobjs s ! r))" "streamC g (tclosed s) (f (tobjs s ! r))"
  shows "cliS g t (onStream r f s)"
proof (rule cliS_I)
  have ids: "map cst_id (tobjs (onStream r f s)) = map cst_id (tobjs s)"
    using r f(1) by (simp add: onStream_def map_update list_update_same_conv)
  have id: "cst_id (tobjs (onStream r f s) ! k) = cst_id (tobjs s ! k)" "arrived (tobjs (onStream r f s) ! k) = arrived (tobjs s ! k)"
    "cst_closed (tobjs s ! k) \<Longrightarrow> cst_closed (tobjs (onStream r f s) ! k)" for k
    using r f(1-3) by (cases "k = r"; simp add: onStream_def)+
  note s = cliS_D [OF inv]
  show "k < length (tobjs (onStream r f s)) \<and> cst_id (tobjs (onStream r f s) ! k) = i"
    if "map_of (tstreams (onStream r f s)) i = Some k" for i k
    using s(1) that id(1) by (simp add: onStream_def)
  show "countFrames i v2TypeOpen (sentT (onStream r f s)) \<le> count_list (map cst_id (tobjs (onStream r f s))) i" for i
    unfolding ids using s(2) by (simp add: onStream_def)
  show "0 < countFrames i v2TypeOpenOK g" if "0 < countFrames i v2TypeData (sentT (onStream r f s))" for i
    using s(3) that by (simp add: onStream_def)
  fix k
  show "streamC g (tclosed (onStream r f s)) (tobjs (onStream r f s) ! k)" if "k < length (tobjs (onStream r f s))"
    using s(4) [of k] f(4) that r by (cases "k = r") (simp_all add: onStream_def)
  show "prefix (arrived (tobjs (onStream r f s) ! k)) (dataFrames (cst_id (tobjs (onStream r f s) ! k)) g)"
    if "k < length (tobjs (onStream r f s))"
    using s(5) [of k] that unfolding id by (simp add: onStream_def)
  show "arrived (tobjs (onStream r f s) ! k) = dataFrames (cst_id (tobjs (onStream r f s) ! k)) g"
    if "k < length (tobjs (onStream r f s))" "map_of (tstreams (onStream r f s)) (cst_id (tobjs (onStream r f s) ! k)) = Some k"
      "\<not> cst_closed (tobjs (onStream r f s) ! k)" "\<not> delivering k t"
    using s(6) [of k] that id(3) [of k] unfolding id by (auto simp: onStream_def)
  show "k < length (tobjs (onStream r f s))" if "t = CDeliver k p" for p
    using s(7) that by (simp add: onStream_def)
  show "dataFrames (cst_id (tobjs (onStream r f s) ! k)) g = arrived (tobjs (onStream r f s) ! k) @ p"
    if "t = CDeliver k p" "\<not> cst_closed (tobjs (onStream r f s) ! k)" for p
    using s(8) that id(3) [of k] unfolding id by blast
qed

text \<open>What is assumed of the frames read: OPEN_OK once, with the initial window.\<close>

definition courteous :: "bytes list \<Rightarrow> bool" where
  "courteous g \<longleftrightarrow> (\<forall>i. countFrames i v2TypeOpenOK g \<le> 1) \<and> (\<forall>pt\<in>set g. grantsWindow pt)"

lemma types_eq:
  "typeOpenOK = v2TypeOpenOK" "typeClose = v2TypeClose" "typeWindowUpdate = v2TypeWindowUpdate" "typeOpen = v2TypeOpen"
  "typePing = v2TypePing" "typePong = v2TypePong" "typeOpenErr = v2TypeOpenErr"
  by (simp_all add: tc_types v2_types)

lemma dispatch_openOK:
  assumes inv: "cliS g CLoop s" and pt: "splitFrame pt = Some (i, v2TypeOpenOK, p)" and co: "courteous (g @ [pt])"
    and r: "map_of (tstreams s) i = Some r"
  shows "cliS (g @ [pt]) CLoop (onStream r (\<lambda>st.
           let st1 = (if 4 \<le> length p
                      then st\<lparr>sendWindow := int (getBE (take 4 p)), flowControlled := True, wlimit := acquired st + int (getBE (take 4 p))\<rparr>
                      else st)
           in st1\<lparr>openOKc := True\<rparr>) s)"
proof -
  have p: "4 \<le> length p" using co pt by (simp add: courteous_def grantsWindow_def)
  have rl: "r < length (tobjs s)" and id: "cst_id (tobjs s ! r) = i" using cliS_D(1) [OF inv r] by auto
  have c: "countFrames i v2TypeOpenOK (g @ [pt]) = Suc (countFrames i v2TypeOpenOK g)" using pt by (simp add: isFrame_split)
  then have "countFrames i v2TypeOpenOK g = 0" using co by (auto simp: courteous_def dest: spec [of _ i])
  then have "acquired (tobjs s ! r) = 0" using cliS_D(4) [OF inv rl] id by (auto simp: streamC_def)
  moreover have "int (getBE (take 4 p)) \<le> int (amounts i v2TypeOpenOK (g @ [pt]))" using pt p by (simp add: amountIn_def)
  moreover have "cst_closed (tobjs s ! r) \<longrightarrow> 0 < countFrames i v2TypeClose (g @ [pt]) \<or> tclosed s"
    using streamC_more [OF cliS_D(4) [OF inv rl]] id by (auto simp: streamC_def)
  moreover have "cliS (g @ [pt]) CLoop s"
    by (rule cliS_read [OF inv]) (use pt in \<open>auto simp: isFrame_split v2_types split: if_splits\<close>)
  ultimately show ?thesis
    using p c id by (intro cliS_onStream [OF _ rl]) (auto simp: streamC_def)
qed

lemma dispatch_window:
  assumes inv: "cliS g CLoop s" and pt: "splitFrame pt = Some (i, v2TypeWindowUpdate, p)" and p: "4 \<le> length p"
    and r: "map_of (tstreams s) i = Some r"
  shows "cliS (g @ [pt]) CLoop (onStream r (\<lambda>st. st\<lparr>sendWindow := sendWindow st + int (getBE (take 4 p)),
           wlimit := wlimit st + int (getBE (take 4 p))\<rparr>) s)"
proof -
  have rl: "r < length (tobjs s)" and id: "cst_id (tobjs s ! r) = i" using cliS_D(1) [OF inv r] by auto
  have "cliS (g @ [pt]) CLoop s"
    by (rule cliS_read [OF inv]) (use pt in \<open>auto simp: isFrame_split v2_types split: if_splits\<close>)
  then show ?thesis
    using cliS_D(4) [OF inv rl] pt p id by (intro cliS_onStream [OF _ rl]) (auto simp: streamC_def amountIn_def)
qed

lemma dispatch_close:
  assumes inv: "cliS g CLoop s" and pt: "splitFrame pt = Some (i, v2TypeClose, p)" and r: "map_of (tstreams s) i = Some r"
  shows "cliS (g @ [pt]) CLoop ((snd (markClosed r s))\<lparr>tstreams := AList.delete i (tstreams s)\<rparr>)"
proof -
  have rl: "r < length (tobjs s)" and id: "cst_id (tobjs s ! r) = i" using cliS_D(1) [OF inv r] by auto
  have rd: "cliS (g @ [pt]) CLoop s"
    by (rule cliS_read [OF inv]) (use pt in \<open>auto simp: isFrame_split v2_types split: if_splits\<close>)
  have "streamC (g @ [pt]) (tclosed s) ((tobjs s ! r)\<lparr>cst_closed := True\<rparr>)"
    using cliS_D(4) [OF rd rl] pt id by (auto simp: streamC_def isFrame_split)
  then have "cliS (g @ [pt]) CLoop (onStream r (\<lambda>st. st\<lparr>cst_closed := True\<rparr>) s)"
    by (intro cliS_onStream [OF rd rl]) simp_all
  then have "cliS (g @ [pt]) CLoop (snd (markClosed r s))" using rd by (simp add: markClosed_def)
  moreover have "tstreams (snd (markClosed r s)) = tstreams s" by (simp add: markClosed_def onStream_def)
  ultimately show ?thesis using cliS_calm [OF _ calmC_unlink, of "g @ [pt]" CLoop "snd (markClosed r s)" i] by simp
qed

lemma dispatch_data:
  assumes inv: "cliS g CLoop s" and pt: "splitFrame pt = Some (i, v2TypeData, p)" and r: "map_of (tstreams s) i = Some r"
  shows "cliS (g @ [pt]) (CDeliver r p) s"
proof -
  have rl: "r < length (tobjs s)" and id: "cst_id (tobjs s ! r) = i" using cliS_D(1) [OF inv r] by auto
  note s = cliS_D [OF inv]
  have d: "dataFrames j (g @ [pt]) = dataFrames j g @ (if j = i then p else [])" for j using pt by (simp add: dataIn_split)
  show ?thesis
  proof (rule cliS_I)
    fix k assume k: "k < length (tobjs s)"
    show "streamC (g @ [pt]) (tclosed s) (tobjs s ! k)" using s(4) [OF k] by (rule streamC_more)
    show "prefix (arrived (tobjs s ! k)) (dataFrames (cst_id (tobjs s ! k)) (g @ [pt]))"
      using s(5) [OF k] by (simp add: prefix_more)
    show "arrived (tobjs s ! k) = dataFrames (cst_id (tobjs s ! k)) (g @ [pt])"
      if "map_of (tstreams s) (cst_id (tobjs s ! k)) = Some k" "\<not> cst_closed (tobjs s ! k)" "\<not> delivering k (CDeliver r p)"
      using s(6) [OF k] that d [of "cst_id (tobjs s ! k)"] r by (auto split: if_splits)
  next
    fix k q assume "CDeliver r p = CDeliver k q"
    then show "k < length (tobjs s)" using rl by simp
    show "dataFrames (cst_id (tobjs s ! k)) (g @ [pt]) = arrived (tobjs s ! k) @ q"
      if "CDeliver r p = CDeliver k q" "\<not> cst_closed (tobjs s ! k)"
      using that s(6) [OF rl] r id d by simp
  next
    fix j k
    show "k < length (tobjs s) \<and> cst_id (tobjs s ! k) = j" if "map_of (tstreams s) j = Some k" using s(1) that by blast
    show "countFrames j v2TypeOpen (sentT s) \<le> count_list (map cst_id (tobjs s)) j" by (rule s(2))
    show "0 < countFrames j v2TypeOpenOK (g @ [pt])" if "0 < countFrames j v2TypeData (sentT s)"
      using s(3) [OF that] by simp
  qed
qed

lemma dispatch_cliS:
  assumes inv: "cliS g CLoop s" and pt: "splitFrame pt = Some (i, t, p)" and co: "courteous (g @ [pt])"
    and d: "tc_dispatch C X i t p s = (th, s')"
  shows "cliS (g @ [pt]) th s'"
proof -
  have rd: "cliS (g @ [pt]) CLoop s" if "t \<noteq> v2TypeData \<or> map_of (tstreams s) i = None"
    by (rule cliS_read [OF inv]) (use pt that in \<open>auto simp: isFrame_split split: if_splits\<close>)
  show ?thesis
  proof (cases "t = typePing")
    case True
    then have "th = CLoop" "s' = snd (tc_writeStreamFrame C (crnd X) 0 typePong p s)" using d by (auto simp: tc_dispatch_def)
    moreover have "calmC s (snd (tc_writeStreamFrame C (crnd X) 0 typePong p s))" by (rule calmC_write) (simp_all add: tc_types v2_types)
    ultimately show ?thesis using cliS_calm [OF rd] True by (simp add: tc_types v2_types)
  next
    case np: False
    show ?thesis
    proof (cases "map_of (tstreams s) i")
      case None
      then show ?thesis using d np rd by (simp add: tc_dispatch_def)
    next
      case (Some r)
      have "calmC s (onStream r (\<lambda>st. if openErrc st = None then st\<lparr>openErrc := Some x\<rparr> else st) s)" for x
        by (rule calmC_onStream) (auto simp: streamC_def)
      from cliS_calm [OF rd this] show ?thesis
        using d np Some rd dispatch_openOK [OF inv _ co Some] dispatch_data [OF inv _ Some] dispatch_close [OF inv _ Some]
          dispatch_window [OF inv _ _ Some] pt
        by (auto simp: tc_dispatch_def types_eq typeData_eq split: if_splits) (simp_all add: v2_types)
    qed
  qed
qed

lemma deliver_cliS:
  assumes inv: "cliS g (CDeliver r p) s" and d: "deliver r p s = Some (b, s')"
  shows "cliS g CLoop s'"
proof -
  note s = cliS_D [OF inv]
  have r: "r < length (tobjs s)" by (rule s(7) [OF refl])
  have loop: "cliS g CLoop s" if "cst_closed (tobjs s ! r)"
  proof (rule cliS_I)
    fix k assume "k < length (tobjs s)" "map_of (tstreams s) (cst_id (tobjs s ! k)) = Some k" "\<not> cst_closed (tobjs s ! k)"
    then show "arrived (tobjs s ! k) = dataFrames (cst_id (tobjs s ! k)) g" using s(6) [of k] that by auto
  qed (simp_all add: s)
  let ?f = "\<lambda>st. st\<lparr>incoming := incoming st @ [p], arrived := arrived st @ p\<rparr>"
  have "cliS g CLoop (onStream r ?f s)" if o: "\<not> cst_closed (tobjs s ! r)"
  proof (rule cliS_I)
    let ?s = "onStream r ?f s"
    have ids: "map cst_id (tobjs ?s) = map cst_id (tobjs s)"
      using r by (simp add: onStream_def map_update list_update_same_conv)
    have id: "cst_id (tobjs ?s ! k) = cst_id (tobjs s ! k)" "cst_closed (tobjs ?s ! k) = cst_closed (tobjs s ! k)"
      "streamC g tcl (tobjs ?s ! k) = streamC g tcl (tobjs s ! k)" for k tcl
      using r by (cases "k = r"; simp add: onStream_def streamC_def)+
    have all: "arrived (tobjs ?s ! r) = dataFrames (cst_id (tobjs s ! r)) g" using s(8) [OF refl o] r by (simp add: onStream_def)
    show "k < length (tobjs ?s) \<and> cst_id (tobjs ?s ! k) = i" if "map_of (tstreams ?s) i = Some k" for i k
      using s(1) that unfolding id by (simp add: onStream_def)
    show "countFrames i v2TypeOpen (sentT ?s) \<le> count_list (map cst_id (tobjs ?s)) i" for i
      unfolding ids using s(2) by (simp add: onStream_def)
    show "0 < countFrames i v2TypeOpenOK g" if "0 < countFrames i v2TypeData (sentT ?s)" for i
      using s(3) that by (simp add: onStream_def)
    fix k
    show "streamC g (tclosed ?s) (tobjs ?s ! k)" if "k < length (tobjs ?s)"
      using s(4) [of k] that unfolding id by (simp add: onStream_def)
    show "prefix (arrived (tobjs ?s ! k)) (dataFrames (cst_id (tobjs ?s ! k)) g)" if "k < length (tobjs ?s)"
      using s(5) [of k] that all unfolding id by (cases "k = r") (simp_all add: onStream_def)
    show "arrived (tobjs ?s ! k) = dataFrames (cst_id (tobjs ?s ! k)) g"
      if "k < length (tobjs ?s)" "map_of (tstreams ?s) (cst_id (tobjs ?s ! k)) = Some k" "\<not> cst_closed (tobjs ?s ! k)"
      using s(6) [of k] that all unfolding id by (cases "k = r") (simp_all add: onStream_def)
  qed simp_all
  then show ?thesis using d loop by (auto simp: deliver_def Let_def split: if_splits)
qed

definition readNowC :: "crypto \<Rightarrow> cthread \<Rightarrow> tcsession \<Rightarrow> bytes list" where
  "readNowC C u s =
     (if u = CLoop
      then (case readAEADFrame C (tin s) (tkeyS2C s) (tseqRead s) of (Inr pt, _) \<Rightarrow> [pt] | _ \<Rightarrow> [])
      else [])"

fun creader :: "cthread \<Rightarrow> bool" where
  "creader CLoop = True"
| "creader (CDeliver r p) = True"
| "creader CClose = True"
| "creader (CRange ks) = True"
| "creader CConnClose = True"
| "creader _ = False"

text \<open>The teardown marks streams as closed after the session.\<close>

definition teardownC :: "cthread \<Rightarrow> tcsession \<Rightarrow> bool" where
  "teardownC t s \<longleftrightarrow> (case t of CRange ks \<Rightarrow> tclosed s | CConnClose \<Rightarrow> tclosed s | _ \<Rightarrow> True)"

lemma cliS_reader:
  assumes inv: "cliS g u (cs S)" and td: "teardownC u (cs S)" and st: "cthreadStep C X u S = Some (t, ts, S1)"
    and co: "courteous (g @ readNowC C u (cs S))" and rd: "creader u"
  shows "cliS (g @ readNowC C u (cs S)) t (cs S1) \<and> (creader t \<or> t = CFinished) \<and> ts = [] \<and> teardownC t (cs S1)"
proof (cases u)
  case CLoop
  obtain res rd where rf: "readAEADFrame C (tin (cs S)) (tkeyS2C (cs S)) (tseqRead (cs S)) = (res, rd)" by fastforce
  show ?thesis
  proof (cases res)
    case (Inl e)
    have "t = CClose" "ts = []" "cs S1 = (cs S)\<lparr>tin := rd\<rparr>"
      using st CLoop rf Inl by (auto simp: cthreadStep_def Let_def)
    moreover have "cliS g CClose ((cs S)\<lparr>tin := rd\<rparr>)" using inv CLoop by (simp add: cliS_def linkedC_def dataC_def deliverC_def)
    ultimately show ?thesis using CLoop rf Inl by (simp add: readNowC_def teardownC_def)
  next
    case (Inr pt)
    let ?s = "(cs S)\<lparr>tin := rd, tseqRead := tseqRead (cs S) + 1\<rparr>"
    have g: "readNowC C u (cs S) = [pt]" using CLoop rf Inr by (simp add: readNowC_def)
    show ?thesis
    proof (cases "splitFrame pt")
      case None
      then have "cliS (g @ [pt]) CLoop ?s"
        using inv CLoop by (intro cliS_read [of g "cs S"]) (auto simp: isFrame_def)
      then have "cliS (g @ [pt]) CClose ?s" by (simp add: cliS_def deliverC_def)
      moreover have "t = CClose" "ts = []" "cs S1 = ?s"
        using st CLoop rf Inr None by (auto simp: cthreadStep_def Let_def tc_splitFrame_eq)
      ultimately show ?thesis using g by (simp add: teardownC_def)
    next
      case (Some itp)
      obtain i ty p where itp: "itp = (i, ty, p)" by (metis prod_cases3)
      obtain th s2 where d: "tc_dispatch C X i ty p ?s = (th, s2)" by fastforce
      have "t = th" "ts = []" "cs S1 = s2"
        using st CLoop rf Inr Some itp d by (auto simp: cthreadStep_def Let_def tc_splitFrame_eq)
      moreover have "cliS g CLoop ?s" using inv CLoop by (simp add: cliS_def linkedC_def dataC_def deliverC_def)
      then have "cliS (g @ [pt]) th s2"
        using dispatch_cliS [of g ?s pt i ty p C X th s2] Some itp co g d by simp
      moreover have "th = CLoop \<or> (\<exists>r q. th = CDeliver r q)" using d by (auto simp: tc_dispatch_def split: if_splits option.splits)
      ultimately show ?thesis using g by (auto simp: teardownC_def)
    qed
  qed
next
  case (CDeliver r p)
  then show ?thesis
    using st inv deliver_cliS [of g r p "cs S"] by (auto simp: cthreadStep_def readNowC_def teardownC_def split: option.splits)
next
  case CClose
  have "calmC (cs S) ((cs S)\<lparr>tclosed := True\<rparr>)" by (auto simp: calmC_def quiet_def streamC_def)
  from cliS_calm [OF inv this] inv show ?thesis
    using st CClose by (auto simp: cthreadStep_def readNowC_def teardownC_def cliS_def deliverC_def split: if_splits)
next
  case (CRange ks)
  have cl: "tclosed (cs S)" using td CRange by (simp add: teardownC_def)
  have "tclosed (snd (markClosed r s)) = tclosed s" for r s by (simp add: markClosed_def onStream_def)
  moreover have "cliS g t' s" if "cliS g (CRange ks) s" "t' = CConnClose \<or> t' = CRange ks'" for t' ks' s
    using that by (auto simp: cliS_def deliverC_def)
  ultimately show ?thesis
    using st CRange inv cl cliS_calm [OF inv calmC_markClosed [OF cl]]
    by (auto simp: cthreadStep_def readNowC_def teardownC_def split: list.splits option.splits)
next
  case CConnClose
  have "calmC (cs S) ((cs S)\<lparr>tin := a, tout := b\<rparr>)" for a b by (auto simp: calmC_def quiet_def)
  from cliS_calm [OF inv this] show ?thesis
    using st CConnClose by (auto simp: cthreadStep_def readNowC_def teardownC_def cliS_def deliverC_def)
qed (use rd in auto)

section \<open>The other goroutines\<close>

text \<open>A new stream, with an identifier no data has been read for.\<close>

lemma newStream_cliS:
  assumes inv: "cliS g t s" and fr: "tnextID s \<notin> set (map cst_id (tobjs s))" and d: "dataFrames (tnextID s) g = []"
  shows "cliS g t (s\<lparr>tnextID := tnextID s + 2, tobjs := tobjs s @ [newCStream (tnextID s)],
           tstreams := AList.update (tnextID s) (length (tobjs s)) (tstreams s)\<rparr>)" (is "cliS g t ?s")
proof (rule cliS_I)
  note s = cliS_D [OF inv]
  show "r < length (tobjs ?s) \<and> cst_id (tobjs ?s ! r) = i" if "map_of (tstreams ?s) i = Some r" for i r
    using s(1) [of i r] that by (auto simp: update_conv' nth_append newCStream_def split: if_splits)
  show "countFrames i v2TypeOpen (sentT ?s) \<le> count_list (map cst_id (tobjs ?s)) i" for i
    using s(2) [of i] by simp
  show "0 < countFrames i v2TypeOpenOK g" if "0 < countFrames i v2TypeData (sentT ?s)" for i using s(3) that by simp
  fix r
  show "streamC g (tclosed ?s) (tobjs ?s ! r)" if "r < length (tobjs ?s)"
    using s(4) [of r] that by (auto simp: nth_append newCStream_def streamC_def)
  show "prefix (arrived (tobjs ?s ! r)) (dataFrames (cst_id (tobjs ?s ! r)) g)" if "r < length (tobjs ?s)"
    using s(5) [of r] that by (auto simp: nth_append newCStream_def)
  show "arrived (tobjs ?s ! r) = dataFrames (cst_id (tobjs ?s ! r)) g"
    if a: "r < length (tobjs ?s)" "map_of (tstreams ?s) (cst_id (tobjs ?s ! r)) = Some r" "\<not> cst_closed (tobjs ?s ! r)" "\<not> delivering r t"
  proof (cases "r < length (tobjs s)")
    case True
    then have "cst_id (tobjs s ! r) \<noteq> tnextID s" using fr nth_mem [OF True] by (metis image_eqI list.set_map)
    then show ?thesis using s(6) [OF True] a True by (simp add: nth_append update_conv')
  next
    case False
    then show ?thesis using a d by (simp add: nth_append newCStream_def)
  qed
  show "r < length (tobjs ?s)" if "t = CDeliver r p" for p using s(7) [OF that] by simp
  show "dataFrames (cst_id (tobjs ?s ! r)) g = arrived (tobjs ?s ! r) @ p"
    if "t = CDeliver r p" "\<not> cst_closed (tobjs ?s ! r)" for p
    using s(7,8) [OF that(1)] that by (simp add: nth_append)
qed

lemma cliS_send:
  assumes inv: "cliS g t s"
    and o: "ty = v2TypeOpen \<Longrightarrow> countFrames i v2TypeOpen (sentT s) < count_list (map cst_id (tobjs s)) i"
    and d: "ty = v2TypeData \<Longrightarrow> 0 < countFrames i v2TypeOpenOK g"
  shows "cliS g t (snd (tc_writeStreamFrame C R i ty p s))" (is "cliS g t ?s")
proof -
  note s = cliS_D [OF inv]
  have "countFrames j v2TypeOpen (sentT ?s) \<le> count_list (map cst_id (tobjs s)) j" for j
    using s(2) [of j] o tc_write_sent(2) [of C R i ty p s] by (auto simp: tc_write_sent(1) Suc_le_eq)
  moreover have "0 < countFrames j v2TypeOpenOK g" if "0 < countFrames j v2TypeData (sentT ?s)" for j
    using s(3) [of j] d that tc_write_sent(2) [of C R i ty p s] by (auto simp: tc_write_sent(1) split: if_splits)
  ultimately show ?thesis using inv by (simp add: cliS_def linkedC_def dataC_def deliverC_def tc_write_same)
qed

lemma openStart_cliS:
  assumes inv: "cliS g t s" and fr: "tnextID s \<notin> set (map cst_id (tobjs s))" and d: "dataFrames (tnextID s) g = []"
  shows "cliS g t (snd (openStart C X h p s))"
proof -
  let ?s = "s\<lparr>tnextID := tnextID s + 2, tobjs := tobjs s @ [newCStream (tnextID s)],
           tstreams := AList.update (tnextID s) (length (tobjs s)) (tstreams s)\<rparr>"
  let ?w = "tc_writeStreamFrame C (crnd X) (tnextID s) typeOpen (openTarget h p) ?s"
  have n: "cliS g t ?s" by (rule newStream_cliS [OF assms])
  have z: "countFrames (tnextID s) v2TypeOpen (sentT s) = 0"
    using cliS_D(2) [OF inv, of "tnextID s"] fr by (simp add: count_list_0_iff)
  have w: "cliS g t (snd ?w)"
    by (rule cliS_send [OF n]) (use z fr in \<open>auto simp: newCStream_def types_eq v2_types\<close>)
  show ?thesis
    using n w cliS_calm [OF w calmC_unlink, of "tnextID s"] by (auto simp: openStart_def Let_def case_prod_beta)
qed

lemma acquire_cliS:
  assumes inv: "cliS g t s" and aw: "acquireWindow r n s = Some (b, s')"
    and r: "r < length (tobjs s)" "0 < countFrames (cst_id (tobjs s ! r)) v2TypeOpenOK g" "flowControlled (tobjs s ! r)"
  shows "cliS g t s'"
proof -
  have "cliS g t (onStream r (\<lambda>st. st\<lparr>sendWindow := sendWindow st - int n, acquired := acquired st + int n\<rparr>) s)"
    using cliS_D(4) [OF inv r(1)] r by (intro cliS_onStream [OF inv r(1)]) (auto simp: streamC_def)
  then show ?thesis using aw r(3) inv by (auto simp: acquireWindow_def Let_def split: if_splits)
qed

text \<open>A goroutine that serves a stream does so after OPEN_OK.\<close>

fun servesC :: "cthread \<Rightarrow> nat option" where
  "servesC (SocksCopy k r) = Some r"
| "servesC (Bridge k r) = Some r"
| "servesC (BridgeAcquire k r rest) = Some r"
| "servesC (BridgeSend k r ch rest) = Some r"
| "servesC _ = None"

definition ackedC :: "bytes list \<Rightarrow> tcsession \<Rightarrow> cthread \<Rightarrow> bool" where
  "ackedC g s t \<longleftrightarrow>
     (\<forall>r. servesC t = Some r \<longrightarrow>
        r < length (tobjs s) \<and> 0 < countFrames (cst_id (tobjs s ! r)) v2TypeOpenOK g \<and> flowControlled (tobjs s ! r))"

lemma cliS_other:
  assumes inv: "cliS g t0 (cs S)" and ak: "ackedC g (cs S) u" and st: "cthreadStep C X u S = Some (t, ts, S1)"
    and nr: "\<not> creader u"
    and fr: "\<And>k. u = Socks k \<Longrightarrow> tnextID (cs S) \<notin> set (map cst_id (tobjs (cs S))) \<and> dataFrames (tnextID (cs S)) g = []"
  shows "cliS g t0 (cs S1)"
proof (cases u)
  case (Socks k)
  then show ?thesis
    using st inv openStart_cliS [OF inv, of C X] fr [OF Socks]
    by (auto simp: cthreadStep_def Let_def case_prod_beta split: socks_req.splits option.splits)
next
  case (SocksWait k i r)
  then show ?thesis
    using st cliS_calm [OF inv calmC_openSelect] by (auto simp: cthreadStep_def split: option.splits bool.splits)
next
  case (SocksCopy k r)
  then show ?thesis
    using st cliS_calm [OF inv calmC_readStream]
    by (auto simp: cthreadStep_def Let_def case_prod_beta split: option.splits if_splits)
next
  case (Bridge k r)
  have "cliS g t0 (snd (tc_writeStreamFrame C (crnd X) i typeClose [] (cs S)))" for i
    by (rule cliS_send [OF inv]) (simp_all add: tc_types v2_types)
  then show ?thesis
    using st Bridge inv by (auto simp: cthreadStep_def Let_def case_prod_beta split: if_splits)
next
  case (BridgeAcquire k r rest)
  then show ?thesis
    using st inv ak acquire_cliS [OF inv, of r]
    by (auto simp: cthreadStep_def Let_def ackedC_def split: if_splits option.splits bool.splits)
next
  case (BridgeSend k r ch rest)
  have "cliS g t0 (snd (tc_writeStreamFrame C (crnd X) (cst_id (tobjs (cs S) ! r)) typeData ch (cs S)))"
    using ak BridgeSend by (intro cliS_send [OF inv]) (auto simp: tc_types v2_types ackedC_def)
  then show ?thesis
    using st BridgeSend by (auto simp: cthreadStep_def Let_def case_prod_beta split: if_splits)
qed (use nr st in \<open>auto simp: cthreadStep_def\<close>)

section \<open>Goroutines and their streams\<close>

definition flowUp :: "tcsession \<Rightarrow> tcsession \<Rightarrow> bool" where
  "flowUp s s' \<longleftrightarrow>
     length (tobjs s) \<le> length (tobjs s') \<and> (\<forall>r < length (tobjs s). flowControlled (tobjs s ! r) \<longrightarrow> flowControlled (tobjs s' ! r))"

lemma flowUp_onStream:
  assumes "\<And>st. flowControlled st \<Longrightarrow> flowControlled (f st)"
  shows "flowUp s (onStream r f s)"
proof -
  have "flowControlled ((tobjs s)[r := f (tobjs s ! r)] ! k)" if "k < length (tobjs s)" "flowControlled (tobjs s ! k)" for k
    using assms that by (cases "k = r") auto
  then show ?thesis by (simp add: flowUp_def onStream_def)
qed

lemma flowUp_calm: "calmC s s' \<Longrightarrow> flowUp s s'"
  by (simp add: flowUp_def calmC_D)

lemma flowUp_same: "tobjs s' = tobjs s \<Longrightarrow> flowUp s s'"
  by (simp add: flowUp_def)

lemma flowUp_dispatch: "flowUp s (snd (tc_dispatch C X i t p s))"
proof -
  have "flowUp s (s'\<lparr>tstreams := m\<rparr>)" if "flowUp s s'" for s' m using that by (simp add: flowUp_def)
  moreover have "flowUp s (snd (markClosed r s))" for r by (auto simp: markClosed_def flowUp_same intro: flowUp_onStream)
  ultimately show ?thesis
    by (auto simp: tc_dispatch_def Let_def flowUp_same tc_write_same intro!: flowUp_onStream split: option.split)
qed

lemma openStart_objs: "tobjs (snd (openStart C X h p s)) = tobjs s @ [newCStream (tnextID s)]"
  by (simp add: openStart_def Let_def case_prod_beta tc_write_same)

lemma step_flowUp:
  assumes st: "cthreadStep C X u S = Some (t, ts, S1)"
  shows "flowUp (cs S) (cs S1)"
proof (cases u)
  case CLoop
  obtain res rd where rf: "readAEADFrame C (tin (cs S)) (tkeyS2C (cs S)) (tseqRead (cs S)) = (res, rd)" by fastforce
  let ?s = "(cs S)\<lparr>tin := rd, tseqRead := tseqRead (cs S) + 1\<rparr>"
  have "flowUp (cs S) s2" if "flowUp ?s s2" for s2 using that by (simp add: flowUp_def)
  then show ?thesis
    using st CLoop rf flowUp_dispatch [of ?s C X]
    by (auto simp: cthreadStep_def Let_def case_prod_beta flowUp_same split: sum.splits option.splits)
next
  case (CDeliver r p)
  then show ?thesis
    using st by (auto simp: cthreadStep_def deliver_def Let_def flowUp_same intro!: flowUp_onStream split: option.splits if_splits)
next
  case (CRange ks)
  then show ?thesis
    using st by (auto simp: cthreadStep_def markClosed_def flowUp_same intro!: flowUp_onStream split: list.splits option.splits)
next
  case (Socks k)
  have "flowUp (cs S) (snd (openStart C X h p (cs S)))" for h p by (simp add: flowUp_def openStart_objs nth_append)
  then show ?thesis
    using st Socks by (auto simp: cthreadStep_def Let_def case_prod_beta flowUp_same split: socks_req.splits option.splits)
next
  case (SocksWait k i r)
  then show ?thesis
    using st flowUp_calm [OF calmC_openSelect] by (auto simp: cthreadStep_def split: option.splits bool.splits)
next
  case (SocksCopy k r)
  then show ?thesis
    using st flowUp_calm [OF calmC_readStream]
    by (auto simp: cthreadStep_def Let_def case_prod_beta split: option.splits if_splits)
next
  case (BridgeAcquire k r rest)
  then show ?thesis
    using st by (auto simp: cthreadStep_def acquireWindow_def Let_def flowUp_same intro!: flowUp_onStream
        split: if_splits option.splits bool.splits)
qed (use st in \<open>auto simp: cthreadStep_def Let_def case_prod_beta flowUp_same tc_write_same split: if_splits\<close>)

text \<open>Who takes over a stream.\<close>

lemma step_serves:
  assumes "cthreadStep C X u S = Some (t, ts, S1)" and "v \<in> set (t # ts)" and "servesC v = Some r"
  shows "servesC u = Some r \<or> (\<exists>k i. u = SocksWait k i r \<and> openOKc (tobjs (cs S) ! r))"
proof (cases u)
  case CLoop
  have "servesC (fst (tc_dispatch C X i ty p s)) = None" for i ty p s by (auto simp: tc_dispatch_def split: option.split)
  then show ?thesis
    using assms CLoop by (auto simp: cthreadStep_def Let_def case_prod_beta split: sum.splits option.splits prod.splits)
next
  case (SocksWait k i x)
  then show ?thesis
    using assms by (auto simp: cthreadStep_def openSelect_def Let_def split: option.splits bool.splits choice.splits if_splits)
next
  case (Socks k)
  then show ?thesis
    using assms by (auto simp: cthreadStep_def Let_def case_prod_beta split: socks_req.splits option.splits)
qed (use assms in \<open>auto simp: cthreadStep_def Let_def case_prod_beta split: if_splits option.splits bool.splits list.splits\<close>)

lemma ackedC_mono:
  assumes "ackedC g s v" and "flowUp s s'" and "\<And>r. r < length (tobjs s) \<Longrightarrow> cst_id (tobjs s' ! r) = cst_id (tobjs s ! r)"
  shows "ackedC (g @ h) s' v"
  using assms by (auto simp: ackedC_def flowUp_def)

lemma ackedC_step:
  assumes all: "\<And>v. v \<in> set (cthreads S) \<Longrightarrow> ackedC g (cs S) v" and u: "u \<in> set (cthreads S)"
    and st: "cthreadStep C X u S = Some (t, ts, S1)" and inv: "cliS g t0 (cs S)"
    and up: "threadUp S u" and ap: "apart ro ko S S1" and v: "v \<in> set (cthreads S) \<union> set (t # ts)"
  shows "ackedC (g @ h) (cs S1) v"
proof -
  note fl = step_flowUp [OF st]
  have id: "cst_id (tobjs (cs S1) ! r) = cst_id (tobjs (cs S) ! r)" if "r < length (tobjs (cs S))" for r
    using ap that by (simp add: apart_def)
  have "ackedC g (cs S) v"
  proof (cases "v \<in> set (cthreads S)")
    case True
    then show ?thesis by (rule all)
  next
    case False
    with v have v': "v \<in> set (t # ts)" by blast
    show ?thesis
      unfolding ackedC_def
    proof (intro allI impI)
      fix r assume sv: "servesC v = Some r"
      from step_serves [OF st v' sv]
      show "r < length (tobjs (cs S)) \<and> 0 < countFrames (cst_id (tobjs (cs S) ! r)) v2TypeOpenOK g \<and> flowControlled (tobjs (cs S) ! r)"
      proof
        assume "servesC u = Some r"
        then show ?thesis using all [OF u] by (simp add: ackedC_def)
      next
        assume "\<exists>k i. u = SocksWait k i r \<and> openOKc (tobjs (cs S) ! r)"
        then have "r < length (tobjs (cs S))" "openOKc (tobjs (cs S) ! r)" using up by (auto simp: threadUp_def)
        then show ?thesis using cliS_D(4) [OF inv] by (auto simp: streamC_def)
      qed
    qed
  qed
  then show ?thesis using fl id by (rule ackedC_mono)
qed

end
