(* ===== verification/Tunnel_Bridge.thy ===== *)
theory Tunnel_Bridge
  imports Tunnel_Client
begin

text \<open>
  The local ends of the client's streams: the bytes a bridge has put on its stream are those of its
  local connection, and the bytes an application has received after the SOCKS5 replies are those read
  from its stream.
\<close>

section \<open>Uploads\<close>

text \<open>Data is sent by bridges only, and only while the session can write.\<close>

fun sendFor :: "u32 \<Rightarrow> tcsession \<Rightarrow> cthread \<Rightarrow> bytes" where
  "sendFor i s (BridgeSend k r ch rest) = (if cst_id (tobjs s ! r) = i then ch else [])"
| "sendFor i s _ = []"

lemma tc_write_dead:
  assumes "wbreak (tout s) = Some 0"
  shows "\<not> fst (tc_writeStreamFrame C R i t p s)"
proof (cases "tc_maxStreamPayloadV2 < length p \<or> tclosed s")
  case True
  then show ?thesis by (auto simp: tc_writeStreamFrame_def)
next
  case False
  let ?pt = "streamFrame i t p"
  have len: "length ?pt \<le> maxPlaintextSize"
    using False by (simp add: tc_consts frame_consts v2FrameHeader_def streamFrame_length)
  have "fst (writeTwo (tout s) (putBE 2 n) ct) = False" for n ct
    using assms by (simp add: writeTwo_def writeConn_def)
  then have "fst (writeAEADFrame C (fst R) (snd R) (tout s) (tkeyC2S s) (tseqWrite s) ?pt) \<noteq> None"
    using writeAEADFrame_eq [OF len, of C "fst R" "snd R" "tout s" "tkeyC2S s" "tseqWrite s"] by (auto simp: case_prod_beta)
  then show ?thesis
    using False by (auto simp: tc_writeStreamFrame_def tc_streamFrame_eq Let_def case_prod_beta)
qed

lemma tc_write_alive:
  assumes "fst (tc_writeStreamFrame C R i t p s)"
  shows "\<not> tclosed s" "wbreak (tout s) \<noteq> Some 0"
proof -
  show "\<not> tclosed s" using assms by (auto simp: tc_writeStreamFrame_def split: if_splits)
  show "wbreak (tout s) \<noteq> Some 0" using assms tc_write_dead by blast
qed

lemma calm_data: "calmS s s' \<Longrightarrow> dataOf i (tsealed s') = dataOf i (tsealed s)"
  by (simp add: calmS_def)

lemma step_data:
  assumes st: "cthreadStep C X u S = Some (t, ts, S1)"
  shows "dataOf i (tsealed (cs S1)) = dataOf i (tsealed (cs S)) \<or>
         dataOf i (tsealed (cs S1)) = dataOf i (tsealed (cs S)) @ sendFor i (cs S) u \<and>
           \<not> tclosed (cs S) \<and> wbreak (tout (cs S)) \<noteq> Some 0"
proof (cases u)
  case CLoop
  obtain res rd where rf: "readAEADFrame C (tin (cs S)) (tkeyS2C (cs S)) (tseqRead (cs S)) = (res, rd)" by fastforce
  let ?s = "(cs S)\<lparr>tin := rd, tseqRead := tseqRead (cs S) + 1\<rparr>"
  have "dataOf i (tsealed (snd (tc_dispatch C X j ty p ?s))) = dataOf i (tsealed (cs S))" for j ty p
    using calm_data [OF calmS_dispatch, of i C X j ty p ?s] by simp
  then show ?thesis
    using st CLoop rf by (auto simp: cthreadStep_def Let_def case_prod_beta split: sum.splits option.splits)
next
  case (Socks k)
  have "dataOf i (tsealed (snd (openStart C X h p (cs S)))) = dataOf i (tsealed (cs S))" for h p
    using openStart_outcome(4) [of C X h p "cs S"] by (metis prod.collapse)
  then show ?thesis
    using st Socks by (auto simp: cthreadStep_def Let_def case_prod_beta split: socks_req.splits option.splits)
next
  case (SocksWait k j r)
  then show ?thesis
    using st calm_data [OF calmS_openSelect] by (auto simp: cthreadStep_def split: option.splits bool.splits)
next
  case (SocksCopy k r)
  then show ?thesis
    using st calm_data [OF calmS_readStream]
    by (auto simp: cthreadStep_def Let_def case_prod_beta split: option.splits if_splits)
next
  case (Bridge k r)
  have "dataOf i (tsealed (snd (tc_writeStreamFrame C (crnd X) j typeClose [] (cs S)))) = dataOf i (tsealed (cs S))" for j
    by (rule calm_data [OF calmS_write]) (simp add: tc_types v2_types)
  then show ?thesis
    using st Bridge by (auto simp: cthreadStep_def Let_def case_prod_beta split: if_splits)
next
  case (BridgeAcquire k r rest)
  then show ?thesis
    using st by (auto simp: cthreadStep_def acquireWindow_def onStream_def Let_def split: if_splits option.splits bool.splits)
next
  case (BridgeSend k r ch rest)
  let ?w = "tc_writeStreamFrame C (crnd X) (cst_id (tobjs (cs S) ! r)) typeData ch (cs S)"
  have w: "cs S1 = snd ?w" using st BridgeSend by (auto simp: cthreadStep_def Let_def case_prod_beta split: if_splits)
  have "dataOf i (tsealed (snd ?w)) = dataOf i (tsealed (cs S)) @ (if fst ?w \<and> cst_id (tobjs (cs S) ! r) = i then ch else [])"
    using tc_write_outcome(5) [of C "crnd X" "cst_id (tobjs (cs S) ! r)" typeData ch "cs S" "fst ?w" "snd ?w" i]
    by (simp add: typeData_eq)
  then show ?thesis
    using w BridgeSend tc_write_alive [of C "crnd X" "cst_id (tobjs (cs S) ! r)" typeData ch "cs S"] by auto
next
  case (CDeliver r p)
  then show ?thesis using st calm_data [OF calmS_deliver] by (auto simp: cthreadStep_def split: option.splits)
next
  case (CRange ks)
  then show ?thesis
    using st calm_data [OF calmS_markClosed] by (auto simp: cthreadStep_def split: list.splits option.splits)
qed (use st in \<open>auto simp: cthreadStep_def split: if_splits\<close>)

text \<open>What a bridge has read of its local connection only grows.\<close>

lemma lread_mono:
  assumes st: "cthreadStep C X u S = Some (t, ts, S1)"
  shows "length (conns S1) = length (conns S) \<and> (\<forall>k < length (conns S). prefix (lread (conns S ! k)) (lread (conns S1 ! k)))"
proof -
  have same: "length (conns S1) = length (conns S) \<and> (\<forall>k < length (conns S). prefix (lread (conns S ! k)) (lread (conns S1 ! k)))"
    if e: "map lread (conns S1) = map lread (conns S)"
  proof -
    have "length (conns S1) = length (conns S)" using arg_cong [OF e, of length] by simp
    then show ?thesis using e by (metis nth_map prefix_order.refl)
  qed
  show ?thesis
  proof (cases u)
    case (Bridge k r)
    have "prefix (lread (conns S ! j)) (lread ((conns S)[k := (conns S ! k)\<lparr>lin := rd, lread := lread (conns S ! k) @ buf\<rparr>] ! j))"
      "prefix (lread (conns S ! j)) (lread ((conns S)[k := (conns S ! k)\<lparr>lin := rd\<rparr>] ! j))"
      if "j < length (conns S)" for j buf rd
      using that by (cases "j = k"; simp)+
    then show ?thesis
      using st Bridge by (auto simp: cthreadStep_def Let_def case_prod_beta onConn_def split: if_splits)
  next
    case (Socks k)
    have "map lread (conns (onConn k (\<lambda>c. c\<lparr>lin := a, lout := b\<rparr>) S)) = map lread (conns S)" for a b
      by (rule lread_onConn) simp
    then show ?thesis
      using st Socks by (intro same) (auto simp: cthreadStep_def Let_def case_prod_beta split: socks_req.splits option.splits)
  next
    case (SocksWait k i r)
    then show ?thesis
      using st by (intro same) (auto simp: cthreadStep_def split: option.splits bool.splits)
  next
    case (SocksCopy k r)
    then show ?thesis
      using st by (intro same) (auto simp: cthreadStep_def Let_def case_prod_beta split: option.splits if_splits)
  qed (use st in \<open>auto simp: cthreadStep_def Let_def case_prod_beta
        split: sum.splits option.splits prod.splits if_splits bool.splits list.splits\<close>)
qed

fun bridging :: "cthread \<Rightarrow> (nat \<times> nat) option" where
  "bridging (Bridge k r) = Some (k, r)"
| "bridging (BridgeAcquire k r rest) = Some (k, r)"
| "bridging (BridgeSend k r ch rest) = Some (k, r)"
| "bridging _ = None"

fun waiting :: "cthread \<Rightarrow> nat option" where
  "waiting (SocksWait k i r) = Some r"
| "waiting _ = None"

type_synonym bridges = "(nat \<times> nat \<times> bytes) list"

abbreviation connOf :: "nat \<times> nat \<times> bytes \<Rightarrow> nat" where "connOf b \<equiv> fst b"
abbreviation streamOf :: "nat \<times> nat \<times> bytes \<Rightarrow> nat" where "streamOf b \<equiv> fst (snd b)"

text \<open>Every bridge is listed once with its connection and stream, and what it has sent is part of what
  it has read, unless the server has closed the stream.\<close>

definition bridgesOK :: "bytes list \<Rightarrow> bridges \<Rightarrow> cstate \<Rightarrow> bool" where
  "bridgesOK g B S \<longleftrightarrow>
     distinct (map streamOf B) \<and>
     (\<forall>b\<in>set B. connOf b < length (conns S) \<and> streamOf b < length (tobjs (cs S)) \<and>
        (prefix (sentOn (cs S) (streamOf b)) (lread (conns S ! connOf b)) \<or>
         0 < countFrames (cst_id (tobjs (cs S) ! streamOf b)) v2TypeClose g)) \<and>
     (\<forall>t\<in>set (cthreads S). \<forall>k r. bridging t = Some (k, r) \<longrightarrow> (\<exists>b\<in>set B. connOf b = k \<and> streamOf b = r)) \<and>
     (\<forall>t\<in>set (cthreads S). \<forall>r. waiting t = Some r \<longrightarrow> sentOn (cs S) r = [] \<and> r \<notin> streamOf ` set B)"

lemma owner_kinds: "bowner t = Some r \<longleftrightarrow> waiting t = Some r \<or> (\<exists>k. bridging t = Some (k, r))"
  by (cases t) auto

lemma bridging_lowner: "bridging t = Some (k, r) \<Longrightarrow> lowner t = Some k \<and> bowner t = Some r"
  by (cases t) auto

lemma bridgesOf_step:
  assumes "cthreadStep C X u S = Some (t, ts, S1)"
  shows "(\<forall>v\<in>set (t # ts). \<forall>k r. bridging v = Some (k, r) \<longrightarrow> bridging u = Some (k, r) \<or> (\<exists>pre. bridgesOf S1 ts = [(k, r, pre)])) \<and>
         (bridgesOf S1 ts = [] \<or> (\<exists>k i r pre. u = SocksWait k i r \<and> bridgesOf S1 ts = [(k, r, pre)])) \<and>
         (\<forall>v\<in>set (t # ts). \<forall>r. waiting v = Some r \<longrightarrow> (\<exists>k. u = Socks k) \<and> r = length (tobjs (cs S)))"
proof (cases u)
  case CLoop
  have "bridging (fst (tc_dispatch C X i ty p s)) = None" "waiting (fst (tc_dispatch C X i ty p s)) = None" for i ty p s
    by (auto simp: tc_dispatch_def split: option.split)
  then show ?thesis
    using assms CLoop by (auto simp: cthreadStep_def Let_def case_prod_beta split: sum.splits option.splits prod.splits)
next
  case (Socks k)
  have "r = length (tobjs (cs S))" if "fst (openStart C X h p (cs S)) = Some (i, r)" for h p i r
    using openStart_outcome(5) [of C X h p "cs S" _ _ i r] that by (metis prod.collapse)
  then show ?thesis
    using assms Socks by (auto simp: cthreadStep_def Let_def case_prod_beta split: socks_req.splits option.splits)
qed (use assms in \<open>auto simp: cthreadStep_def Let_def case_prod_beta split: if_splits option.splits bool.splits list.splits\<close>)

text \<open>Two goroutines never own the same thing.\<close>

lemma owners_differ:
  assumes d: "distinct (List.map_filter f ths)" and n: "n < length ths" and v: "v \<in> set (ths[n := t] @ ts)"
  shows "v \<in> set (t # ts) \<or> v \<in> set ths \<and> (f v = Some r \<longrightarrow> f (ths ! n) \<noteq> Some r)"
proof (cases "v \<in> set (t # ts)")
  case False
  have upd: "ths[n := t] = take n ths @ t # drop (Suc n) ths" by (rule upd_conv_take_nth_drop [OF n])
  have old: "ths = take n ths @ ths ! n # drop (Suc n) ths" by (rule id_take_nth_drop [OF n])
  from False v have w: "v \<in> set (take n ths) \<union> set (drop (Suc n) ths)" unfolding upd by auto
  then have "v \<in> set ths" by (auto dest: in_set_takeD in_set_dropD)
  moreover have "f (ths ! n) \<noteq> Some r" if fv: "f v = Some r"
  proof
    assume fu: "f (ths ! n) = Some r"
    have "r \<in> set (List.map_filter f (take n ths)) \<union> set (List.map_filter f (drop (Suc n) ths))"
      using w fv by (auto simp: set_map_filter)
    moreover have "distinct (List.map_filter f (take n ths) @ r # List.map_filter f (drop (Suc n) ths))"
      using d fu by (subst (asm) old) (simp add: map_filter_append map_filter_Cons)
    ultimately show False by auto
  qed
  ultimately show ?thesis by blast
qed simp

lemma bridge_kept:
  assumes ok: "bridgesOK g B S" and up: "uploadOK S" and inv: "cliS g t0 (cs S)" and u: "u \<in> set (cthreads S)"
    and st: "cthreadStep C X u S = Some (t, ts, S1)" and ap: "apart (bowner u) (lowner u) S S1" and b: "b \<in> set B"
  shows "prefix (sentOn (cs S1) (streamOf b)) (lread (conns S1 ! connOf b)) \<or>
         0 < countFrames (cst_id (tobjs (cs S1) ! streamOf b)) v2TypeClose g"
proof -
  let ?q = "streamOf b" and ?k = "connOf b"
  have q: "?q < length (tobjs (cs S))" "?k < length (conns S)"
    and p: "prefix (sentOn (cs S) ?q) (lread (conns S ! ?k)) \<or> 0 < countFrames (cst_id (tobjs (cs S) ! ?q)) v2TypeClose g"
    using ok b by (auto simp: bridgesOK_def)
  have id: "cst_id (tobjs (cs S1) ! ?q) = cst_id (tobjs (cs S) ! ?q)" using ap q by (simp add: apart_def)
  have mono: "prefix (lread (conns S ! ?k)) (lread (conns S1 ! ?k))" using lread_mono [OF st] q by blast
  show ?thesis
  proof (cases "0 < countFrames (cst_id (tobjs (cs S) ! ?q)) v2TypeClose g \<or> sentOn (cs S1) ?q = sentOn (cs S) ?q")
    case True
    then show ?thesis using p mono id prefix_order.trans by auto
  next
    case False
    then have sent: "sentOn (cs S1) ?q = sentOn (cs S) ?q @ sendFor (cst_id (tobjs (cs S) ! ?q)) (cs S) u"
      and al: "\<not> tclosed (cs S)" "wbreak (tout (cs S)) \<noteq> Some 0"
      using step_data [OF st, of "cst_id (tobjs (cs S) ! ?q)"] id by auto
    then obtain k r ch rest where us: "u = BridgeSend k r ch rest" "cst_id (tobjs (cs S) ! r) = cst_id (tobjs (cs S) ! ?q)"
      using False by (cases u) (auto split: if_splits)
    have "bowner u = Some ?q" using False ap q by (auto simp: apart_def)
    then have r: "r = ?q" using us by simp
    then obtain b' where b': "b' \<in> set B" "connOf b' = k" "streamOf b' = ?q"
      using ok u us(1) by (fastforce simp: bridgesOK_def)
    have "distinct (map streamOf B)" using ok by (simp add: bridgesOK_def)
    then have k: "k = ?k" using b' b eq_key_imp_eq_value [of "map (\<lambda>b. (streamOf b, b)) B" ?q b b']
      by (auto simp: comp_def distinct_map inj_on_def)
    have "\<not> cst_closed (tobjs (cs S) ! ?q)" using cliS_D(4) [OF inv q(1)] al(1) False by (auto simp: streamC_def)
    then have "\<not> lostS (cs S) ?q" using al by (simp add: lostS_def)
    moreover have "threadUp S u" using up u by (simp add: uploadOK_def)
    ultimately have "lread (conns S ! ?k) = sentOn (cs S) ?q @ ch @ rest" using us(1) r k by (simp add: threadUp_def)
    then have "prefix (sentOn (cs S1) ?q) (lread (conns S ! ?k))" using sent us r by simp
    then show ?thesis using mono prefix_order.trans by blast
  qed
qed

lemma bridgesOK_step:
  assumes ok: "bridgesOK g B S" and up: "uploadOK S" and inv: "cliS g t0 (cs S)" and n: "n < length (cthreads S)"
    and st: "cthreadStep C X (cthreads S ! n) S = Some (t, ts, S1)"
    and gd: "goodStep (cthreads S ! n) S (t # ts) S1" and ids: "distinct (map cst_id (tobjs (cs S1)))"
  shows "bridgesOK (g @ h) (B @ bridgesOf S1 ts) (S1\<lparr>cthreads := (cthreads S)[n := t] @ ts\<rparr>)"
proof -
  let ?u = "cthreads S ! n" and ?ths = "(cthreads S)[n := t] @ ts"
  have u: "?u \<in> set (cthreads S)" using n by simp
  have ap: "apart (bowner ?u) (lowner ?u) S S1" using gd by (simp add: goodStep_def)
  have db: "distinct (List.map_filter bowner (cthreads S))" using up by (simp add: uploadOK_def)
  have tu: "threadUp S v" if "v \<in> set (cthreads S)" for v using up that by (simp add: uploadOK_def)
  note new = bridgesOf_step [OF st]
  have len: "length (tobjs (cs S)) \<le> length (tobjs (cs S1))" "length (conns S1) = length (conns S)"
    using ap by (simp_all add: apart_def)
  have keep: "sentOn (cs S1) r = sentOn (cs S) r" if "bowner ?u \<noteq> Some r" "r < length (tobjs (cs S))" for r
    using ap that unfolding apart_def by blast
  have wait: "sentOn (cs S) r = []" "r \<notin> streamOf ` set B" "r < length (tobjs (cs S))"
    if "v \<in> set (cthreads S)" "waiting v = Some r" for v r
    using ok that tu [OF that(1)] by (auto simp: bridgesOK_def threadUp_def owner_kinds)
  have fresh: "b \<in> set (bridgesOf S1 ts) \<Longrightarrow> waiting ?u = Some (streamOf b) \<and> lowner ?u = Some (connOf b)" for b
    using new by auto
  have "distinct (map streamOf (B @ bridgesOf S1 ts))"
    using new wait(2) [OF u] ok by (fastforce simp: bridgesOK_def)
  moreover have "connOf b < length (conns S1) \<and> streamOf b < length (tobjs (cs S1)) \<and>
      (prefix (sentOn (cs S1) (streamOf b)) (lread (conns S1 ! connOf b)) \<or>
       0 < countFrames (cst_id (tobjs (cs S1) ! streamOf b)) v2TypeClose (g @ h))" if b: "b \<in> set (B @ bridgesOf S1 ts)" for b
  proof (cases "b \<in> set B")
    case True
    then have "connOf b < length (conns S)" "streamOf b < length (tobjs (cs S))" using ok by (auto simp: bridgesOK_def)
    then show ?thesis using bridge_kept [OF ok up inv u st ap True] len by auto
  next
    case False
    then have w: "waiting ?u = Some (streamOf b)" "lowner ?u = Some (connOf b)" using fresh b by auto
    have "connOf b < length (conns S)" using tu [OF u] w by (simp add: threadUp_def)
    moreover have "sentOn (cs S1) (streamOf b) = []"
    proof -
      have "sendFor i s ?u = []" for i s using w(1) by (cases ?u) auto
      moreover have "cst_id (tobjs (cs S1) ! streamOf b) = cst_id (tobjs (cs S) ! streamOf b)"
        using ap wait(3) [OF u w(1)] by (simp add: apart_def)
      ultimately show ?thesis
        using step_data [OF st, of "cst_id (tobjs (cs S) ! streamOf b)"] wait(1) [OF u w(1)] by auto
    qed
    ultimately show ?thesis using len wait(3) [OF u w(1)] by simp
  qed
  moreover have "\<exists>b\<in>set (B @ bridgesOf S1 ts). connOf b = k \<and> streamOf b = r"
    if v: "v \<in> set ?ths" "bridging v = Some (k, r)" for v k r
  proof -
    have "(v \<in> set (cthreads S)) \<or> v \<in> set (t # ts)" using v(1) by (auto dest: subsetD [OF set_update_subset_insert])
    then consider "\<exists>w\<in>set (cthreads S). bridging w = Some (k, r)" | pre where "bridgesOf S1 ts = [(k, r, pre)]"
      using v(2) new u by blast
    then show ?thesis
    proof cases
      case 1
      then show ?thesis using ok by (fastforce simp: bridgesOK_def)
    qed simp
  qed
  moreover have "sentOn (cs S1) r = [] \<and> r \<notin> streamOf ` set (B @ bridgesOf S1 ts)"
    if v: "v \<in> set ?ths" "waiting v = Some r" for v r
  proof (cases "v \<in> set (t # ts)")
    case True
    then have us: "(\<exists>k. ?u = Socks k)" and r: "r = length (tobjs (cs S))" using new v(2) by blast+
    have rl: "r < length (tobjs (cs S1))"
      using gd True v(2) by (auto simp: goodStep_def threadUp_def owner_kinds)
    have "cst_id (tobjs (cs S1) ! r) \<notin> cst_id ` set (tobjs (cs S))"
    proof
      assume "cst_id (tobjs (cs S1) ! r) \<in> cst_id ` set (tobjs (cs S))"
      then obtain x where "x < length (tobjs (cs S))" "cst_id (tobjs (cs S1) ! r) = cst_id (tobjs (cs S) ! x)"
        by (auto simp: in_set_conv_nth)
      then have "x < length (tobjs (cs S1))" "cst_id (tobjs (cs S1) ! r) = cst_id (tobjs (cs S1) ! x)" "x \<noteq> r"
        using ap r by (auto simp: apart_def)
      then show False using nth_eq_iff_index_eq [OF ids, of r x] rl by simp
    qed
    then have "sentOn (cs S1) r = []" using ap up by (simp add: apart_def uploadOK_def)
    moreover have "r \<notin> streamOf ` set B" using ok r by (auto simp: bridgesOK_def)
    moreover have "bridgesOf S1 ts = []" using new us by auto
    ultimately show ?thesis by simp
  next
    case False
    then have w: "v \<in> set (cthreads S)" "bowner ?u \<noteq> Some r"
      using owners_differ [OF db n v(1), of r] v(2) by (auto simp: owner_kinds)
    then have "sentOn (cs S1) r = []" using keep wait [OF w(1) v(2)] by simp
    moreover have "r \<notin> streamOf ` set (bridgesOf S1 ts)" using fresh w(2) by (auto simp: owner_kinds)
    ultimately show ?thesis using wait(2) [OF w(1) v(2)] by auto
  qed
  ultimately show ?thesis by (simp add: bridgesOK_def)
qed

section \<open>Downloads\<close>

fun writesTo :: "cthread \<Rightarrow> nat option" where
  "writesTo (Socks k) = Some k"
| "writesTo (SocksWait k i r) = Some k"
| "writesTo (SocksCopy k r) = Some k"
| "writesTo _ = None"

fun readsFrom :: "cthread \<Rightarrow> nat option" where
  "readsFrom (SocksWait k i r) = Some r"
| "readsFrom (SocksCopy k r) = Some r"
| "readsFrom _ = None"

abbreviation given :: "cstate \<Rightarrow> nat \<Rightarrow> bytes" where
  "given S k \<equiv> wout (lout (conns S ! k))"

abbreviation takenOn :: "cstate \<Rightarrow> nat \<Rightarrow> bytes" where
  "takenOn S r \<equiv> readout (tobjs (cs S) ! r)"

text \<open>A local connection is written, and a stream is read, by one goroutine; what the application has received
  since the bridge began is what was read from the stream, up to a failed write.\<close>

definition copyOK :: "cstate \<Rightarrow> nat \<times> nat \<times> bytes \<Rightarrow> bool" where
  "copyOK S b \<longleftrightarrow>
     (\<exists>x. given S (connOf b) = snd (snd b) @ x \<and> prefix x (takenOn S (streamOf b))) \<and>
     (\<forall>t\<in>set (cthreads S). writesTo t = Some (connOf b) \<or> readsFrom t = Some (streamOf b) \<longrightarrow>
        t = SocksCopy (connOf b) (streamOf b) \<and> given S (connOf b) = snd (snd b) @ takenOn S (streamOf b))"

definition copiesOK :: "bridges \<Rightarrow> cstate \<Rightarrow> bool" where
  "copiesOK B S \<longleftrightarrow>
     distinct (List.map_filter writesTo (cthreads S)) \<and> distinct (List.map_filter readsFrom (cthreads S)) \<and>
     (\<forall>t\<in>set (cthreads S). (\<forall>k. writesTo t = Some k \<longrightarrow> k < length (conns S)) \<and>
        (\<forall>r. readsFrom t = Some r \<longrightarrow> r < length (tobjs (cs S)) \<and> (waiting t = Some r \<longrightarrow> takenOn S r = []))) \<and>
     (\<forall>b\<in>set B. connOf b < length (conns S) \<and> streamOf b < length (tobjs (cs S)) \<and> copyOK S b)"

lemma conns_local [simp]:
  "length (conns (onConn k f S)) = length (conns S)" "length (conns (snd (localWrite k bs S))) = length (conns S)"
  "length (conns (localClose k S)) = length (conns S)"
  by (simp_all add: onConn_def localWrite_def localClose_def)

lemma given_local:
  "j \<noteq> k \<Longrightarrow> given (onConn k f S) j = given S j" "j \<noteq> k \<Longrightarrow> given (snd (localWrite k bs S)) j = given S j"
  "given (localClose k S) j = given S j" "given (S\<lparr>cs := s\<rparr>) j = given S j"
proof -
  show "given (localClose k S) j = given S j"
    by (cases "j = k"; cases "k < length (conns S)") (simp_all add: localClose_def onConn_def list_update_beyond)
qed (simp_all add: onConn_def localWrite_def)

lemma step_given:
  assumes st: "cthreadStep C X u S = Some (t, ts, S1)" and j: "writesTo u \<noteq> Some j"
  shows "given S1 j = given S j"
proof (cases u)
  case (Bridge k r)
  have "wout (lout ((conns S)[k := (conns S ! k)\<lparr>lin := rd, lread := b\<rparr>] ! j)) = given S j"
    "wout (lout ((conns S)[k := (conns S ! k)\<lparr>lin := rd\<rparr>] ! j)) = given S j" for rd b
    by (cases "j = k"; cases "k < length (conns S)"; simp add: list_update_beyond)+
  then show ?thesis
    using st Bridge by (auto simp: cthreadStep_def Let_def case_prod_beta onConn_def split: if_splits)
next
  case (Socks k)
  then have "j \<noteq> k" using j by auto
  then show ?thesis
    using st Socks
    by (auto simp: cthreadStep_def Let_def case_prod_beta given_local split: socks_req.splits option.splits)
next
  case (SocksWait k i r)
  then have "j \<noteq> k" using j by auto
  then show ?thesis
    using st SocksWait by (auto simp: cthreadStep_def given_local split: option.splits bool.splits)
next
  case (SocksCopy k r)
  then have "j \<noteq> k" using j by auto
  then show ?thesis
    using st SocksCopy by (auto simp: cthreadStep_def Let_def case_prod_beta given_local split: option.splits if_splits)
qed (use st in \<open>auto simp: cthreadStep_def Let_def case_prod_beta
      split: sum.splits option.splits prod.splits if_splits bool.splits list.splits\<close>)

text \<open>Only the copying goroutine reads its stream.\<close>

definition sameRead :: "tcsession \<Rightarrow> tcsession \<Rightarrow> bool" where
  "sameRead s s' \<longleftrightarrow> (\<forall>r < length (tobjs s). readout (tobjs s' ! r) = readout (tobjs s ! r))"

lemma sameRead_onStream: "(\<And>st. readout (f st) = readout st) \<Longrightarrow> sameRead s (onStream r f s)"
  unfolding sameRead_def
proof (intro allI impI)
  fix k assume f: "\<And>st. readout (f st) = readout st" and k: "k < length (tobjs s)"
  then show "readout (tobjs (onStream r f s) ! k) = readout (tobjs s ! k)" by (cases "k = r") (simp_all add: onStream_def)
qed

lemma sameRead_same: "tobjs s' = tobjs s \<Longrightarrow> sameRead s s'"
  by (simp add: sameRead_def)

lemma sameRead_dispatch: "sameRead s (snd (tc_dispatch C X i t p s))"
proof -
  have "sameRead s (s'\<lparr>tstreams := m\<rparr>)" if "sameRead s s'" for s' m using that by (simp add: sameRead_def)
  moreover have "sameRead s (snd (markClosed r s))" for r by (auto simp: markClosed_def sameRead_same intro: sameRead_onStream)
  ultimately show ?thesis
    by (auto simp: tc_dispatch_def Let_def sameRead_same tc_write_same intro!: sameRead_onStream split: option.split)
qed

lemma step_taken:
  assumes st: "cthreadStep C X u S = Some (t, ts, S1)" and u: "\<And>k q. u \<noteq> SocksCopy k q"
  shows "sameRead (cs S) (cs S1)"
proof (cases u)
  case CLoop
  obtain res rd where rf: "readAEADFrame C (tin (cs S)) (tkeyS2C (cs S)) (tseqRead (cs S)) = (res, rd)" by fastforce
  let ?s = "(cs S)\<lparr>tin := rd, tseqRead := tseqRead (cs S) + 1\<rparr>"
  have "sameRead (cs S) s2" if "sameRead ?s s2" for s2 using that by (simp add: sameRead_def)
  then show ?thesis
    using st CLoop rf sameRead_dispatch [of ?s C X]
    by (auto simp: cthreadStep_def Let_def case_prod_beta sameRead_same split: sum.splits option.splits)
next
  case (CDeliver r p)
  then show ?thesis
    using st by (auto simp: cthreadStep_def deliver_def Let_def sameRead_same intro!: sameRead_onStream split: option.splits if_splits)
next
  case (CRange ks)
  then show ?thesis
    using st by (auto simp: cthreadStep_def markClosed_def sameRead_same intro!: sameRead_onStream split: list.splits option.splits)
next
  case (Socks k)
  have "sameRead (cs S) (snd (openStart C X h p (cs S)))" for h p by (simp add: sameRead_def openStart_objs nth_append)
  then show ?thesis
    using st Socks by (auto simp: cthreadStep_def Let_def case_prod_beta sameRead_same split: socks_req.splits option.splits)
next
  case (SocksWait k i r)
  have "sameRead (cs S) (onStream r f ((cs S)\<lparr>tstreams := m\<rparr>))" if "\<And>st. readout (f st) = readout st" for f m
    using sameRead_onStream [OF that, where s = "(cs S)\<lparr>tstreams := m\<rparr>" and r = r] by (simp add: sameRead_def)
  then show ?thesis
    using st SocksWait
    by (auto simp: cthreadStep_def openSelect_def Let_def sameRead_same intro!: sameRead_onStream
        split: option.splits bool.splits choice.splits if_splits)
next
  case (BridgeAcquire k r rest)
  then show ?thesis
    using st by (auto simp: cthreadStep_def acquireWindow_def Let_def sameRead_same intro!: sameRead_onStream
        split: if_splits option.splits bool.splits)
qed (use st u in \<open>auto simp: cthreadStep_def Let_def case_prod_beta sameRead_same tc_write_same split: if_splits\<close>)

lemma takePending_out: "readout (snd (takePending n st)) = readout st @ fst (takePending n st)"
  by (simp add: takePending_def Let_def)

lemma readStream_other: "readStream r n s = Some (x, s') \<Longrightarrow> q \<noteq> r \<Longrightarrow> tobjs s' ! q = tobjs s ! q"
  by (auto simp: readStream_def onStream_def Let_def split: option.splits list.splits if_splits)

lemma readStream_out:
  assumes "readStream r n s = Some (x, s')" and "r < length (tobjs s)"
  shows "readout (tobjs s' ! r) = readout (tobjs s ! r) @ (case x of None \<Rightarrow> [] | Some out \<Rightarrow> out)"
  using assms
  by (auto simp: readStream_def onStream_def takePending_out Let_def split: option.splits list.splits if_splits)

lemma taken_kept:
  assumes st: "cthreadStep C X u S = Some (t, ts, S1)" and q: "q < length (tobjs (cs S))" and n: "\<And>k. u \<noteq> SocksCopy k q"
  shows "takenOn S1 q = takenOn S q"
proof (cases "\<exists>k r. u = SocksCopy k r")
  case True
  then obtain k r where us: "u = SocksCopy k r" by blast
  obtain y s1 where rd: "readStream r 32768 (cs S) = Some (y, s1)"
    using st us by (cases "readStream r 32768 (cs S)") (auto simp: cthreadStep_def)
  have "cs S1 = s1" using st us rd by (auto simp: cthreadStep_def Let_def case_prod_beta split: option.splits if_splits)
  moreover have "q \<noteq> r" using n [of k] us by auto
  ultimately show ?thesis using readStream_other [OF rd, of q] by simp
next
  case False
  then show ?thesis using step_taken [OF st] q by (simp add: sameRead_def)
qed

lemma socks_opens:
  assumes st: "cthreadStep C X (Socks k) S = Some (t, ts, S1)" and v: "v \<in> set (t # ts)" "readsFrom v = Some r"
  shows "takenOn S1 r = []"
proof -
  have "takenOn (S\<lparr>cs := snd (openStart C X h p (cs S))\<rparr>) (length (tobjs (cs S))) = []" for h p
    by (simp add: openStart_objs newCStream_def)
  moreover have "r = length (tobjs (cs S))" if "fst (openStart C X h p (cs S)) = Some (i, r)" for h p i r
    using openStart_outcome(5) [of C X h p "cs S" _ _ i r] that by (metis prod.collapse)
  ultimately show ?thesis
    using st v by (auto simp: cthreadStep_def Let_def case_prod_beta split: socks_req.splits option.splits)
qed

lemma wait_bridge:
  assumes "cthreadStep C X (SocksWait k i q) S = Some (t, ts, S1)" and "bridgesOf S1 ts \<noteq> []"
  shows "t = SocksCopy k q \<and> ts = [Bridge k q] \<and> bridgesOf S1 ts = [(k, q, given S1 k)]"
  using assms by (auto simp: cthreadStep_def split: option.splits bool.splits)

lemma copy_step:
  assumes st: "cthreadStep C X (SocksCopy k r) S = Some (t, ts, S1)" and r: "r < length (tobjs (cs S))" and k: "k < length (conns S)"
  shows "ts = [] \<and> (t = SocksCopy k r \<or> t = CFinished) \<and> (\<forall>q. q \<noteq> r \<longrightarrow> takenOn S1 q = takenOn S q) \<and>
         (\<exists>out x. takenOn S1 r = takenOn S r @ out \<and> given S1 k = given S k @ x \<and> prefix x out \<and> (t = SocksCopy k r \<longrightarrow> x = out))"
proof -
  obtain y s1 where rd: "readStream r 32768 (cs S) = Some (y, s1)"
    using st by (cases "readStream r 32768 (cs S)") (auto simp: cthreadStep_def)
  note ro = readStream_out [OF rd r] readStream_other [OF rd]
  show ?thesis
  proof (cases y)
    case None
    then have "t = CFinished" "ts = []" "S1 = localClose k (S\<lparr>cs := s1\<rparr>)" using st rd by (auto simp: cthreadStep_def)
    then show ?thesis using ro None by (auto simp: given_local)
  next
    case (Some out)
    let ?w = "writeConn (lout (conns S ! k)) out"
    have S1: "ts = []" "cs S1 = s1" "t = (if fst ?w then SocksCopy k r else CFinished)"
      "given S1 k = given (snd (localWrite k out (S\<lparr>cs := s1\<rparr>))) k"
      using st rd Some by (auto simp: cthreadStep_def Let_def case_prod_beta localWrite_def given_local split: if_splits)
    have g: "given S1 k = wout (snd ?w)" using S1(4) k by (simp add: localWrite_def onConn_def)
    have "\<exists>x. given S1 k = given S k @ x \<and> prefix x out \<and> (fst ?w \<longrightarrow> x = out)"
    proof (cases "fst ?w")
      case True
      then show ?thesis using g writeConn_ok [of "lout (conns S ! k)" out "snd ?w"] by (metis prefix_order.refl prod.collapse)
    next
      case False
      obtain j where "wout (snd ?w) = given S k @ take j out"
        using writeConn_prefix [of "lout (conns S ! k)" out "fst ?w" "snd ?w"] by (metis prod.collapse)
      then show ?thesis using g False take_is_prefix by metis
    qed
    then show ?thesis using S1 ro Some by (auto split: if_splits)
  qed
qed

lemma step_copiers:
  assumes "cthreadStep C X u S = Some (t, ts, S1)" and v: "v \<in> set (t # ts)"
  shows "(writesTo v = Some k \<longrightarrow> writesTo u = Some k) \<and>
         (readsFrom v = Some r \<longrightarrow> readsFrom u = Some r \<or> r = length (tobjs (cs S)) \<and> (\<exists>k. u = Socks k) \<and> r < length (tobjs (cs S1)))"
    and "length (List.map_filter writesTo (t # ts)) \<le> 1" and "length (List.map_filter readsFrom (t # ts)) \<le> 1"
proof -
  have "(\<forall>v\<in>set (t # ts). (\<forall>k. writesTo v = Some k \<longrightarrow> writesTo u = Some k) \<and>
         (\<forall>r. readsFrom v = Some r \<longrightarrow> readsFrom u = Some r \<or> r = length (tobjs (cs S)) \<and> (\<exists>k. u = Socks k) \<and> r < length (tobjs (cs S1)))) \<and>
      length (List.map_filter writesTo (t # ts)) \<le> 1 \<and> length (List.map_filter readsFrom (t # ts)) \<le> 1"
  proof (cases u)
    case CLoop
    have "writesTo (fst (tc_dispatch C X i ty p s)) = None" "readsFrom (fst (tc_dispatch C X i ty p s)) = None" for i ty p s
      by (auto simp: tc_dispatch_def split: option.split)
    then show ?thesis
      using assms CLoop
      by (auto simp: cthreadStep_def Let_def case_prod_beta List.map_filter_def split: sum.splits option.splits prod.splits)
  next
    case (Socks k)
    have "r = length (tobjs (cs S))" if "fst (openStart C X h p (cs S)) = Some (i, r)" for h p i r
      using openStart_outcome(5) [of C X h p "cs S" _ _ i r] that by (metis prod.collapse)
    then show ?thesis
      using assms Socks
      by (auto simp: cthreadStep_def Let_def case_prod_beta List.map_filter_def openStart_objs split: socks_req.splits option.splits)
  qed (use assms in \<open>auto simp: cthreadStep_def Let_def case_prod_beta List.map_filter_def
        split: if_splits option.splits bool.splits list.splits\<close>)
  then show "(writesTo v = Some k \<longrightarrow> writesTo u = Some k) \<and>
         (readsFrom v = Some r \<longrightarrow> readsFrom u = Some r \<or> r = length (tobjs (cs S)) \<and> (\<exists>k. u = Socks k) \<and> r < length (tobjs (cs S1)))"
    and "length (List.map_filter writesTo (t # ts)) \<le> 1" and "length (List.map_filter readsFrom (t # ts)) \<le> 1"
    using v by blast+
qed

lemma copyOK_step:
  assumes b: "copyOK S b" "connOf b < length (conns S)" "streamOf b < length (tobjs (cs S))"
    and u: "u \<in> set (cthreads S)" and st: "cthreadStep C X u S = Some (t, ts, S1)"
    and ths: "\<And>v. v \<in> set ths \<Longrightarrow> v \<in> set (t # ts) \<or>
        v \<in> set (cthreads S) \<and> (writesTo v = Some (connOf b) \<longrightarrow> writesTo u \<noteq> Some (connOf b)) \<and>
        (readsFrom v = Some (streamOf b) \<longrightarrow> readsFrom u \<noteq> Some (streamOf b))"
  shows "copyOK (S1\<lparr>cthreads := ths\<rparr>) b"
proof -
  let ?k = "connOf b" and ?q = "streamOf b" and ?pre = "snd (snd b)"
  have old: "v \<in> set (cthreads S) \<Longrightarrow> writesTo v = Some ?k \<or> readsFrom v = Some ?q \<Longrightarrow>
      v = SocksCopy ?k ?q \<and> given S ?k = ?pre @ takenOn S ?q" for v
    using b(1) by (auto simp: copyOK_def)
  have new: "writesTo v = Some ?k \<or> readsFrom v = Some ?q \<Longrightarrow> v \<in> set (t # ts) \<Longrightarrow> u = SocksCopy ?k ?q" for v
    using step_copiers(1) [OF st, of v ?k ?q] old [OF u] b(3) by auto
  show ?thesis
  proof (cases "u = SocksCopy ?k ?q")
    case True
    from copy_step [of C X ?k ?q S t ts S1] st True b(2,3) obtain out x where c: "ts = []" "t = SocksCopy ?k ?q \<or> t = CFinished"
      "takenOn S1 ?q = takenOn S ?q @ out" "given S1 ?k = given S ?k @ x" "prefix x out" "t = SocksCopy ?k ?q \<longrightarrow> x = out"
      by blast
    have g: "given S ?k = ?pre @ takenOn S ?q" using old [OF u] True by simp
    have "v = SocksCopy ?k ?q \<and> given S1 ?k = ?pre @ takenOn S1 ?q"
      if "v \<in> set ths" "writesTo v = Some ?k \<or> readsFrom v = Some ?q" for v
      using ths [OF that(1)] that(2) old [of v] True c g by auto
    moreover have "\<exists>y. given S1 ?k = ?pre @ y \<and> prefix y (takenOn S1 ?q)" using c g by auto
    ultimately show ?thesis by (simp add: copyOK_def)
  next
    case False
    then have nk: "writesTo u \<noteq> Some ?k" "readsFrom u \<noteq> Some ?q" using old [OF u] by blast+
    have g: "given S1 ?k = given S ?k" by (rule step_given [OF st nk(1)])
    have q: "takenOn S1 ?q = takenOn S ?q" by (rule taken_kept [OF st b(3)]) (use nk in auto)
    have "v = SocksCopy ?k ?q \<and> given S1 ?k = ?pre @ takenOn S1 ?q"
      if "v \<in> set ths" "writesTo v = Some ?k \<or> readsFrom v = Some ?q" for v
      using ths [OF that(1)] new [OF that(2)] False old [OF _ that(2)] g q by auto
    then show ?thesis using b(1) g q by (simp add: copyOK_def)
  qed
qed

lemma copiesOK_step:
  assumes ok: "copiesOK B S" and n: "n < length (cthreads S)" and st: "cthreadStep C X (cthreads S ! n) S = Some (t, ts, S1)"
    and len: "length (tobjs (cs S)) \<le> length (tobjs (cs S1))"
  shows "copiesOK (B @ bridgesOf S1 ts) (S1\<lparr>cthreads := (cthreads S)[n := t] @ ts\<rparr>)"
proof -
  let ?u = "cthreads S ! n" and ?ths = "(cthreads S)[n := t] @ ts"
  let ?S = "S1\<lparr>cthreads := ?ths\<rparr>"
  have u: "?u \<in> set (cthreads S)" using n by simp
  have dw: "distinct (List.map_filter writesTo (cthreads S))" and dr: "distinct (List.map_filter readsFrom (cthreads S))"
    using ok by (simp_all add: copiesOK_def)
  have wr: "writesTo v = Some k \<Longrightarrow> k < length (conns S)" and rr: "readsFrom v = Some r \<Longrightarrow> r < length (tobjs (cs S))"
    and ww: "waiting v = Some r \<Longrightarrow> takenOn S r = []" if "v \<in> set (cthreads S)" for v k r
    using ok that by (auto simp: copiesOK_def elim!: waiting.elims)
  have cl: "length (conns S1) = length (conns S)" using lread_mono [OF st] by blast
  note cp = step_copiers [OF st] and new = bridgesOf_step [OF st]
  have split: "?ths = take n (cthreads S) @ t # drop (Suc n) (cthreads S) @ ts" and old: "cthreads S = take n (cthreads S) @ ?u # drop (Suc n) (cthreads S)"
    using n by (simp_all add: upd_conv_take_nth_drop id_take_nth_drop)
  have tin: "t \<in> set (t # ts)" by simp
  have apart_w: "v \<in> set (t # ts) \<or> v \<in> set (cthreads S) \<and> (writesTo v = Some k \<longrightarrow> writesTo ?u \<noteq> Some k)"
    and apart_r: "v \<in> set (t # ts) \<or> v \<in> set (cthreads S) \<and> (readsFrom v = Some r \<longrightarrow> readsFrom ?u \<noteq> Some r)"
    if "v \<in> set ?ths" for v k r
    using owners_differ [OF dw n that] owners_differ [OF dr n that] by blast+
  have "distinct (List.map_filter writesTo ?ths)"
    unfolding split
  proof (rule distinct_replace [OF _ cp(2) [OF tin], where u = ?u])
    show "distinct (List.map_filter writesTo (take n (cthreads S) @ ?u # drop (Suc n) (cthreads S)))" using dw old by simp
  qed (use cp(1) in blast)
  moreover have "distinct (List.map_filter readsFrom ?ths)"
    unfolding split
  proof (rule distinct_replace [OF _ cp(3) [OF tin], where u = ?u])
    show "distinct (List.map_filter readsFrom (take n (cthreads S) @ ?u # drop (Suc n) (cthreads S)))" using dr old by simp
    show "readsFrom ?u = Some x \<or> x \<notin> set (List.map_filter readsFrom (take n (cthreads S) @ ?u # drop (Suc n) (cthreads S)))"
      if "v \<in> set (t # ts)" "readsFrom v = Some x" for v x
      using cp(1) [OF that(1)] that(2) rr old by (metis set_map_filter less_irrefl)
  qed
  moreover have "k < length (conns S1)" if "v \<in> set ?ths" "writesTo v = Some k" for v k
    using apart_w [OF that(1), of k] cp(1) wr u that(2) cl by metis
  moreover have "r < length (tobjs (cs S1)) \<and> (waiting v = Some r \<longrightarrow> takenOn S1 r = [])"
    if v: "v \<in> set ?ths" "readsFrom v = Some r" for v r
  proof (cases "v \<in> set (t # ts)")
    case True
    show ?thesis
    proof (cases "readsFrom ?u = Some r")
      case True
      then have "r < length (tobjs (cs S))" using rr u by blast
      moreover have "waiting v \<noteq> Some r" using new True \<open>v \<in> set (t # ts)\<close> by (metis less_irrefl calculation)
      ultimately show ?thesis using len by simp
    next
      case False
      then obtain k where "?u = Socks k" "r < length (tobjs (cs S1))" using cp(1) [OF True] v(2) by blast
      then show ?thesis using socks_opens [of C X k S t ts S1 v r] st True v(2) by simp
    qed
  next
    case False
    then have w: "v \<in> set (cthreads S)" "readsFrom ?u \<noteq> Some r" using apart_r [OF v(1), of r] v(2) by blast+
    then have r: "r < length (tobjs (cs S))" using rr v(2) by blast
    then have "takenOn S1 r = takenOn S r" by (rule taken_kept [OF st]) (use w(2) in auto)
    then show ?thesis using ww w(1) r len by simp
  qed
  moreover have "connOf b < length (conns S1) \<and> streamOf b < length (tobjs (cs S1)) \<and> copyOK ?S b"
    if b: "b \<in> set (B @ bridgesOf S1 ts)" for b
  proof (cases "b \<in> set B")
    case True
    then have k: "connOf b < length (conns S)" "streamOf b < length (tobjs (cs S))" "copyOK S b"
      using ok by (auto simp: copiesOK_def)
    have "copyOK ?S b"
      by (rule copyOK_step [OF k(3,1,2) u st]) (use apart_w [of _ "connOf b"] apart_r [of _ "streamOf b"] in blast)
    then show ?thesis using k len cl by simp
  next
    case False
    then have nb: "bridgesOf S1 ts \<noteq> []" using b by auto
    then obtain k i q where us: "?u = SocksWait k i q" using new by auto
    then have w: "t = SocksCopy k q" "ts = [Bridge k q]" "b = (k, q, given S1 k)"
      using wait_bridge [of C X k i q S t ts S1] st nb False b by auto
    have q: "k < length (conns S)" "q < length (tobjs (cs S))" "takenOn S q = []"
      using wr [OF u] rr [OF u] ww [OF u] us by auto
    have tk: "takenOn S1 q = []" using taken_kept [OF st q(2)] us q(3) by simp
    have "v = t" if "v \<in> set ?ths" "writesTo v = Some k \<or> readsFrom v = Some q" for v
      using apart_w [OF that(1), of k] apart_r [OF that(1), of q] that(2) us w(2) by auto
    then have "copyOK ?S b" using w tk by (auto simp: copyOK_def)
    then show ?thesis using w q len cl by simp
  qed
  ultimately show ?thesis by (simp add: copiesOK_def)
qed

end
