(* ===== verification/Tunnel_Joint.thy ===== *)
theory Tunnel_Joint
  imports Tunnel_Server Tunnel_Bridge
begin

text \<open>
  The invariant of the joint state machine. Either end's theory assumes something of the frames it
  reads; here each assumption is discharged by the other end's invariant, and the history of every
  stream is tied to the local connection it was opened for.
\<close>

section \<open>What a step of the session does to its streams\<close>

lemma new_accepted:
  assumes st: "threadStep E X u S = Some (t, ts, S')" and r: "length (objs (ses S)) \<le> r" "r < length (objs (ses S'))"
  shows "accepted (objs (ses S') ! r) = [] \<and> granted (objs (ses S') ! r) = 0"
proof -
  have "length (map st_id (objs (ses S'))) = length (map st_id (objs (ses S)) @ newIds X u)"
    using step_ids(1) [OF st] by simp
  then obtain i a where u: "u = OpenerDial i a" "dialOK X" using r by (cases u) (auto simp: newIds_def split: if_splits)
  then have "objs (ses S') = objs (ses S) @ [newStream i]"
    using st by (auto simp: threadStep_def Let_def split: if_splits)
  then show ?thesis using r by (simp add: nth_append newStream_def)
qed

lemma granted_mono:
  assumes st: "threadStep E X u S = Some (t, ts, S')" and r: "r < length (objs (ses S))" and tf: "threadFlow (objs (ses S)) u"
  shows "granted (objs (ses S) ! r) \<le> granted (objs (ses S') ! r)"
proof (cases "\<exists>j c. u = PumpCredit j r c")
  case True
  then obtain j c where us: "u = PumpCredit j r c" by blast
  then have "0 < c" using tf by simp
  let ?S = "snd (writeSF E X j v2TypeWindowUpdate (putBE 4 (nat c)) S)"
  from st us consider "S' = noteCredit r c ?S" | "S' = closeStream j (closeUpstream r ?S)"
    by (auto simp: threadStep_def case_prod_beta split: if_splits)
  then show ?thesis
  proof cases
    case 1
    then show ?thesis using r \<open>0 < c\<close> by (simp add: objs_update)
  next
    case 2
    have "map granted (objs (ses S')) = map granted (objs (ses S))" unfolding 2 by simp
    then show ?thesis using r by (metis length_map nth_map order_refl)
  qed
next
  case False
  then show ?thesis using step_granted [OF st r] by simp
qed

section \<open>The joint invariant\<close>

definition countersOK :: "tunnel \<Rightarrow> bool" where
  "countersOK J \<longleftrightarrow>
     seqRead (srv J) = 1 + word_of_nat (upread J) \<and> upread J \<le> length (sentC J) \<and>
     tseqRead (cli J) = 1 + word_of_nat (downread J) \<and> downread J \<le> length (sentS J)"

definition readerAt :: "cthread list \<Rightarrow> bool" where
  "readerAt ths \<longleftrightarrow>
     ths \<noteq> [] \<and> (creader (hd ths) \<or> hd ths = CFinished) \<and> (\<forall>u\<in>set (tl ths). \<not> creader u)"

definition clientOK :: "tunnel \<Rightarrow> bool" where
  "clientOK J \<longleftrightarrow>
     readerAt (cthreads (client J)) \<and>
     cliS (gotC J) (hd (cthreads (client J))) (cli J) \<and> teardownC (hd (cthreads (client J))) (cli J) \<and>
     (\<forall>v\<in>set (cthreads (client J)). ackedC (gotC J) (cli J) v) \<and>
     bridgesOK (gotC J) (bridged J) (client J) \<and> copiesOK (bridged J) (client J)"

text \<open>What a stream of the server has accepted is within its window, and is what the local connection of
  that stream has sent.\<close>

definition historyOK :: "tunnel \<Rightarrow> bool" where
  "historyOK J \<longleftrightarrow>
     (\<forall>r < length (objs (srv J)).
        int (length (accepted (objs (srv J) ! r))) \<le> v2InitialWindow + granted (objs (srv J) ! r) \<and>
        (\<forall>b\<in>set (bridged J). cst_id (tobjs (cli J) ! streamOf b) = st_id (objs (srv J) ! r) \<longrightarrow>
           prefix (accepted (objs (srv J) ! r)) (lread (conns (client J) ! connOf b))))"

definition jointOK :: "tunnel \<Rightarrow> bool" where
  "jointOK J \<longleftrightarrow>
     inRange J \<and> countersOK J \<and> srvInv (gotS J) (fetched J) (srv J) \<and> clientOK J \<and> historyOK J"

lemma jointOK_D:
  assumes "jointOK J"
  shows "inRange J" "countersOK J" "srvInv (gotS J) (fetched J) (srv J)" "clientOK J" "historyOK J"
  using assms by (simp_all add: jointOK_def)

lemma clientOK_D:
  assumes "jointOK J"
  shows "readerAt (cthreads (client J))" "cliS (gotC J) (hd (cthreads (client J))) (cli J)"
    "teardownC (hd (cthreads (client J))) (cli J)" "\<And>v. v \<in> set (cthreads (client J)) \<Longrightarrow> ackedC (gotC J) (cli J) v"
    "bridgesOK (gotC J) (bridged J) (client J)" "copiesOK (bridged J) (client J)"
  using assms unfolding jointOK_def clientOK_def by blast+

lemma serverOK_D:
  assumes "jointOK J"
  shows "opensOK (gotS J) (srv J)" "ackedOK (srv J)" "acceptOK (gotS J) (hd (threads (srv J))) (srv J)"
    "paidOK (srv J)" "fetchOK (fetched J) (srv J)" "acksOK (srv J)"
  using assms unfolding jointOK_def srvInv_def by blast+

lemma count_distinct: "distinct xs \<Longrightarrow> count_list xs x \<le> 1"
  by (induction xs) auto

section \<open>Each end's assumptions hold of the other\<close>

lemma count_le:
  "countFrames i t (gotS J) \<le> countFrames i t (sentC J)" "countFrames i t (gotC J) \<le> countFrames i t (sentS J)"
  "amounts i t (gotC J) \<le> amounts i t (sentS J)"
  by (simp_all add: gotS_def gotC_def countFrames_take amounts_take)

lemma client_ids:
  assumes "sideC C (client J)" and "inRange J"
  shows "distinct (map cst_id (tobjs (cli J)))" "uploadOK (client J)" "tnextID (cli J) \<notin> set (map cst_id (tobjs (cli J)))"
proof -
  let ?s = "cli J" and ?o = "newCStream (tnextID (cli J))"
  have l: "length (tobjs ?s) < 2 ^ 31" and i: "idsOK ?s" using assms by (simp_all add: sideC_def upInv_def inRange_def)
  then show "distinct (map cst_id (tobjs ?s))" "uploadOK (client J)"
    using assms(1) idsOK_distinct [OF i] by (simp_all add: sideC_def upInv_def)
  have "idsOK (?s\<lparr>tnextID := tnextID ?s + 2, tobjs := tobjs ?s @ [?o]\<rparr>)"
    using i by (auto simp: idsOK_def newCStream_def nth_append less_Suc_eq algebra_simps)
  then have "distinct (map cst_id (tobjs ?s @ [?o]))" using idsOK_distinct l by fastforce
  then show "tnextID ?s \<notin> set (map cst_id (tobjs ?s))" by (simp add: newCStream_def)
qed

text \<open>An OPEN is read at most once, and what the server sends back answers it.\<close>

lemma opens_once:
  assumes "jointOK J" and "sideC C (client J)"
  shows "countFrames i v2TypeOpen (sentC J) \<le> 1"
    and "0 < countFrames i v2TypeOpen (sentC J) \<Longrightarrow> i \<in> set (map cst_id (tobjs (cli J)))"
    and "countFrames i v2TypeOpenOK (sentS J) \<le> countFrames i v2TypeOpen (sentC J)"
proof -
  have "countFrames i v2TypeOpen (sentC J) \<le> count_list (map cst_id (tobjs (cli J))) i"
    using cliS_D(2) [OF clientOK_D(2) [OF assms(1)]] by (simp add: sentC_def)
  moreover have "count_list (map cst_id (tobjs (cli J))) i \<le> 1"
    using client_ids(1) [OF assms(2) jointOK_D(1) [OF assms(1)]] by (rule count_distinct)
  ultimately show "countFrames i v2TypeOpen (sentC J) \<le> 1"
    and "0 < countFrames i v2TypeOpen (sentC J) \<Longrightarrow> i \<in> set (map cst_id (tobjs (cli J)))"
    using count_list_0_iff [of "map cst_id (tobjs (cli J))" i] by linarith+
  show "countFrames i v2TypeOpenOK (sentS J) \<le> countFrames i v2TypeOpen (sentC J)"
    using serverOK_D(1) [OF assms(1)] count_le(1) [of i v2TypeOpen J]
    unfolding opensOK_def sentS_def by (meson add_leD2 order_trans)
qed

lemma politeC:
  assumes "jointOK J" and "sideC C (client J)"
  shows "polite (take n (sentC J)) (srv J)"
  unfolding polite_def
proof (intro allI conjI impI)
  fix i
  show "countFrames i v2TypeOpen (take n (sentC J)) \<le> 1"
    using opens_once(1) [OF assms, of i] countFrames_take [of i v2TypeOpen n "sentC J"] by linarith
  assume "0 < countFrames i v2TypeData (take n (sentC J))"
  then have "0 < countFrames i v2TypeData (sentT (cli J))" unfolding sentC_def by (rule countFrames_take_pos)
  then have "0 < countFrames i v2TypeOpenOK (gotC J)"
    using cliS_D(3) [OF clientOK_D(2) [OF assms(1)]] by blast
  then show "0 < countFrames i v2TypeOpenOK (sentBy (srv J))" using count_le(2) [of i v2TypeOpenOK J] by (simp add: sentS_def)
qed

lemma courteousS:
  assumes "jointOK J" and "sideC C (client J)"
  shows "courteous (take n (sentS J))"
  unfolding courteous_def
proof (intro conjI allI ballI)
  fix i
  show "countFrames i v2TypeOpenOK (take n (sentS J)) \<le> 1"
    using opens_once(1,3) [OF assms, of i] countFrames_take [of i v2TypeOpenOK n "sentS J"] by linarith
next
  fix pt assume "pt \<in> set (take n (sentS J))"
  then have "pt \<in> set (sentS J)" by (rule in_set_takeD)
  then show "grantsWindow pt" using serverOK_D(6) [OF assms(1)] unfolding acksOK_def sentS_def by blast
qed

lemma fresh_silent:
  assumes "jointOK J" and "sideC C (client J)" and "i \<notin> set (map cst_id (tobjs (cli J)))"
  shows "dataFrames i (gotC J) = []"
proof (rule dataFrames_none, rule ccontr)
  assume "countFrames i v2TypeData (gotC J) \<noteq> 0"
  then have "0 < countFrames i v2TypeData (sentS J)" using count_le(2) [of i v2TypeData J] by linarith
  then have "0 < countFrames i v2TypeOpenOK (sentS J)"
    using serverOK_D(2) [OF assms(1)] unfolding ackedOK_def sentS_def by blast
  then show False using opens_once(2,3) [OF assms(1,2), of i] assms(3) by linarith
qed

text \<open>While a stream is open at the server, the client has sent no more on it than its window.\<close>

lemma sent_within_window:
  assumes j: "jointOK J" and c: "sideC C (client J)" and m: "map_of (streams (srv J)) i = Some r"
    and o: "\<not> st_closed (objs (srv J) ! r)"
  shows "int (length (dataFrames i (sentC J))) \<le> v2InitialWindow + granted (objs (srv J) ! r)"
proof -
  note ids = client_ids [OF c jointOK_D(1) [OF j]]
  have paid: "int (amounts i v2TypeWindowUpdate (sentS J)) \<le> granted (objs (srv J) ! r)"
    "amounts i v2TypeOpenOK (sentS J) \<le> nat v2InitialWindow * countFrames i v2TypeOpenOK (sentS J)"
    using serverOK_D(4) [OF j] m o unfolding paidOK_def sentS_def by blast+
  have sent: "dataFrames i (sentC J) = dataOf i (tsealed (cli J))" by (simp add: sentC_def dataFrames_map)
  have w: "0 \<le> v2InitialWindow" by (simp add: v2_limits)
  show ?thesis
  proof (cases "i \<in> cst_id ` set (tobjs (cli J))")
    case False
    then have "dataOf i (tsealed (cli J)) = []" using ids(2) by (simp add: uploadOK_def)
    then show ?thesis using paid(1) sent w by simp
  next
    case True
    then obtain q where q: "q < length (tobjs (cli J))" "cst_id (tobjs (cli J) ! q) = i" by (auto simp: in_set_conv_nth)
    let ?st = "tobjs (cli J) ! q"
    have l: "int (length (dataOf i (tsealed (cli J)))) \<le> acquired ?st" using ids(2) q by (auto simp: uploadOK_def)
    have sc: "streamC (gotC J) (tclosed (cli J)) ?st" by (rule cliS_D(4) [OF clientOK_D(2) [OF j] q(1)])
    have cs: "cstrOK ?st" using c q(1) by (simp add: sideC_def flowC_def)
    have "acquired ?st \<le> v2InitialWindow + granted (objs (srv J) ! r)"
    proof (cases "acquired ?st = 0")
      case False
      then have "acquired ?st \<le> wlimit ?st" using sc cs by (simp add: streamC_def cstrOK_def)
      also have "\<dots> \<le> int (amounts i v2TypeOpenOK (sentS J) + amounts i v2TypeWindowUpdate (sentS J))"
        using sc q(2) count_le(3) [of i v2TypeOpenOK J] count_le(3) [of i v2TypeWindowUpdate J] by (simp add: streamC_def)
      also have "\<dots> \<le> int (nat v2InitialWindow * 1) + granted (objs (srv J) ! r)"
      proof -
        have "countFrames i v2TypeOpenOK (sentS J) \<le> 1" using opens_once(1,3) [OF j c, of i] by linarith
        then have "amounts i v2TypeOpenOK (sentS J) \<le> nat v2InitialWindow * 1"
          using paid(2) mult_le_mono2 order_trans by blast
        then show ?thesis using paid(1) w by linarith
      qed
      finally show ?thesis using w by simp
    qed (use paid(1) w in simp)
    then show ?thesis using l sent by simp
  qed
qed

section \<open>Reading\<close>

lemma frame_fits: "length p \<le> maxPlaintextSize - v2FrameHeader \<Longrightarrow> length (streamFrame i t p) \<le> maxPlaintextSize"
  by (simp add: streamFrame_length frame_consts v2FrameHeader_def)

lemma sealed_fit:
  "wireC C s \<Longrightarrow> f \<in> set (tsealed s) \<Longrightarrow> length (snd f) \<le> maxPlaintextSize"
  "wireOK C s' \<Longrightarrow> f' \<in> set (sealed s') \<Longrightarrow> length (snd f') \<le> maxPlaintextSize"
  using frame_fits by (fastforce simp: wireC_def, fastforce simp: wireOK_def)

lemma next_box:
  assumes un: "unforged C key (1 + word_of_nat m) (boxes key' fs) rd" and m: "m \<le> length fs" "length fs < 2 ^ 64"
    and fit: "\<And>f. f \<in> set fs \<Longrightarrow> length (snd f) \<le> maxPlaintextSize"
    and sq: "sq' = 1 + word_of_nat m + (word_of_nat (length new) :: u64)"
    and new: "new = (case readFrame C rd key (1 + word_of_nat m) of (Inr pt, _) \<Rightarrow> [pt] | _ \<Rightarrow> [])"
    and k: "k = m + (if sq' = 1 + word_of_nat m then 0 else 1)"
  shows "take k (map snd fs) = take m (map snd fs) @ new \<and> k \<le> length fs \<and> sq' = 1 + word_of_nat k"
proof (cases "\<exists>pt rd'. readFrame C rd key (1 + word_of_nat m) = (Inr pt, rd')")
  case True
  then obtain pt rd' where rf: "readFrame C rd key (1 + word_of_nat m) = (Inr pt, rd')" by blast
  from readFrame_boxed [OF un m rf] fit have b: "m < length fs" "pt = snd (fs ! m)" by blast+
  then show ?thesis using rf sq new k by (simp add: take_Suc_conv_app_nth algebra_simps)
next
  case False
  then have "new = []" using new by (auto split: prod.splits sum.splits)
  then show ?thesis using k sq m by simp
qed

lemma same_box:
  assumes sq: "sq' = 1 + word_of_nat m + (word_of_nat (length new) :: u64)" and new: "new = []" and m: "m \<le> length fs"
    and k: "k = m + (if sq' = 1 + word_of_nat m then 0 else 1)"
  shows "take k (map snd fs) = take m (map snd fs) @ new \<and> k \<le> length fs \<and> sq' = 1 + word_of_nat k"
  using assms by simp

text \<open>What the client reads.\<close>

lemma cstep_seqRead:
  assumes "cthreadStep C X u S = Some (t, ts, S1)"
  shows "tseqRead (cs S1) = tseqRead (cs S) + word_of_nat (length (readNowC C u (cs S)))"
proof (cases u)
  case CLoop
  have d: "tseqRead (snd (tc_dispatch C X i ty p s)) = tseqRead s" for i ty p s
    by (auto simp: tc_dispatch_def markClosed_def onStream_def Let_def tc_write_same split: option.split)
  show ?thesis
    using assms CLoop
    by (auto simp: cthreadStep_def readNowC_def Let_def case_prod_beta d split: sum.splits option.splits prod.splits)
next
  case (Socks k)
  have "tseqRead (snd (openStart C X h p s)) = tseqRead s" for h p s
    by (simp add: openStart_def Let_def case_prod_beta tc_write_same)
  then show ?thesis
    using assms Socks by (auto simp: cthreadStep_def readNowC_def Let_def case_prod_beta split: socks_req.splits option.splits)
next
  case (SocksWait k i r)
  then show ?thesis
    using assms by (auto simp: cthreadStep_def readNowC_def openSelect_def onStream_def Let_def
        split: option.splits bool.splits choice.splits if_splits)
next
  case (SocksCopy k r)
  have "readStream r n s = Some (x, s') \<Longrightarrow> tseqRead s' = tseqRead s" for n s x s'
    by (auto simp: readStream_def onStream_def Let_def split: option.splits list.splits if_splits)
  then show ?thesis
    using assms SocksCopy by (auto simp: cthreadStep_def readNowC_def Let_def case_prod_beta split: option.splits if_splits)
qed (use assms in \<open>auto simp: cthreadStep_def readNowC_def Let_def case_prod_beta tc_write_same acquireWindow_def deliver_def
      markClosed_def onStream_def split: if_splits option.splits bool.splits list.splits\<close>)

section \<open>Steps of the session\<close>

lemma server_grows:
  assumes sch: "schedule E X n S = Some T"
  shows "\<exists>fs. sentBy (ses T) = sentBy (ses S) @ fs"
    and "seqRead (ses T) = seqRead (ses S) + word_of_nat (length (readNow E (threads (ses S) ! n) (ses S)))"
proof -
  from sch obtain t ts S1 where st: "threadStep E X (threads (ses S) ! n) S = Some (t, ts, S1)"
    and T: "T = S1\<lparr>ses := (ses S1)\<lparr>threads := (threads (ses S))[n := t] @ ts\<rparr>\<rparr>"
    by (rule schedule_SomeE)
  show "\<exists>fs. sentBy (ses T) = sentBy (ses S) @ fs" using step_frames [OF st, of 0] by (auto simp: frameStep_def T)
  show "seqRead (ses T) = seqRead (ses S) + word_of_nat (length (readNow E (threads (ses S) ! n) (ses S)))"
    using step_seqRead [OF st] by (simp add: T)
qed

lemma history_server:
  assumes j: "jointOK J" and c: "sideC C (client J)" and s: "sideS E (srv J)" and sch: "schedule E X n (server J) = Some T"
    and acc: "acceptOK g (hd (threads (ses T))) (ses T)" and g: "\<And>i. prefix (dataFrames i g) (dataFrames i (sentC J))"
    and r: "r < length (objs (ses T))"
  shows "int (length (accepted (objs (ses T) ! r))) \<le> v2InitialWindow + granted (objs (ses T) ! r)"
    and "b \<in> set (bridged J) \<Longrightarrow> cst_id (tobjs (cli J) ! streamOf b) = st_id (objs (ses T) ! r) \<Longrightarrow>
         prefix (accepted (objs (ses T) ! r)) (lread (conns (client J) ! connOf b))"
proof -
  let ?u = "threads (srv J) ! n" and ?S = "server J"
  from sch obtain t ts S1 where n: "n < length (threads (srv J))" and st: "threadStep E X ?u ?S = Some (t, ts, S1)"
    and T: "T = S1\<lparr>ses := (ses S1)\<lparr>threads := (threads (srv J))[n := t] @ ts\<rparr>\<rparr>"
    by (rule schedule_SomeE)
  have o: "objs (ses T) = objs (ses S1)" by (simp add: T)
  have tf: "threadFlow (objs (srv J)) ?u" using s n by (simp add: sideS_def flowOK_def)
  have "int (length (accepted (objs (ses T) ! r))) \<le> v2InitialWindow + granted (objs (ses T) ! r) \<and>
    (\<forall>b\<in>set (bridged J). cst_id (tobjs (cli J) ! streamOf b) = st_id (objs (ses T) ! r) \<longrightarrow>
       prefix (accepted (objs (ses T) ! r)) (lread (conns (client J) ! connOf b)))"
  proof (cases "r < length (objs (srv J))")
    case False
    then show ?thesis using new_accepted [OF st, of r] r by (simp add: o v2_limits)
  next
    case True
    have id: "st_id (objs (ses T) ! r) = st_id (objs (srv J) ! r)"
      using arg_cong [OF step_ids(1) [OF st], of "\<lambda>xs. xs ! r"] True r by (simp add: o nth_append)
    have old: "int (length (accepted (objs (srv J) ! r))) \<le> v2InitialWindow + granted (objs (srv J) ! r)"
      "\<forall>b\<in>set (bridged J). cst_id (tobjs (cli J) ! streamOf b) = st_id (objs (srv J) ! r) \<longrightarrow>
         prefix (accepted (objs (srv J) ! r)) (lread (conns (client J) ! connOf b))"
      using jointOK_D(5) [OF j] True by (simp_all add: historyOK_def)
    have gm: "granted (objs (srv J) ! r) \<le> granted (objs (ses T) ! r)" using granted_mono [OF st True tf] by (simp add: o)
    from step_stream [OF st True] show ?thesis
    proof
      assume "accepted (objs (ses S1) ! r) = accepted (objs (srv J) ! r) \<and>
        (st_closed (objs (srv J) ! r) \<longrightarrow> st_closed (objs (ses S1) ! r))"
      then show ?thesis using old gm id by (simp add: o)
    next
      assume "\<exists>p. ?u = RlEnqueue r p \<and> \<not> st_closed (objs (srv J) ! r)"
      then obtain p where u: "?u = RlEnqueue r p" and op: "\<not> st_closed (objs (srv J) ! r)" by blast
      let ?i = "st_id (objs (srv J) ! r)"
      from s obtain t0 us where "threads (srv J) = t0 # us" "\<forall>u\<in>set us. \<not> readerThread u"
        by (auto simp: sideS_def lifeOK_def)
      then have h: "hd (threads (srv J)) = RlEnqueue r p" using u n nth_mem [of "n - 1" us] by (cases n) auto
      have m: "map_of (streams (srv J)) ?i = Some r" by (rule acceptOKD(3) [OF serverOK_D(3) [OF j] h op])
      have "prefix (accepted (objs (ses T) ! r)) (dataFrames ?i g)" using acceptOKD(1) [OF acc r] id by simp
      then have p: "prefix (accepted (objs (ses T) ! r)) (dataFrames ?i (sentC J))" using g prefix_order.trans by blast
      have "prefix (accepted (objs (ses T) ! r)) (lread (conns (client J) ! connOf b))"
        if b: "b \<in> set (bridged J)" "cst_id (tobjs (cli J) ! streamOf b) = st_id (objs (ses T) ! r)" for b
      proof -
        have "countFrames ?i v2TypeClose (sentS J) = 0"
          using serverOK_D(2) [OF j] m unfolding ackedOK_def sentS_def by (metis neq0_conv option.distinct(1))
        then have "countFrames ?i v2TypeClose (gotC J) = 0" using count_le(2) [of ?i v2TypeClose J] by simp
        then have "prefix (sentOn (cli J) (streamOf b)) (lread (conns (client J) ! connOf b))"
          using clientOK_D(5) [OF j] b id by (auto simp: bridgesOK_def)
        then show ?thesis using p b(2) id prefix_order.trans by (simp add: sentC_def dataFrames_map)
      qed
      moreover have "int (length (accepted (objs (ses T) ! r))) \<le> v2InitialWindow + granted (objs (ses T) ! r)"
        using sent_within_window [OF j c m op] prefix_length_le [OF p] gm by linarith
      ultimately show ?thesis by blast
    qed
  qed
  then show "int (length (accepted (objs (ses T) ! r))) \<le> v2InitialWindow + granted (objs (ses T) ! r)"
    and "b \<in> set (bridged J) \<Longrightarrow> cst_id (tobjs (cli J) ! streamOf b) = st_id (objs (ses T) ! r) \<Longrightarrow>
         prefix (accepted (objs (ses T) ! r)) (lread (conns (client J) ! connOf b))"
    by blast+
qed

lemma joint_server:
  assumes j: "jointOK J" and c: "sideC (crypt E) (client J)" and s: "sideS E (srv J)"
    and sch: "schedule E X n (server J) = Some T"
    and un: "threads (srv J) ! n = RlRead \<Longrightarrow>
       unforged (crypt E) (keyC2S (srv J)) (seqRead (srv J)) (boxesC (cli J)) (cin (srv J))"
    and J': "J' = J\<lparr>server := T, upread := upread J + (if seqRead (ses T) = seqRead (srv J) then 0 else 1),
                 fetched := fetch X (threads (srv J) ! n) (fetched J)\<rparr>" and rg: "inRange J'"
  shows "jointOK J'"
proof -
  let ?u = "threads (srv J) ! n"
  let ?new = "readNow E ?u (srv J)" and ?fs = "map (\<lambda>((r, rnd), pt). ((r, Some rnd), pt)) (tsealed (cli J))"
  have sC: "sentC J = map snd ?fs" and sC': "sentC J' = sentC J" by (auto simp: sentC_def J')
  have cnt: "seqRead (srv J) = 1 + word_of_nat (upread J)" "upread J \<le> length ?fs"
    using jointOK_D(2) [OF j] by (simp_all add: countersOK_def sentC_def)
  note sq = server_grows(2) [OF sch, unfolded cnt(1)]
  have k: "upread J' = upread J + (if seqRead (ses T) = 1 + word_of_nat (upread J) then 0 else 1)" using cnt by (simp add: J')
  have "take (upread J') (map snd ?fs) = take (upread J) (map snd ?fs) @ ?new \<and> upread J' \<le> length ?fs \<and>
      seqRead (ses T) = 1 + word_of_nat (upread J')"
  proof (cases "?u = RlRead")
    case True
    show ?thesis
    proof (rule next_box [OF _ cnt(2) _ _ sq _ k])
      show "unforged (crypt E) (keyC2S (srv J)) (1 + word_of_nat (upread J)) (boxes (tkeyC2S (cli J)) ?fs) (cin (srv J))"
        using un [OF True] cnt by (simp add: boxesC_def)
      show "length ?fs < 2 ^ 64" using jointOK_D(1) [OF j] by (simp add: inRange_def)
      show "length (snd f) \<le> maxPlaintextSize" if "f \<in> set ?fs" for f
        using that c sealed_fit(1) by (fastforce simp: sideC_def)
      show "?new = (case readFrame (crypt E) (cin (srv J)) (keyC2S (srv J)) (1 + word_of_nat (upread J)) of
          (Inr pt, _) \<Rightarrow> [pt] | _ \<Rightarrow> [])" using True cnt by (simp add: readNow_def)
    qed
  next
    case False
    then show ?thesis by (intro same_box [OF sq _ cnt(2) k]) simp
  qed
  then have gS: "gotS J' = gotS J @ ?new" and ck: "upread J' \<le> length (sentC J')" "seqRead (srv J') = 1 + word_of_nat (upread J')"
    using sC' by (simp_all add: gotS_def sC J')
  obtain fs where fs: "sentS J' = sentS J @ fs" using server_grows(1) [OF sch] by (auto simp: sentS_def J')
  have dn: "downread J \<le> length (sentS J)" using jointOK_D(2) [OF j] by (simp add: countersOK_def)
  have gC: "gotC J' = gotC J" using fs dn by (simp add: gotC_def J')
  have "polite (gotS J @ ?new) (srv J)" using politeC [OF j c, of "upread J'"] gS sC' by (simp add: gotS_def)
  then have inv: "srvInv (gotS J') (fetched J') (srv J')"
    unfolding gS using srvInv_step [OF s jointOK_D(3) [OF j] _ sch] by (simp add: J')
  have acc: "acceptOK (gotS J') (hd (threads (ses T))) (ses T)" using inv by (simp add: srvInv_def J')
  have pre: "prefix (dataFrames i (gotS J')) (dataFrames i (sentC J))" for i by (simp add: gotS_def sC' dataFrames_take)
  have "historyOK J'"
    unfolding historyOK_def using history_server [OF j c s sch acc pre] by (simp add: J')
  moreover have "countersOK J'"
    using ck jointOK_D(2) [OF j] fs by (simp add: countersOK_def J')
  moreover have "clientOK J'" using jointOK_D(4) [OF j] gC by (simp add: clientOK_def J')
  ultimately show ?thesis using rg inv by (simp add: jointOK_def)
qed

section \<open>Steps of the client\<close>

lemma reader_stays:
  assumes "cthreadStep C X u S = Some (t, ts, S1)" and "\<not> creader u" and "v \<in> set (t # ts)"
  shows "\<not> creader v"
  using assms
  by (cases u; auto simp: cthreadStep_def Let_def case_prod_beta split: socks_req.splits option.splits bool.splits if_splits)

lemma client_moves:
  assumes "cthreadStep C X u S = Some (t, ts, S1)"
  shows "(\<exists>fs. sentT (cs S1) = sentT (cs S) @ fs) \<and> (tclosed (cs S) \<longrightarrow> tclosed (cs S1))"
proof (cases u)
  case CLoop
  have "(\<exists>fs. sentT (snd (tc_dispatch C X i ty p (s\<lparr>tin := a, tseqRead := b\<rparr>))) = sentT s @ fs) \<and>
      tclosed (snd (tc_dispatch C X i ty p (s\<lparr>tin := a, tseqRead := b\<rparr>))) = tclosed s" for i ty p s a b
    by (auto simp: tc_dispatch_def markClosed_def onStream_def Let_def tc_write_sent tc_write_same split: option.split)
  then show ?thesis
    using assms CLoop
    by (auto simp: cthreadStep_def Let_def case_prod_beta split: sum.splits option.splits prod.splits)
next
  case (Socks k)
  have "(\<exists>fs. sentT (snd (openStart C X h p s)) = sentT s @ fs) \<and> tclosed (snd (openStart C X h p s)) = tclosed s" for h p s
    by (auto simp: openStart_def Let_def case_prod_beta tc_write_sent tc_write_same)
  then show ?thesis
    using assms Socks by (auto simp: cthreadStep_def Let_def case_prod_beta split: socks_req.splits option.splits)
next
  case (SocksWait k i r)
  then show ?thesis
    using assms by (auto simp: cthreadStep_def openSelect_def onStream_def Let_def
        split: option.splits bool.splits choice.splits if_splits)
next
  case (SocksCopy k r)
  have "readStream r n s = Some (x, s') \<Longrightarrow> tsealed s' = tsealed s \<and> tclosed s' = tclosed s" for n s x s'
    by (auto simp: readStream_def onStream_def Let_def split: option.splits list.splits if_splits)
  then show ?thesis
    using assms SocksCopy by (auto simp: cthreadStep_def Let_def case_prod_beta split: option.splits if_splits)
qed (use assms in \<open>auto simp: cthreadStep_def Let_def case_prod_beta tc_write_sent tc_write_same acquireWindow_def deliver_def
      markClosed_def onStream_def split: if_splits option.splits bool.splits list.splits\<close>)

lemma client_loops:
  assumes j: "jointOK J" and c: "sideC C (client J)" and n: "n < length (cthreads (client J))"
    and st: "cthreadStep C X (cthreads (client J) ! n) (client J) = Some (t, ts, S1)"
    and co: "courteous (gotC J @ readNowC C (cthreads (client J) ! n) (cli J))"
    and ths: "ths = (cthreads (client J))[n := t] @ ts"
  shows "readerAt ths \<and> cliS (gotC J @ readNowC C (cthreads (client J) ! n) (cli J)) (hd ths) (cs S1) \<and> teardownC (hd ths) (cs S1)"
proof -
  let ?u = "cthreads (client J) ! n" and ?g = "gotC J"
  obtain t0 us where th: "cthreads (client J) = t0 # us"
    and t0: "creader t0 \<or> t0 = CFinished" and us: "\<forall>u\<in>set us. \<not> creader u"
    using clientOK_D(1) [OF j] by (cases "cthreads (client J)") (auto simp: readerAt_def)
  have inv: "cliS ?g t0 (cli J)" and td: "teardownC t0 (cli J)" using clientOK_D(2,3) [OF j] th by simp_all
  show ?thesis
  proof (cases n)
    case 0
    then have u: "?u = t0" using th by simp
    then have rd: "creader t0" using t0 st by (auto simp: cthreadStep_def)
    have "cthreadStep C X t0 (client J) = Some (t, ts, S1)" "courteous (?g @ readNowC C t0 (cli J))"
      using st co u by simp_all
    from cliS_reader [OF inv td this rd] show ?thesis using 0 th us u ths by (simp add: readerAt_def)
  next
    case (Suc m)
    then have nr: "\<not> creader ?u" using us n th by simp
    have "cliS ?g t0 (cs S1)"
    proof (rule cliS_other [OF inv clientOK_D(4) [OF j nth_mem [OF n]] st nr])
      fix k
      show "tnextID (cli J) \<notin> set (map cst_id (tobjs (cli J))) \<and> dataFrames (tnextID (cli J)) (gotC J) = []"
        using client_ids(3) [OF c jointOK_D(1) [OF j]] fresh_silent [OF j c] by blast
    qed
    moreover have "readNowC C ?u (cli J) = []" using nr by (auto simp: readNowC_def)
    moreover have "\<forall>v\<in>set (us[m := t] @ ts). \<not> creader v"
      using us reader_stays [OF st nr] by (auto dest!: subsetD [OF set_update_subset_insert])
    moreover have "teardownC t0 (cs S1)"
    proof -
      have "tclosed (cli J) \<Longrightarrow> tclosed (cs S1)" using client_moves [OF st] by blast
      then show ?thesis using td by (auto simp: teardownC_def split: cthread.splits)
    qed
    ultimately show ?thesis using th Suc t0 ths by (simp add: readerAt_def)
  qed
qed

lemma history_client:
  assumes j: "jointOK J" and n: "n < length (cthreads (client J))"
    and st: "cthreadStep C X (cthreads (client J) ! n) (client J) = Some (t, ts, S1)"
    and ap: "apart ro ko (client J) S1" and up: "uploadOK (client J)" and r: "r < length (objs (srv J))"
    and b: "b \<in> set (bridged J @ bridgesOf S1 ts)" "cst_id (tobjs (cs S1) ! streamOf b) = st_id (objs (srv J) ! r)"
  shows "prefix (accepted (objs (srv J) ! r)) (lread (conns S1 ! connOf b))"
proof (cases "b \<in> set (bridged J)")
  case True
  then have k: "connOf b < length (conns (client J))" "streamOf b < length (tobjs (cli J))"
    using clientOK_D(5) [OF j] by (auto simp: bridgesOK_def)
  then have "cst_id (tobjs (cli J) ! streamOf b) = st_id (objs (srv J) ! r)" using b(2) ap by (simp add: apart_def)
  then have "prefix (accepted (objs (srv J) ! r)) (lread (conns (client J) ! connOf b))"
    using jointOK_D(5) [OF j] r True by (auto simp: historyOK_def)
  moreover have "prefix (lread (conns (client J) ! connOf b)) (lread (conns S1 ! connOf b))" using lread_mono [OF st] k by blast
  ultimately show ?thesis by (rule prefix_order.trans)
next
  case False
  let ?u = "cthreads (client J) ! n" and ?i = "st_id (objs (srv J) ! r)"
  have u: "?u \<in> set (cthreads (client J))" using n by simp
  have w: "waiting ?u = Some (streamOf b)" using bridgesOf_step [OF st] b(1) False by auto
  then have "streamOf b < length (tobjs (cli J))" using up u by (auto simp: uploadOK_def threadUp_def owner_kinds)
  then have "cst_id (tobjs (cli J) ! streamOf b) = ?i" using b(2) ap by (simp add: apart_def)
  moreover have "sentOn (cli J) (streamOf b) = []" using clientOK_D(5) [OF j] u w unfolding bridgesOK_def by blast
  ultimately have e: "dataFrames ?i (sentC J) = []" by (simp add: sentC_def dataFrames_map)
  have "prefix (accepted (objs (srv J) ! r)) (dataFrames ?i (gotS J))" by (rule acceptOKD(1) [OF serverOK_D(3) [OF j] r])
  also have "prefix (dataFrames ?i (gotS J)) (dataFrames ?i (sentC J))" by (simp add: gotS_def dataFrames_take)
  finally show ?thesis using e by simp
qed

lemma joint_client:
  assumes j: "jointOK J" and c: "sideC (crypt E) (client J)" and s: "sideS E (srv J)"
    and n: "n < length (cthreads (client J))"
    and st: "cthreadStep (crypt E) X (cthreads (client J) ! n) (client J) = Some (t, ts, S1)"
    and un: "cthreads (client J) ! n = CLoop \<Longrightarrow>
       unforged (crypt E) (tkeyS2C (cli J)) (tseqRead (cli J)) (boxesS (srv J)) (tin (cli J))"
    and J': "J' = J\<lparr>client := S1\<lparr>cthreads := (cthreads (client J))[n := t] @ ts\<rparr>,
                 downread := downread J + (if tseqRead (cs S1) = tseqRead (cli J) then 0 else 1),
                 bridged := bridged J @ bridgesOf S1 ts\<rparr>" and rg: "inRange J'"
    and c': "sideC (crypt E) (client J')"
  shows "jointOK J'"
proof -
  let ?u = "cthreads (client J) ! n" and ?ths = "(cthreads (client J))[n := t] @ ts"
  let ?new = "readNowC (crypt E) ?u (cli J)"
  have sS': "sentS J' = sentS J" by (simp add: sentS_def J')
  have cnt: "tseqRead (cli J) = 1 + word_of_nat (downread J)" "downread J \<le> length (sealed (srv J))"
    using jointOK_D(2) [OF j] by (simp_all add: countersOK_def sentS_def)
  note sq = cstep_seqRead [OF st, unfolded cnt(1)]
  have k: "downread J' = downread J + (if tseqRead (cs S1) = 1 + word_of_nat (downread J) then 0 else 1)" using cnt by (simp add: J')
  have "take (downread J') (sentBy (srv J)) = take (downread J) (sentBy (srv J)) @ ?new \<and> downread J' \<le> length (sealed (srv J)) \<and>
      tseqRead (cs S1) = 1 + word_of_nat (downread J')"
  proof (cases "?u = CLoop")
    case True
    show ?thesis
    proof (rule next_box [OF _ cnt(2) _ _ sq _ k])
      show "unforged (crypt E) (tkeyS2C (cli J)) (1 + word_of_nat (downread J)) (boxes (keyS2C (srv J)) (sealed (srv J))) (tin (cli J))"
        using un [OF True] cnt by (simp add: boxesS_def)
      show "length (sealed (srv J)) < 2 ^ 64" using jointOK_D(1) [OF j] by (simp add: inRange_def)
      show "length (snd f) \<le> maxPlaintextSize" if "f \<in> set (sealed (srv J))" for f
        using that s sealed_fit(2) by (fastforce simp: sideS_def)
      show "?new = (case readFrame (crypt E) (tin (cli J)) (tkeyS2C (cli J)) (1 + word_of_nat (downread J)) of
          (Inr pt, _) \<Rightarrow> [pt] | _ \<Rightarrow> [])" using True cnt by (simp add: readNowC_def readAEADFrame_eq)
    qed
  next
    case False
    then show ?thesis by (intro same_box [OF sq _ cnt(2) k]) (simp add: readNowC_def)
  qed
  then have gC: "gotC J' = gotC J @ ?new" and ck: "downread J' \<le> length (sentS J')" "tseqRead (cs S1) = 1 + word_of_nat (downread J')"
    using sS' by (simp_all add: gotC_def sentS_def)
  obtain fs where fs: "sentC J' = sentC J @ fs" using client_moves [OF st] by (auto simp: sentC_def J')
  have up: "upread J \<le> length (sentC J)" "seqRead (srv J) = 1 + word_of_nat (upread J)"
    using jointOK_D(2) [OF j] by (simp_all add: countersOK_def)
  have gS: "gotS J' = gotS J" using fs up by (simp add: gotS_def J')
  have co: "courteous (gotC J @ ?new)" using courteousS [OF j c, of "downread J'"] gC sS' by (simp add: gotC_def)
  note ids = client_ids [OF c jointOK_D(1) [OF j]]
  have ids': "distinct (map cst_id (tobjs (cs S1)))" using client_ids(1) [OF c' rg] by (simp add: J')
  have gd: "goodStep ?u (client J) (t # ts) S1" using cthreadStep_good [OF ids(2) _ st ids(1) ids'] n by simp
  then have ap: "apart (bowner ?u) (lowner ?u) (client J) S1" by (simp add: goodStep_def)
  have u: "?u \<in> set (cthreads (client J))" using n by simp
  have th: "threadUp (client J) ?u" using ids(2) u by (simp add: uploadOK_def)
  note inv = clientOK_D(2) [OF j]
  have ak: "ackedC (gotC J @ ?new) (cs S1) v" if "v \<in> set ?ths" for v
    by (rule ackedC_step [OF clientOK_D(4) [OF j] u st inv th ap])
      (use that in \<open>auto dest!: subsetD [OF set_update_subset_insert]\<close>)
  have J'_sel: "cthreads (client J') = ?ths" "cli J' = cs S1" "bridged J' = bridged J @ bridgesOf S1 ts"
    and J'_c: "client J' = S1\<lparr>cthreads := ?ths\<rparr>"
    by (simp_all add: J')
  have "length (tobjs (cli J)) \<le> length (tobjs (cs S1))" using ap by (simp add: apart_def)
  note co_step = copiesOK_step [OF clientOK_D(6) [OF j] n st this]
  have "clientOK J'"
    unfolding clientOK_def gC J'_sel unfolding J'_c
    using client_loops [OF j c n st co refl] ak bridgesOK_step [OF clientOK_D(5) [OF j] ids(2) inv n st gd ids'] co_step
    by blast
  moreover have "historyOK J'"
  proof -
    have "int (length (accepted (objs (srv J) ! r))) \<le> v2InitialWindow + granted (objs (srv J) ! r)" if "r < length (objs (srv J))" for r
      using jointOK_D(5) [OF j] that by (simp add: historyOK_def)
    moreover have "objs (srv J') = objs (srv J)" "conns (client J') = conns S1" by (simp_all add: J')
    ultimately show ?thesis unfolding historyOK_def J'_sel using history_client [OF j n st ap ids(2)] by metis
  qed
  moreover have "countersOK J'"
  proof -
    have "upread J' = upread J" "srv J' = srv J" by (simp_all add: J')
    then show ?thesis unfolding countersOK_def J'_sel fs using ck up by simp
  qed
  moreover have "srvInv (gotS J') (fetched J') (srv J')" unfolding gS using jointOK_D(3) [OF j] by (simp add: J')
  ultimately show ?thesis using rg by (simp add: jointOK_def)
qed

section \<open>All reachable states\<close>

lemma joint_same:
  assumes "jointOK J" and "sentC J' = sentC J" "sentS J' = sentS J" "upread J' = upread J" "downread J' = downread J"
    and "inRange J'" "tseqRead (cli J') = tseqRead (cli J)" "seqRead (srv J') = seqRead (srv J)"
    and "srvInv (gotS J) (fetched J') (srv J')"
    and "clientOK J \<Longrightarrow> gotC J' = gotC J \<Longrightarrow> clientOK J'" and "historyOK J \<Longrightarrow> historyOK J'"
  shows "jointOK J'"
proof -
  have "gotS J' = gotS J" "gotC J' = gotC J" using assms by (simp_all add: gotS_def gotC_def)
  then show ?thesis using assms by (simp add: jointOK_def countersOK_def)
qed

lemma cliS_feed: "cliS g t (s\<lparr>tin := rd\<rparr>) = cliS g t s" "teardownC t (s\<lparr>tin := rd\<rparr>) = teardownC t s" "ackedC g (s\<lparr>tin := rd\<rparr>) v = ackedC g s v"
  by (simp_all add: cliS_def linkedC_def dataC_def deliverC_def teardownC_def ackedC_def split: cthread.split)

lemma bridges_feed:
  "bridgesOK g B (S\<lparr>cs := (cs S)\<lparr>tin := rd\<rparr>\<rparr>) = bridgesOK g B S" "copiesOK B (S\<lparr>cs := (cs S)\<lparr>tin := rd\<rparr>\<rparr>) = copiesOK B S"
  by (simp_all add: bridgesOK_def copiesOK_def copyOK_def)

lemma acceptLocal_sel [simp]:
  "cs (acceptLocal rd wr S) = cs S" "cthreads (acceptLocal rd wr S) = cthreads S @ [Socks (length (conns S))]"
  "length (conns (acceptLocal rd wr S)) = Suc (length (conns S))"
  "k < length (conns S) \<Longrightarrow> conns (acceptLocal rd wr S) ! k = conns S ! k"
  by (simp_all add: acceptLocal_def nth_append)

lemma bridgesOK_local: "bridgesOK g B S \<Longrightarrow> bridgesOK g B (acceptLocal rd wr S)"
  by (auto simp: bridgesOK_def)

lemma copiesOK_local:
  assumes "copiesOK B S"
  shows "copiesOK B (acceptLocal rd wr S)"
proof -
  have w: "writesTo t = Some k \<Longrightarrow> k < length (conns S)" if "t \<in> set (cthreads S)" for t k
    using assms that by (simp add: copiesOK_def)
  have "copyOK (acceptLocal rd wr S) b" if "copyOK S b" "connOf b < length (conns S)" for b
    using that by (auto simp: copyOK_def)
  moreover have "length (conns S) \<notin> set (List.map_filter writesTo (cthreads S))"
    using w by (auto simp: set_map_filter)
  ultimately show ?thesis
    using assms by (auto simp: copiesOK_def map_filter_append map_filter_Cons List.map_filter_simps less_Suc_eq)
qed

lemma readerAt_local: "readerAt ths \<Longrightarrow> readerAt (ths @ [Socks k])"
  by (cases ths) (auto simp: readerAt_def)

lemma joint_new:
  assumes "J = tunnelStart \<lparr>cs = tc_newSession rd wr kc ks, conns = [], cthreads = [CLoop]\<rparr>
                          \<lparr>ses = newSession i rd' wr' kc ks now, gbuf = g, bpools = ps\<rparr>"
  shows "jointOK J"
proof -
  have "cliS [] CLoop (tc_newSession rd wr kc ks)"
    by (simp add: cliS_def linkedC_def dataC_def deliverC_def tc_newSession_def)
  then have "clientOK J"
    using assms by (simp add: clientOK_def tunnelStart_def gotC_def readerAt_def teardownC_def ackedC_def bridgesOK_def
        copiesOK_def sentS_def newSession_def List.map_filter_def)
  moreover have "historyOK J" "inRange J" "countersOK J" "gotS J = []"
    using assms by (simp_all add: historyOK_def inRange_def countersOK_def tunnelStart_def newSession_def tc_newSession_def
        sentC_def sentS_def gotS_def)
  ultimately show ?thesis using assms srvInv_new by (simp add: jointOK_def tunnelStart_def)
qed

lemma joint_step:
  assumes j: "jointOK J" and st: "tstep E J J'" and rg: "inRange J'" and c: "sideC (crypt E) (client J)"
    and s: "sideS E (srv J)" and c': "sideC (crypt E) (client J')"
  shows "jointOK J'"
  using st
proof cases
  case (srv_run X n T)
  then show ?thesis using joint_server [OF j c s _ _ _ rg] by blast
next
  case (srv_bytes rd)
  then show ?thesis
    using rg jointOK_D(3) [OF j]
    by (intro joint_same [OF j]) (simp_all add: sentC_def sentS_def srvInv_conn clientOK_def historyOK_def)
next
  case (srv_others ps g)
  then show ?thesis
    using rg jointOK_D(3) [OF j]
    by (intro joint_same [OF j]) (simp_all add: sentC_def sentS_def srvInv_conn clientOK_def historyOK_def)
next
  case srv_reap
  then show ?thesis
    using rg jointOK_D(3) [OF j]
    by (intro joint_same [OF j]) (simp_all add: sentC_def sentS_def srvInv_conn clientOK_def historyOK_def)
next
  case (cli_run n X t ts S1)
  then show ?thesis using joint_client [OF j c s _ _ _ _ rg c'] by blast
next
  case (cli_bytes rd)
  then show ?thesis
    using rg jointOK_D(3) [OF j]
    by (intro joint_same [OF j])
      (simp_all add: sentC_def sentS_def clientOK_def historyOK_def cliS_feed bridges_feed)
next
  case (cli_local rd wr)
  have "historyOK J'" if "historyOK J"
    using that clientOK_D(5) [OF j] cli_local by (auto simp: historyOK_def bridgesOK_def)
  moreover have "clientOK J'" if "clientOK J" "gotC J' = gotC J"
  proof -
    have "cthreads (client J) \<noteq> []" using that by (simp add: clientOK_def readerAt_def)
    then have "hd (cthreads (client J')) = hd (cthreads (client J))" using cli_local by simp
    moreover have "ackedC g s (Socks k)" for g s k by (simp add: ackedC_def)
    ultimately show ?thesis
      using that cli_local by (auto simp: clientOK_def readerAt_local bridgesOK_local copiesOK_local)
  qed
  ultimately show ?thesis
    using rg jointOK_D(3) [OF j] cli_local
    by (intro joint_same [OF j]) (simp_all add: sentC_def sentS_def)
qed

lemma treach_joint:
  assumes "treach E J"
  shows "jointOK J" and "sideC (crypt E) (client J)" and "sideS E (srv J)"
proof -
  have side: "sideC (crypt E) (client J)" "sideS E (srv J)" if "treach E J" for J
    using sideC.tunnel [OF that refl] sideS.tunnel [OF that] by blast+
  then show "sideC (crypt E) (client J)" "sideS E (srv J)" using assms by blast+
  show "jointOK J"
    using assms
  proof (induction rule: treach.induct)
    case (init ps rd wr kc ks i rd' wr' now g)
    show ?case by (rule joint_new [OF refl])
  next
    case (step J J')
    have "treach E J'" by (rule treach.step [OF step.hyps])
    then show ?case using joint_step [OF step.IH step.hyps(2,3)] side step.hyps(1) by blast
  qed
qed

end
