(* ===== verification/Tunnel_Props.thy ===== *)
theory Tunnel_Props
  imports Tunnel_Joint Demo Client_Props Client_Main
begin

text \<open>
  End-to-end properties of the tunnel: what the target receives is what the local application has
  sent, what the application receives is what the target has sent, no byte is lost or repeated on the
  way, and the server never sheds data of this client for want of room. A concrete run with a network
  that delivers the frames in order shows that the situations the theorems speak about occur.
\<close>

section \<open>A run of both ends\<close>

text \<open>The network puts the next frame of the other end on the connection.\<close>

definition nextUp :: "senv \<Rightarrow> tunnel \<Rightarrow> reader" where
  "nextUp E J =
     (let ((r, rnd), pt) = tsealed (cli J) ! upread J
      in \<lparr>inbuf = frameBytes (crypt E) r rnd (tkeyC2S (cli J)) (1 + word_of_nat (upread J)) pt @ [], rend = EOF\<rparr>)"

definition nextDown :: "senv \<Rightarrow> tunnel \<Rightarrow> reader" where
  "nextDown E J =
     (let ((r, rnd), pt) = sealed (srv J) ! downread J
      in \<lparr>inbuf = frameBytes (crypt E) r (the rnd) (keyS2C (srv J)) (1 + word_of_nat (downread J)) pt @ [], rend = EOF\<rparr>)"

datatype act = Recv_S stepin | Run_S nat stepin | Recv_C cstepin | Run_C nat cstepin | App reader writer

definition runS :: "senv \<Rightarrow> nat \<Rightarrow> stepin \<Rightarrow> tunnel \<Rightarrow> tunnel option" where
  "runS E n X J =
     (case schedule E X n (server J) of
        None \<Rightarrow> None
      | Some T \<Rightarrow> Some (J\<lparr>server := T\<lparr>bpools := empty_pools\<rparr>,
            upread := upread J + (if seqRead (ses T) = seqRead (srv J) then 0 else 1),
            fetched := fetch X (threads (srv J) ! n) (fetched J)\<rparr>))"

definition runC :: "senv \<Rightarrow> nat \<Rightarrow> cstepin \<Rightarrow> tunnel \<Rightarrow> tunnel option" where
  "runC E n X J =
     (if n < length (cthreads (client J))
      then (case cthreadStep (crypt E) X (cthreads (client J) ! n) (client J) of
              None \<Rightarrow> None
            | Some (t, ts, S) \<Rightarrow> Some (J\<lparr>client := S\<lparr>cthreads := (cthreads (client J))[n := t] @ ts\<rparr>,
                downread := downread J + (if tseqRead (cs S) = tseqRead (cli J) then 0 else 1),
                bridged := bridged J @ bridgesOf S ts\<rparr>))
      else None)"

fun runAct :: "senv \<Rightarrow> act \<Rightarrow> tunnel \<Rightarrow> tunnel option" where
  "runAct E (Recv_S X) J =
     (if upread J < length (tsealed (cli J)) \<and> tkeyC2S (cli J) = keyC2S (srv J)
      then runS E 0 X (J\<lparr>server := (server J)\<lparr>ses := (srv J)\<lparr>cin := nextUp E J\<rparr>\<rparr>\<rparr>) else None)"
| "runAct E (Run_S n X) J = (if threads (srv J) ! n \<noteq> RlRead then runS E n X J else None)"
| "runAct E (Recv_C X) J =
     (if downread J < length (sealed (srv J)) \<and> tkeyS2C (cli J) = keyS2C (srv J) \<and> snd (fst (sealed (srv J) ! downread J)) \<noteq> None
      then runC E 0 X (J\<lparr>client := (client J)\<lparr>cs := (cli J)\<lparr>tin := nextDown E J\<rparr>\<rparr>\<rparr>) else None)"
| "runAct E (Run_C n X) J = (if cthreads (client J) ! n \<noteq> CLoop then runC E n X J else None)"
| "runAct E (App rd wr) J = Some (J\<lparr>client := acceptLocal rd wr (client J)\<rparr>)"

fun runTunnel :: "senv \<Rightarrow> act list \<Rightarrow> tunnel \<Rightarrow> tunnel option" where
  "runTunnel E [] J = Some J"
| "runTunnel E (a # as) J =
     (case runAct E a J of None \<Rightarrow> None | Some J' \<Rightarrow> if inRange J' then runTunnel E as J' else None)"

lemma runS_treach:
  assumes J: "treach E J" and r: "runS E n X J = Some J'" and ir: "inRange J'"
    and un: "threads (srv J) ! n = RlRead \<Longrightarrow>
       unforged (crypt E) (keyC2S (srv J)) (seqRead (srv J)) (boxesC (cli J)) (cin (srv J))"
  shows "treach E J'"
proof -
  from r obtain T where sch: "schedule E X n (server J) = Some T"
    and J': "J' = J\<lparr>server := T\<lparr>bpools := empty_pools\<rparr>,
            upread := upread J + (if seqRead (ses T) = seqRead (srv J) then 0 else 1),
            fetched := fetch X (threads (srv J) ! n) (fetched J)\<rparr>"
    by (auto simp: runS_def split: option.splits)
  let ?J1 = "J\<lparr>server := T, upread := upread J + (if seqRead (ses T) = seqRead (srv J) then 0 else 1),
            fetched := fetch X (threads (srv J) ! n) (fetched J)\<rparr>"
  have "inRange ?J1" using ir by (simp add: J' inRange_def)
  then have "treach E ?J1" using treach.step [OF J tstep.srv_run [OF sch]] un by blast
  moreover have "J' = ?J1\<lparr>server := (server ?J1)\<lparr>gbuf := gbuf (server ?J1), bpools := empty_pools\<rparr>\<rparr>" by (simp add: J')
  then have "tstep E ?J1 J'" using tstep.srv_others [of empty_pools E ?J1 "gbuf (server ?J1)"] by (simp only: pools_ok_empty)
  ultimately show ?thesis using treach.step ir by blast
qed

lemma runC_treach:
  assumes J: "treach E J" and r: "runC E n X J = Some J'" and ir: "inRange J'"
    and un: "cthreads (client J) ! n = CLoop \<Longrightarrow>
       unforged (crypt E) (tkeyS2C (cli J)) (tseqRead (cli J)) (boxesS (srv J)) (tin (cli J))"
  shows "treach E J'"
proof -
  from r obtain t ts S where n: "n < length (cthreads (client J))"
    and st: "cthreadStep (crypt E) X (cthreads (client J) ! n) (client J) = Some (t, ts, S)"
    and J': "J' = J\<lparr>client := S\<lparr>cthreads := (cthreads (client J))[n := t] @ ts\<rparr>,
                downread := downread J + (if tseqRead (cs S) = tseqRead (cli J) then 0 else 1),
                bridged := bridged J @ bridgesOf S ts\<rparr>"
    by (auto simp: runC_def split: if_splits option.splits)
  show ?thesis using treach.step [OF J tstep.cli_run [OF n st]] un ir J' by blast
qed

lemma runAct_treach:
  assumes J: "treach E J" and ok: "aead_ok (crypt E)" and r: "runAct E a J = Some J'" and ir: "inRange J'"
  shows "treach E J'"
proof (cases a)
  case (Recv_S X)
  let ?J1 = "J\<lparr>server := (server J)\<lparr>ses := (srv J)\<lparr>cin := nextUp E J\<rparr>\<rparr>\<rparr>"
  let ?fs = "map (\<lambda>((r, rnd), pt). ((r, Some rnd), pt)) (tsealed (cli J))"
  from r Recv_S have l: "upread J < length (tsealed (cli J))" "tkeyC2S (cli J) = keyC2S (srv J)"
    and r1: "runS E 0 X ?J1 = Some J'" by (auto split: if_splits)
  note t = treach_joint [OF J]
  have J1: "treach E ?J1" using treach.step [OF J tstep.srv_bytes] t(1) by (simp add: jointOK_def inRange_def)
  obtain p rnd pt where f: "tsealed (cli J) ! upread J = ((p, rnd), pt)" by (metis prod.exhaust)
  have "unforged (crypt E) (keyC2S (srv J)) (1 + word_of_nat (upread J)) (boxes (keyC2S (srv J)) ?fs) (nextUp E J)"
  proof (rule unforged_honest [OF ok, where rest = "[]"])
    show "length pt \<le> maxPlaintextSize"
      using t(2) sealed_fit(1) [of "crypt E" "cli J", OF _ nth_mem [OF l(1)]] f by (simp add: sideC_def)
  qed (use l f in \<open>simp_all add: nextUp_def\<close>)
  moreover have "seqRead (srv J) = 1 + word_of_nat (upread J)" using jointOK_D(2) [OF t(1)] by (simp add: countersOK_def)
  ultimately show ?thesis
    using l(2) by (intro runS_treach [OF J1 r1 ir]) (simp add: boxesC_def)
next
  case (Recv_C X)
  let ?J1 = "J\<lparr>client := (client J)\<lparr>cs := (cli J)\<lparr>tin := nextDown E J\<rparr>\<rparr>\<rparr>"
  from r Recv_C have l: "downread J < length (sealed (srv J))" "tkeyS2C (cli J) = keyS2C (srv J)"
    and sn: "snd (fst (sealed (srv J) ! downread J)) \<noteq> None"
    and r1: "runC E 0 X ?J1 = Some J'" by (auto split: if_splits)
  note t = treach_joint [OF J]
  have J1: "treach E ?J1" using treach.step [OF J tstep.cli_bytes] t(1) by (simp add: jointOK_def inRange_def)
  from sn obtain p rnd pt where f: "sealed (srv J) ! downread J = ((p, Some rnd), pt)"
    by (metis fst_conv not_None_eq prod.exhaust snd_conv)
  have "unforged (crypt E) (keyS2C (srv J)) (1 + word_of_nat (downread J)) (boxes (keyS2C (srv J)) (sealed (srv J))) (nextDown E J)"
  proof (rule unforged_honest [OF ok, where rest = "[]"])
    show "length pt \<le> maxPlaintextSize"
      using t(3) sealed_fit(2) [of "crypt E" "srv J", OF _ nth_mem [OF l(1)]] f by (simp add: sideS_def)
  qed (use l f in \<open>simp_all add: nextDown_def\<close>)
  moreover have "tseqRead (cli J) = 1 + word_of_nat (downread J)" using jointOK_D(2) [OF t(1)] by (simp add: countersOK_def)
  ultimately show ?thesis
    using l(2) by (intro runC_treach [OF J1 r1 ir]) (simp add: boxesS_def)
next
  case (Run_S n X)
  then show ?thesis using runS_treach [OF J _ ir] r by (auto split: if_splits)
next
  case (Run_C n X)
  then show ?thesis using runC_treach [OF J _ ir] r by (auto split: if_splits)
next
  case (App rd wr)
  then show ?thesis using treach.step [OF J tstep.cli_local] r ir by auto
qed

lemma runTunnel_treach: "treach E J \<Longrightarrow> aead_ok (crypt E) \<Longrightarrow> runTunnel E as J = Some J' \<Longrightarrow> treach E J'"
proof (induction E as J rule: runTunnel.induct)
  case (2 E a as J)
  then show ?case by (auto split: option.splits if_splits intro: runAct_treach)
qed simp

text \<open>
  A local application asks for \<open>a.io:80\<close> and sends three bytes; the server dials, acknowledges and, after
  reading the data, delivers it; two bytes come back.
\<close>

definition demo_tunnel :: tunnel where
  "demo_tunnel =
     tunnelStart
       \<lparr>cs = tc_newSession \<lparr>inbuf = [], rend = EOF\<rparr> \<lparr>wout = [], wbreak = None\<rparr> [1] [2], conns = [], cthreads = [CLoop]\<rparr>
       \<lparr>ses = newSession 1 \<lparr>inbuf = [], rend = EOF\<rparr> \<lparr>wout = [], wbreak = None\<rparr> [1] [2] 0, gbuf = 0, bpools = empty_pools\<rparr>"

definition demo_upload :: "act list" where
  "demo_upload =
     [App demo_local \<lparr>wout = [], wbreak = None\<rparr>, Run_C 1 demo_cin, Recv_S demo_step, Run_S 2 demo_step, Run_S 2 demo_step,
      Run_S 2 demo_step, Run_S 2 demo_step, Run_S 2 demo_step, Recv_C demo_cin, Run_C 1 demo_cin,
      Run_C 2 demo_cin, Run_C 2 demo_cin, Run_C 2 demo_cin]"

definition demo_answer :: "act list" where
  "demo_answer =
     [Recv_S demo_step, Run_S 0 demo_step, Run_S 4 demo_step, Run_S 4 demo_step, Run_S 3 demo_step,
      Run_S 3 (demo_step\<lparr>rdata := [42, 43]\<rparr>), Recv_C demo_cin, Run_C 0 demo_cin, Run_C 1 demo_cin]"

lemma demo_tunnel_reach: "treach demo_env demo_tunnel"
  unfolding demo_tunnel_def by (rule treach.init) simp

definition poolsAfter :: "crypto \<Rightarrow> wrand \<Rightarrow> writer \<Rightarrow> bytes \<Rightarrow> u64 \<Rightarrow> bytes \<Rightarrow> bufpools" where
  "poolsAfter C R w key seq pt = snd (snd (writeFrame C R w key seq pt empty_pools))"

lemma demo_writeFrame:
  "length p \<le> 100 \<Longrightarrow>
   writeFrame C \<lparr>roll = 99, innerPick = a, ctPick = b, padding = Some rnd\<rparr> \<lparr>wout = out, wbreak = None\<rparr> key seq (streamFrame i t p) empty_pools
   = (None, \<lparr>wout = out @ frameBytes C 99 rnd key seq (streamFrame i t p), wbreak = None\<rparr>,
      poolsAfter C \<lparr>roll = 99, innerPick = a, ctPick = b, padding = Some rnd\<rparr> \<lparr>wout = out, wbreak = None\<rparr> key seq (streamFrame i t p))"
  using writeFrame_unbroken [of empty_pools "streamFrame i t p" "\<lparr>roll = 99, innerPick = a, ctPick = b, padding = Some rnd\<rparr>" rnd
      "\<lparr>wout = out, wbreak = None\<rparr>" C key seq]
  by (auto simp: streamFrame_length v2FrameHeader_def frame_consts poolsAfter_def)

lemma demo_readFrame:
  "length p \<le> 100 \<Longrightarrow>
   readFrame demo_crypto \<lparr>inbuf = frameBytes demo_crypto r rnd key seq (streamFrame i t p), rend = e\<rparr> key seq
   = (Inr (streamFrame i t p), \<lparr>inbuf = [], rend = e\<rparr>)"
  using readFrame_frameBytes [OF demo_aead_ok, of "streamFrame i t p" r rnd key seq "[]" e]
  by (simp add: streamFrame_length v2FrameHeader_def frame_consts)

lemma demo_openTarget: "parseTarget (2 # 4 # bytes_of ''a.io'' @ putBE 2 80) = Inr ''a.io:80''"
proof -
  have "itoaNat 80 = ''80''" by code_simp
  then show ?thesis using parseTarget_openTarget [of "''a.io''" 80] by (simp add: openTarget_def)
qed

lemmas demo_tunnel_simps = demo_openTarget demo_run_simps demo_client_simps demo_write demo_writeFrame demo_readFrame readAEADFrame_eq
  runS_def runC_def nextUp_def nextDown_def inRange_def tunnelStart_def tc_newSession_def writeSF_def writeStreamFrame_def
  releaseOpen_def dequeue_def popChunk_def upstreamWrite_def getBE_putBE



lemma demo_answer_run:
  "\<exists>J c st ct. runTunnel demo_env (demo_upload @ demo_answer) demo_tunnel = Some J \<and>
     bridged J = [(0, 0, [5, 0, 5, 0, 0, 1, 0, 0, 0, 0, 0, 0])] \<and> conns (client J) = [c] \<and> objs (srv J) = [st] \<and> tobjs (cli J) = [ct] \<and>
     cst_id ct = 1 \<and> st_id st = 1 \<and> uwritten st = [7, 8, 9] \<and> lread c = [7, 8, 9] \<and> fetched J 0 = [42, 43] \<and>
     wout (lout c) = [5, 0, 5, 0, 0, 1, 0, 0, 0, 0, 0, 0, 42, 43] \<and> \<not> cst_closed ct \<and> \<not> tclosed (cli J) \<and> wbreak (tout (cli J)) = None \<and>
     streams (srv J) = [(1, 0)] \<and> \<not> st_closed st \<and> tstreams (cli J) = [(1, 0)] \<and>
     cthreads (client J) = [CLoop, SocksCopy 0 0, BridgeAcquire 0 0 []] \<and>
     threads (srv J) = [RlRead, Heartbeat, Finished, UpCheck 1 0, PumpCredit 1 0 3] \<and> queue st = []"
  unfolding demo_upload_def demo_answer_def demo_tunnel_def
  by (simp add: demo_tunnel_simps)

lemma demo_answer_reached:
  "\<exists>J c st ct. treach demo_env J \<and>
     bridged J = [(0, 0, [5, 0, 5, 0, 0, 1, 0, 0, 0, 0, 0, 0])] \<and> conns (client J) = [c] \<and> objs (srv J) = [st] \<and> tobjs (cli J) = [ct] \<and>
     cst_id ct = 1 \<and> st_id st = 1 \<and> uwritten st = [7, 8, 9] \<and> lread c = [7, 8, 9] \<and> fetched J 0 = [42, 43] \<and>
     wout (lout c) = [5, 0, 5, 0, 0, 1, 0, 0, 0, 0, 0, 0, 42, 43] \<and> \<not> cst_closed ct \<and> \<not> tclosed (cli J) \<and> wbreak (tout (cli J)) = None \<and>
     streams (srv J) = [(1, 0)] \<and> \<not> st_closed st \<and> tstreams (cli J) = [(1, 0)] \<and>
     cthreads (client J) = [CLoop, SocksCopy 0 0, BridgeAcquire 0 0 []] \<and>
     threads (srv J) = [RlRead, Heartbeat, Finished, UpCheck 1 0, PumpCredit 1 0 3] \<and> queue st = []"
proof -
  have "aead_ok (crypt demo_env)" by (simp add: demo_env_def demo_aead_ok)
  then show ?thesis using demo_answer_run runTunnel_treach [OF demo_tunnel_reach] by meson
qed

section \<open>Properties\<close>

lemma copiesD:
  "copiesOK B S \<Longrightarrow> b \<in> set B \<Longrightarrow> connOf b < length (conns S) \<and> streamOf b < length (tobjs (cs S)) \<and> copyOK S b"
  unfolding copiesOK_def by blast

lemma copyingD:
  assumes "copyOK S (k, q, pre)" and "SocksCopy k q \<in> set (cthreads S)"
  shows "given S k = pre @ takenOn S q"
proof -
  from assms(1) have "\<forall>t\<in>set (cthreads S). writesTo t = Some k \<or> readsFrom t = Some q \<longrightarrow>
      t = SocksCopy k q \<and> given S k = pre @ takenOn S q"
    unfolding copyOK_def fst_conv snd_conv by (rule conjunct2)
  from bspec [OF this assms(2)] show ?thesis by simp
qed

lemma base_of: "sideS E s \<Longrightarrow> r < length (objs s) \<Longrightarrow> base (objs s ! r)"
  by (simp add: sideS_def flowOK_def heapFlow_def)

text \<open>C1. The tunnel delivers uploads unchanged: whatever the network and the scheduler do, as long as no ciphertext is
  forged, the bytes the target of a stream has received are the first bytes the local application of that stream has sent.
  (A session is followed while its identifiers and sequence numbers do not wrap around.)\<close>

theorem tunnel_upload:
  assumes "treach E J" and "(k, q, pre) \<in> set (bridged J)" and "r < length (objs (srv J))"
    and "st_id (objs (srv J) ! r) = cst_id (tobjs (cli J) ! q)"
  shows "prefix (uwritten (objs (srv J) ! r)) (lread (conns (client J) ! k))"
proof -
  note t = treach_joint [OF assms(1)]
  have "prefix (uwritten (objs (srv J) ! r)) (accepted (objs (srv J) ! r))" using base_of [OF t(3) assms(3)] by (simp add: base_def)
  moreover have "prefix (accepted (objs (srv J) ! r)) (lread (conns (client J) ! k))"
    using jointOK_D(5) [OF t(1)] assms(2-4) by (force simp: historyOK_def)
  ultimately show ?thesis by (rule prefix_order.trans)
qed

theorem tunnel_upload_witness:
  "\<exists>J. treach demo_env J \<and> uwritten (objs (srv J) ! 0) = [7, 8, 9] \<and>
     prefix (uwritten (objs (srv J) ! 0)) (lread (conns (client J) ! 0))"
proof -
  from demo_answer_reached obtain J c st ct where J: "treach demo_env J" "bridged J = [(0, 0, [5, 0, 5, 0, 0, 1, 0, 0, 0, 0, 0, 0])]"
    "objs (srv J) = [st]" "tobjs (cli J) = [ct]" "cst_id ct = 1" "st_id st = 1" "uwritten st = [7, 8, 9]" by blast
  with tunnel_upload [OF J(1), of 0 0 _ 0] show ?thesis by (intro exI [of _ J]) simp
qed

text \<open>C2. The tunnel delivers downloads unchanged: what a local application has received after the SOCKS5 replies is the
  first part of what the server has read from the target of its stream.\<close>

theorem tunnel_download:
  assumes "treach E J" and "(k, q, pre) \<in> set (bridged J)" and "r < length (objs (srv J))"
    and "st_id (objs (srv J) ! r) = cst_id (tobjs (cli J) ! q)"
  shows "\<exists>x. wout (lout (conns (client J) ! k)) = pre @ x \<and> prefix x (fetched J r)"
proof -
  note t = treach_joint [OF assms(1)]
  let ?ct = "tobjs (cli J) ! q"
  have q: "q < length (tobjs (cli J))" and "copyOK (client J) (k, q, pre)"
    using copiesD [OF clientOK_D(6) [OF t(1)] assms(2)] by simp_all
  then obtain x where x: "wout (lout (conns (client J) ! k)) = pre @ x" "prefix x (readout ?ct)" by (auto simp: copyOK_def)
  note x(2)
  also have "prefix (readout ?ct) (arrived ?ct)" using t(2) q by (simp add: sideC_def flowC_def cstrOK_def)
  also have "prefix (arrived ?ct) (dataFrames (cst_id ?ct) (gotC J))" by (rule cliS_D(5) [OF clientOK_D(2) [OF t(1)] q])
  also have "prefix (dataFrames (cst_id ?ct) (gotC J)) (dataFrames (cst_id ?ct) (sentS J))" by (simp add: gotC_def dataFrames_take)
  also have "dataFrames (cst_id ?ct) (sentS J) = fetched J r"
    using serverOK_D(5) [OF t(1)] assms(3,4) by (simp add: fetchOK_def sentS_def)
  finally have "prefix x (fetched J r)" .
  then show ?thesis using x(1) by blast
qed

theorem tunnel_download_witness:
  "\<exists>J. treach demo_env J \<and> fetched J 0 = [42, 43] \<and> wout (lout (conns (client J) ! 0)) = [5, 0, 5, 0, 0, 1, 0, 0, 0, 0, 0, 0, 42, 43] \<and>
     (\<exists>x. wout (lout (conns (client J) ! 0)) = [5, 0, 5, 0, 0, 1, 0, 0, 0, 0, 0, 0] @ x \<and> prefix x (fetched J 0))"
proof -
  from demo_answer_reached obtain J c st ct where J: "treach demo_env J" "bridged J = [(0, 0, [5, 0, 5, 0, 0, 1, 0, 0, 0, 0, 0, 0])]"
    "conns (client J) = [c]" "wout (lout c) = [5, 0, 5, 0, 0, 1, 0, 0, 0, 0, 0, 0, 42, 43]" "fetched J 0 = [42, 43]"
    "objs (srv J) = [st]" "tobjs (cli J) = [ct]" "cst_id ct = 1" "st_id st = 1" by blast
  with tunnel_download [OF J(1), of 0 0 "[5, 0, 5, 0, 0, 1, 0, 0, 0, 0, 0, 0]" 0] show ?thesis by (intro exI [of _ J]) simp
qed

text \<open>The chunk in the hands of a pump, and the one in the hands of the client's read loop.\<close>

fun pumpHolds :: "thread \<Rightarrow> (sref \<times> bytes) option" where
  "pumpHolds (PumpWait i r c) = Some (r, [])"
| "pumpHolds (PumpWrite i r ch e c) = Some (r, ch)"
| "pumpHolds (PumpCredit i r c) = Some (r, [])"
| "pumpHolds _ = None"

fun deliverHolds :: "nat \<Rightarrow> cthread \<Rightarrow> bytes" where
  "deliverHolds q (CDeliver q' p) = (if q' = q then p else [])"
| "deliverHolds q _ = []"

text \<open>C3. No uploaded byte is lost or repeated: while a stream is open at both ends, everything its application has sent is
  accounted for, in order: at the target, in the hands of the pump, in the queue, in the hands of the read loop, in frames
  on their way, and in the hands of the bridge.\<close>

theorem tunnel_upload_conserved:
  assumes "treach E J" and "t \<in> set (cthreads (client J))" and "bridging t = Some (k, q)"
    and "\<not> cst_closed (tobjs (cli J) ! q)" and "\<not> tclosed (cli J)" and "wbreak (tout (cli J)) \<noteq> Some 0"
    and "map_of (streams (srv J)) (cst_id (tobjs (cli J) ! q)) = Some r" and "\<not> st_closed (objs (srv J) ! r)"
    and "w \<in> set (threads (srv J))" and "pumpHolds w = Some (r, ch)"
  shows "lread (conns (client J) ! k) =
           uwritten (objs (srv J) ! r) @ ch @ concat (queue (objs (srv J) ! r)) @ pendingFor r (hd (threads (srv J))) @
           dataFrames (cst_id (tobjs (cli J) ! q)) (drop (upread J) (sentC J)) @ heldBytes t"
proof -
  note j = treach_joint [OF assms(1)]
  let ?i = "cst_id (tobjs (cli J) ! q)" and ?st = "objs (srv J) ! r"
  have "uploadOK (client J)" by (rule client_ids(2) [OF j(2) jointOK_D(1) [OF j(1)]])
  then have "threadUp (client J) t" using assms(2) by (simp add: uploadOK_def)
  then have l: "lread (conns (client J) ! k) = dataFrames ?i (sentC J) @ heldBytes t"
    using bridging_lowner [OF assms(3)] assms(4-6) by (simp add: threadUp_def lostS_def sentC_def dataFrames_map)
  have d: "dataFrames ?i (sentC J) = dataFrames ?i (gotS J) @ dataFrames ?i (drop (upread J) (sentC J))"
    by (metis append_take_drop_id dataFrames_simps(2) gotS_def)
  have a: "dataFrames ?i (gotS J) = accepted ?st @ pendingFor r (hd (threads (srv J)))"
    by (rule acceptOKD(2) [OF serverOK_D(3) [OF j(1)] assms(7,8)])
  have "threadFlow (objs (srv J)) w" using j(3) assms(9) by (simp add: sideS_def flowOK_def)
  then have "accepted ?st = uwritten ?st @ ch @ concat (queue ?st)"
    using assms(8,10) by (cases w) (auto simp: flow_def)
  then show ?thesis using l d a by simp
qed

theorem tunnel_upload_conserved_witness:
  "\<exists>J. treach demo_env J \<and> lread (conns (client J) ! 0) = [7, 8, 9] \<and>
     lread (conns (client J) ! 0) = uwritten (objs (srv J) ! 0) @ [] @ concat (queue (objs (srv J) ! 0)) @
       pendingFor 0 (hd (threads (srv J))) @ dataFrames 1 (drop (upread J) (sentC J)) @ heldBytes (BridgeAcquire 0 0 [])"
proof -
  from demo_answer_reached obtain J c st ct where J: "treach demo_env J" "conns (client J) = [c]" "lread c = [7, 8, 9]"
    "objs (srv J) = [st]" "tobjs (cli J) = [ct]" "cst_id ct = 1" "\<not> cst_closed ct" "\<not> tclosed (cli J)" "wbreak (tout (cli J)) = None"
    "streams (srv J) = [(1, 0)]" "\<not> st_closed st" "cthreads (client J) = [CLoop, SocksCopy 0 0, BridgeAcquire 0 0 []]"
    "threads (srv J) = [RlRead, Heartbeat, Finished, UpCheck 1 0, PumpCredit 1 0 3]" by blast
  with tunnel_upload_conserved [OF J(1), of "BridgeAcquire 0 0 []" 0 0 0 "PumpCredit 1 0 3" "[]"] show ?thesis
    by (intro exI [of _ J]) simp
qed

text \<open>C4. No downloaded byte is lost or repeated: while a stream is open at the client and its copying goroutine runs,
  everything the server has read from the target is accounted for, in order: with the application, in the chunk being
  read, in the channel of the stream, in the hands of the read loop, and in frames on their way.\<close>

theorem tunnel_download_conserved:
  assumes "treach E J" and "(k, q, pre) \<in> set (bridged J)" and "SocksCopy k q \<in> set (cthreads (client J))"
    and "map_of (tstreams (cli J)) (cst_id (tobjs (cli J) ! q)) = Some q" and "\<not> cst_closed (tobjs (cli J) ! q)"
    and "r < length (objs (srv J))" and "st_id (objs (srv J) ! r) = cst_id (tobjs (cli J) ! q)"
  shows "pre @ fetched J r =
           wout (lout (conns (client J) ! k)) @ pendingBytesC (tobjs (cli J) ! q) @ concat (incoming (tobjs (cli J) ! q)) @
           deliverHolds q (hd (cthreads (client J))) @ dataFrames (cst_id (tobjs (cli J) ! q)) (drop (downread J) (sentS J))"
proof -
  note j = treach_joint [OF assms(1)]
  let ?ct = "tobjs (cli J) ! q" and ?t = "hd (cthreads (client J))"
  let ?i = "cst_id ?ct"
  note c = cliS_D [OF clientOK_D(2) [OF j(1)]]
  have q: "q < length (tobjs (cli J))" and cp: "copyOK (client J) (k, q, pre)"
    using copiesD [OF clientOK_D(6) [OF j(1)] assms(2)] by simp_all
  have g: "wout (lout (conns (client J) ! k)) = pre @ readout ?ct" by (rule copyingD [OF cp assms(3)])
  have f: "fetched J r = dataFrames ?i (sentS J)" using serverOK_D(5) [OF j(1)] assms(6,7) by (simp add: fetchOK_def sentS_def)
  have d: "dataFrames ?i (sentS J) = dataFrames ?i (gotC J) @ dataFrames ?i (drop (downread J) (sentS J))"
    by (metis append_take_drop_id dataFrames_simps(2) gotC_def)
  have "dataFrames ?i (gotC J) = arrived ?ct @ deliverHolds q ?t"
  proof (cases "\<exists>p. ?t = CDeliver q p")
    case True
    then show ?thesis using c(8) [of q] assms(5) by auto
  next
    case False
    then have "\<not> delivering q ?t" "deliverHolds q ?t = []" by (cases ?t; auto)+
    then show ?thesis using c(6) [OF q assms(4,5)] by simp
  qed
  moreover have "arrived ?ct = readout ?ct @ pendingBytesC ?ct @ concat (incoming ?ct)"
    using j(2) q by (simp add: sideC_def flowC_def cstrOK_def)
  ultimately show ?thesis using g f d by simp
qed

theorem tunnel_download_conserved_witness:
  "\<exists>J. treach demo_env J \<and> fetched J 0 = [42, 43] \<and>
     [5, 0, 5, 0, 0, 1, 0, 0, 0, 0, 0, 0] @ fetched J 0 = wout (lout (conns (client J) ! 0)) @ pendingBytesC (tobjs (cli J) ! 0) @
       concat (incoming (tobjs (cli J) ! 0)) @ deliverHolds 0 (hd (cthreads (client J))) @ dataFrames 1 (drop (downread J) (sentS J))"
proof -
  from demo_answer_reached obtain J c st ct where J: "treach demo_env J" "bridged J = [(0, 0, [5, 0, 5, 0, 0, 1, 0, 0, 0, 0, 0, 0])]"
    "fetched J 0 = [42, 43]" "objs (srv J) = [st]" "tobjs (cli J) = [ct]" "cst_id ct = 1" "st_id st = 1" "\<not> cst_closed ct"
    "tstreams (cli J) = [(1, 0)]" "cthreads (client J) = [CLoop, SocksCopy 0 0, BridgeAcquire 0 0 []]" by blast
  with tunnel_download_conserved [OF J(1), of 0 0 "[5, 0, 5, 0, 0, 1, 0, 0, 0, 0, 0, 0]" 0] show ?thesis
    by (intro exI [of _ J]) simp
qed



text \<open>C5. From the printed share string to a working tunnel: a client started with the share string of a running server, over
  a network that relays the two hellos, reaches the SOCKS5 loop; the server accepts it, both ends hold the same two keys
  and the joint machine starts there. This holds for a key of 32 bytes, as the server generates it, an IPv4 literal as
  public address, a wildcard listen address and a client nonce that does not begin like an HTTP request.\<close>

theorem share_string_opens_tunnel:
  assumes "serverMain v SE F fs = (Running r, tr, ms)" and "length (rn_psk r) = 32"
    and "fl_publicIP F = ip4String ip" and "length ip = 4" and "fl_tcp F = '':'' @ itoaNat n" and "0 < n" and "n \<le> 65535"
    and "cf_method CF = ''socks5''"
    and "hmac_ok (crypt E)" and "hkdf_ok (crypt E)" and "dpadRoll D \<le> 255" and "\<not> looksLikeHTTP (map (dnonce D) [0..<16])"
    and "dialTCP D (joinHostPort (rn_host r) (itoa (int n))) = Some raw"
    and "tlsClient D (if rn_sni r = '''' then rn_host r else rn_sni r) raw = Some (\<lparr>inbuf = shello @ srest, rend = e\<rparr>, cw)"
    and "wbreak cw = None" and "dl1 H" and "dl2 H" and "nonceRnd (hsr H) = Some f" and "padRnd (hsr H) = Some p"
    and "padRoll (hsr H) \<le> 255" and "wbreak sw = None" and "srvPsk G = rn_psk r"
    and sh: "shello = helloBytes (crypt E) (rn_psk r) ''s2c-hs'' (map f [0..<16]) (map p [0..<padRoll (hsr H)])"
    and ch: "chello = tc_hello (crypt E) (rn_psk r) (map (dnonce D) [0..<16]) (dpadRoll D) (map (dpad D) [0..<dpadRoll D])"
  shows "\<exists>share S kc ks rd' wr'. rn_share r = Some (fl_tcp F, share) \<and>
     clientMain (crypt E) D rd cfs True (CF\<lparr>cf_share := share\<rparr>) = Inr (ModeSocks S) \<and>
     acceptConn (crypt E) G H \<lparr>inbuf = chello @ crest, rend = e'\<rparr> sw
       = (Established (map (dnonce D) [0..<16]) (map f [0..<16]) kc ks, rd', wr') \<and>
     tkeyC2S (cs S) = kc \<and> tkeyS2C (cs S) = ks \<and>
     treach E (tunnelStart S \<lparr>ses = newSession i rd' wr' kc ks now, gbuf = g, bpools = empty_pools\<rparr>)"
proof -
  obtain share where share: "rn_share r = Some (fl_tcp F, share)" and ip: "isIPLiteral (rn_host r)"
    and cfg: "clientConfig rd cfs (CF\<lparr>cf_share := share\<rparr>) =
      Inr \<lparr>dc_host = rn_host r, dc_port = int n, dc_psk = rn_psk r, dc_sni = rn_sni r\<rparr>"
    using client_configured_by_server [OF assms(1-7)] by blast
  let ?cw = "cw\<lparr>wout := wout cw @ chello\<rparr>" and ?sr = "\<lparr>inbuf = crest, rend = e'\<rparr>" and ?sw = "sw\<lparr>wout := wout sw @ shello\<rparr>"
  obtain kc ks where k: "acceptConn (crypt E) G H \<lparr>inbuf = chello @ crest, rend = e'\<rparr> sw
       = (Established (map (dnonce D) [0..<16]) (map f [0..<16]) kc ks, ?sr, ?sw)"
    and d: "dialSession (crypt E) D (rn_host r) (int n) (rn_psk r) (rn_sni r) = Inr (tc_newSession \<lparr>inbuf = srest, rend = e\<rparr> ?cw kc ks)"
    using handshake_fits [OF assms(9,10) ip assms(11-21), of G chello crest e'] sh ch assms(22) by auto
  let ?S = "\<lparr>cs = tc_newSession \<lparr>inbuf = srest, rend = e\<rparr> ?cw kc ks, conns = [], cthreads = [CLoop]\<rparr>"
  have "clientMain (crypt E) D rd cfs True (CF\<lparr>cf_share := share\<rparr>) = Inr (ModeSocks ?S)"
    using cfg d assms(8) by (simp add: clientMain_def runSocks5_def)
  moreover have "treach E (tunnelStart ?S \<lparr>ses = newSession i ?sr ?sw kc ks now, gbuf = g, bpools = empty_pools\<rparr>)"
    by (rule treach.init) simp
  moreover have "tkeyC2S (cs ?S) = kc" "tkeyS2C (cs ?S) = ks" by (simp_all add: tc_newSession_def)
  ultimately show ?thesis using share k by blast
qed

theorem share_string_opens_tunnel_witness:
  "\<exists>share S kc ks rd' wr'. clientMain demo_crypto
       (demo_dial (helloBytes demo_crypto (replicate 32 7) ''s2c-hs'' (map (\<lambda>_. 2) [0..<16]) (map (\<lambda>_. 0) [0..<3]) @ []))
       True Map.empty True \<lparr>cf_share = share, cf_server = [], cf_psk = [], cf_pskFile = [], cf_env = [], cf_method = ''socks5'',
         cf_target = [], cf_socksAddr = []\<rparr> = Inr (ModeSocks S) \<and>
     treach demo_env (tunnelStart S \<lparr>ses = newSession 1 rd' wr' kc ks 0, gbuf = 0, bpools = empty_pools\<rparr>)"
proof -
  let ?sh = "helloBytes demo_crypto (replicate 32 7) ''s2c-hs'' (map (\<lambda>_. 2) [0..<16]) (map (\<lambda>_. 0) [0..<3])"
  let ?D = "demo_dial (?sh @ [])"
  let ?H = "\<lparr>hsdate = '''', dl1 = True, dl2 = True, hsr = \<lparr>nonceRnd = Some (\<lambda>_. 2), padRoll = 3, padRnd = Some (\<lambda>_. 0)\<rparr>\<rparr>"
  let ?CF = "\<lparr>cf_share = [], cf_server = [], cf_psk = [], cf_pskFile = [], cf_env = [], cf_method = ''socks5'', cf_target = [], cf_socksAddr = []\<rparr>"
  let ?G = "\<lparr>srvPsk = replicate 32 7, pskCfg = undefined, pickedCamouflage = None\<rparr>"
  let ?w = "\<lparr>wout = [], wbreak = None\<rparr>"
  obtain r tr ms where run: "serverMain ''0.3.0'' demo_senv demo_flags Map.empty = (Running r, tr, ms)"
    and psk: "rn_psk r = replicate 32 7"
    using demo_running by blast
  have fl: "fl_publicIP demo_flags = ip4String [203, 0, 113, 9]" "fl_tcp demo_flags = '':'' @ itoaNat 443" by code_simp+
  have n: "\<not> looksLikeHTTP (map (dnonce ?D) [0..<16])"
  proof -
    have "\<not> looksLikeHTTP (map (\<lambda>_. 1) [0..<16])" by code_simp
    then show ?thesis by (simp add: demo_dial_def)
  qed
  have C: "crypt demo_env = demo_crypto" by (simp add: demo_env_def)
  have tls: "tlsClient ?D sn raw = Some (\<lparr>inbuf = ?sh @ [], rend = EOF\<rparr>, ?w)" "dialTCP ?D a = Some (\<lparr>inbuf = [], rend = EOF\<rparr>, ?w)" for sn raw a
    by (simp_all add: demo_dial_def)
  note tun = share_string_opens_tunnel [where E = demo_env and H = ?H and G = ?G and CF = ?CF and D = ?D and shello = ?sh and srest = "[]"
      and e = EOF and cw = ?w and sw = ?w and f = "\<lambda>_. 2" and p = "\<lambda>_. 0" and rd = True and cfs = Map.empty and i = 1 and now = 0 and g = 0
      and crest = "[]" and e' = EOF and chello = "tc_hello demo_crypto (replicate 32 7) (map (dnonce ?D) [0..<16]) (dpadRoll ?D) (map (dpad ?D) [0..<dpadRoll ?D])",
      OF run _ fl(1) _ fl(2)]
  have "\<exists>share S kc ks rd' wr'. rn_share r = Some (fl_tcp demo_flags, share) \<and>
     clientMain (crypt demo_env) ?D True Map.empty True (?CF\<lparr>cf_share := share\<rparr>) = Inr (ModeSocks S) \<and>
     acceptConn (crypt demo_env) ?G ?H \<lparr>inbuf = tc_hello demo_crypto (replicate 32 7) (map (dnonce ?D) [0..<16]) (dpadRoll ?D)
         (map (dpad ?D) [0..<dpadRoll ?D]) @ [], rend = EOF\<rparr> ?w
       = (Established (map (dnonce ?D) [0..<16]) (map (\<lambda>_. 2) [0..<16]) kc ks, rd', wr') \<and>
     tkeyC2S (cs S) = kc \<and> tkeyS2C (cs S) = ks \<and>
     treach demo_env (tunnelStart S \<lparr>ses = newSession 1 rd' wr' kc ks 0, gbuf = 0, bpools = empty_pools\<rparr>)"
    by (rule tun) (use n in \<open>simp_all add: C psk tls demo_hmac_ok demo_hkdf_ok\<close>, simp_all add: demo_dial_def)
  then show ?thesis unfolding C clientFlags.simps by blast
qed

end
