(* ===== verification/Spec2Isabelle.thy ===== *)
theory Spec2Isabelle
  imports Winddown Client_Props Client_Main Listener Tunnel_Props
begin

text \<open>
  \<^bold>\<open>mxtr-proxy, a verification library.\<close>

  The program has a server (\<open>src/cmd/mxtr-server\<close>) and a client (\<open>src/cmd/mxtr-testclient-v2\<close>). The client opens a
  TLS connection to the server, both prove knowledge of a pre-shared key (PSK) in a padded handshake, and
  then multiplex streams over frames that are padded to a ladder of sizes and sealed with ChaCha20-Poly1305.
  The server dials a target for each stream and relays. To anybody without the key it answers like an ordinary
  web server. The development models both programs whole, from the flags to the bytes on the wire; this
  theory imports all others and holds the properties of the server's sessions that span several of them.

  \<^bold>\<open>Foundations.\<close> \<open>Prelude\<close>: bytes, big-endian integers, readers and writers of a connection with failures.
  \<open>Crypto\<close>: HMAC, HKDF and the AEAD as a parameter \<open>crypto\<close>, the documented laws as the hypotheses \<open>hmac_ok\<close>, \<open>hkdf_ok\<close>,
  \<open>aead_ok\<close>, \<open>aead_binds_nonce\<close>, and a concrete instance that satisfies them. \<open>Go_Strings\<close>, \<open>Go_Net\<close>: what the program uses of
  \<open>strings\<close>, \<open>strconv\<close>, \<open>encoding/hex\<close> and \<open>net\<close>.

  \<^bold>\<open>The server's wire.\<close> \<open>Frame\<close> (\<open>writeFrame\<close>, \<open>readFrame\<close>, the padding ladder, the buffer pools): round trip, authenticity,
  replay and reordering are detected. \<open>Handshake\<close> (\<open>readClientHandshake\<close>, \<open>writeServerHandshake\<close>, the first half of
  \<open>handleTCPv2\<close>): exactly the authentic hellos are accepted. \<open>Probe\<close> and \<open>Camouflage\<close>: recognising and draining an HTTP
  request byte by byte, rendering the pages, which parse as HTTP. \<open>Psk_Config\<close>: the knobs derived from the PSK.
  \<open>Allowlist\<close>: \<open>parseTarget\<close>, hostnames, \<open>allowlist.go\<close>.

  \<^bold>\<open>The server's sessions\<close> (\<open>session_v2.go\<close>). \<open>Session\<close> has the records \<open>v2Stream\<close>, \<open>v2Session\<close>, process-wide state and frame
  writing; streams are objects in a list, the map sends identifiers to positions, so aliasing is explicit.
  \<open>Threads\<close> has every goroutine (read loop, openers, pumps, readers, heartbeat, PONG, teardown) as a function that
  performs one step between two synchronisation points and returns \<open>None\<close> where the goroutine blocks. \<open>World\<close> has all
  sessions, the global byte counter, connection acceptance and the reaper, the step relation and the reachable
  states \<open>wreach\<close>, and the locale by which invariants are proved once per step. On it rest \<open>Accounting\<close> (byte budgets), \<open>Limits\<close>
  (caps), \<open>Delivery\<close> (order of uploads, credits), \<open>Teardown\<close> (nothing stays open), \<open>Wire\<close> (the output decodes, nonces
  are fresh), \<open>Lifecycle\<close> (allowlist, reaping, heartbeat), \<open>Release\<close> (the map of a closed session empties and every pump is told),
  \<open>Winddown\<close> (after the read loop has ended every other goroutine has boundedly many steps left, and where it can block). \<open>Demo\<close> has concrete runs that witness the theorems and two runs that
  show defects.

  \<^bold>\<open>The server's start.\<close> \<open>Logger\<close> (\<open>logger.go\<close>). \<open>State_Files\<close>: secure creation and atomic replacement over a file system
  with symbolic links, failing calls and unsynced data; every state the process may die in is part of the
  result. \<open>Identity\<close>: camouflage family, certificate name and certificate; the locale \<open>persisted_choice\<close> is the contract of
  the three resolvers of persisted state and is interpreted for each of them. \<open>Startup\<close>: \<open>main\<close> as a function; a running
  server is well configured, a restart changes nothing. \<open>Listener\<close>: the start of \<open>runTCP\<close>, the accept loop and its gate.

  \<^bold>\<open>The client.\<close> \<open>Base58\<close>, \<open>Share\<close>: share strings of both programs with the part of \<open>net/url\<close> used. \<open>Client_Codec\<close>: frames, keys and
  \<open>dialSession\<close>, agreement with the server in both directions. \<open>Client_Session\<close>: read loop, streams, SOCKS5 and bridges as
  steps, reachable states \<open>creach\<close>; \<open>open\<close> up to its \<open>select\<close> (identifier, map entry, OPEN frame) and the SOCKS5 dialogue before it
  are one step each, so OPEN frames leave in the order of their identifiers, which in the program two local connections
  may invert. \<open>Client_Flow\<close>, \<open>Client_Upload\<close>, \<open>Client_Props\<close>: window, order of uploads and downloads, the path from a
  CONNECT request to the server's dial. \<open>Client_Main\<close>: \<open>main\<close>, \<open>streamWriter\<close>, \<open>streamConn\<close> and the one-shot modes; the share
  string of a running server configures a client.

  \<^bold>\<open>Both ends together.\<close> \<open>Tunnel\<close> joins a client and the server's session for it by a network that may drop, repeat, reorder and
  invent bytes; what it cannot do is make a ciphertext that opens under a session key and was not sealed by the other end
  (\<open>unforged\<close>, the authenticity of the AEAD, a hypothesis of the read steps only). The reachable states \<open>treach\<close> start with the two sessions one
  handshake leaves and follow them while identifiers and sequence numbers do not wrap around: below \<open>2 ^ 31\<close> streams and
  \<open>2 ^ 64\<close> frames in either direction (\<open>inRange\<close>). The locales \<open>fed_session_inv\<close> and \<open>fed_client_inv\<close> carry the invariants of either
  end over. \<open>Tunnel_Server\<close> and \<open>Tunnel_Client\<close> prove what either end guarantees about the frames it sends, given a peer that opens
  every stream once (\<open>polite\<close>) or grants one window per stream (\<open>courteous\<close>); \<open>Tunnel_Bridge\<close> ties the streams to the local connections;
  \<open>Tunnel_Joint\<close> discharges each side's assumption by the other's invariant; \<open>Tunnel_Props\<close> has the end-to-end theorems: uploads and
  downloads arrive unchanged, no byte is lost or repeated, the client's window keeps the server from shedding its data, and
  a printed share string leads to such a tunnel.

  \<^bold>\<open>Modelling choices.\<close> Randomness, time and the answers of the operating system are arguments. Loops over
  data are total functions; goroutines have no fuel, their runs are the reachability relations. Counters
  that may wrap are words (frame sequence numbers 64 bits, stream identifiers 32 bits); byte counters are
  integers, within range by the proved bounds. Fields that record history for a theorem and have no counterpart in the
  source are named as such where they are declared. A link is followed 40 times at most, as the kernel does.

  \<^bold>\<open>Not modelled.\<close> crypto/tls and x509 (parameters), DNS and TCP (the dial is an outcome of the environment),
  deadlines as durations (a deadline is an outcome of a read), the text of log lines (each call is a constructor
  of \<open>msg\<close>, and the client's own log lines and \<open>runTCP\<close>'s are left out), the addresses and deadlines of \<open>streamConn\<close>, which are constants, and
  symbolic links in the directory part of a path. The inner TLS connection of the client's https mode is a parameter. The file model is that of POSIX systems.
\<close>

section \<open>Delivery\<close>

text \<open>C7. In every reachable state of the server, what a target has received on a stream is a prefix of
  what the client sent on it; while its pump lives and the stream is open, the rest is exactly the chunk the
  pump holds followed by the queue. The map sends every identifier to a stream opened under it.\<close>

theorem upload_in_order:
  assumes "wreach G E W" and "s \<in> set (wsess W)"
  shows "(\<forall>st\<in>set (objs s). prefix (uwritten st) (accepted st)) \<and>
     (\<forall>i r c. PumpWait i r c \<in> set (threads s) \<and> \<not> st_closed (objs s ! r) \<longrightarrow>
        accepted (objs s ! r) = uwritten (objs s ! r) @ concat (queue (objs s ! r))) \<and>
     (\<forall>i r ch e c. PumpWrite i r ch e c \<in> set (threads s) \<and> \<not> st_closed (objs s ! r) \<longrightarrow>
        accepted (objs s ! r) = uwritten (objs s ! r) @ ch @ concat (queue (objs s ! r))) \<and>
     (\<forall>(i, r)\<in>set (streams s). st_id (objs s ! r) = i)"
proof -
  have ok: "flowOK s" using dlv.always [OF assms] by blast
  have t: "threadFlow (objs s) u" if "u \<in> set (threads s)" for u using ok that by (simp add: flowOK_def)
  show ?thesis
    using ok t [of "PumpWait _ _ _"] t [of "PumpWrite _ _ _ _ _"]
    by (auto simp: flowOK_def heapFlow_def base_def flow_def)
qed

theorem upload_in_order_witness:
  "\<exists>W s st. wreach demo_globals demo_env W \<and> s \<in> set (wsess W) \<and> st \<in> set (objs s) \<and>
     accepted st = [104, 101, 108, 108, 111] \<and> prefix (uwritten st) (accepted st)"
  using demo_reached upload_in_order [of demo_globals demo_env] by fastforce

text \<open>The credit a pump is about to send equals the bytes delivered and not yet credited, it is positive
  and fits the four bytes of a WINDOW_UPDATE.\<close>

lemma credit_is_delivery:
  assumes "wreach G E W" and "s \<in> set (wsess W)" and "PumpCredit i r c \<in> set (threads s)"
  shows "granted (objs s ! r) + c = int (length (uwritten (objs s ! r))) \<and> 0 < c \<and>
         getBE (putBE 4 (nat c)) = nat c"
proof -
  have "flowOK s" using dlv.always [OF assms(1,2)] by blast
  then have "threadFlow (objs s) (PumpCredit i r c)" using assms(3) by (auto simp: flowOK_def)
  then have t: "flow [] c (objs s ! r)" "0 < c" "c < 2162687" by (simp_all add: v2_limits)
  then have "nat c < 256 ^ 4" by simp
  then have "getBE (putBE 4 (nat c)) = nat c" by (rule getBE_putBE_small)
  then show ?thesis using t by (simp add: flow_def)
qed

text \<open>A client that never sends more than its window (the initial window plus the credit it has received)
  has at most the initial window queued on a stream, and while at most 32 of its streams are open, the next
  payload within the window of its stream passes the check of the session budget: it is not shed.\<close>

lemma honest_client_not_shed:
  assumes "wreach G E W" and "s \<in> set (wsess W)" and "\<not> sclosed s"
    and honest: "\<forall>st\<in>set (objs s). int (length (accepted st)) \<le> v2InitialWindow + granted st"
    and few: "length (filter (\<lambda>st. \<not> st_closed st) (objs s)) \<le> 32"
    and r: "r < length (objs s)" "\<not> st_closed (objs s ! r)"
    and next_ok: "int (length (accepted (objs s ! r)) + length p) \<le> v2InitialWindow + granted (objs s ! r)"
  shows "(\<forall>st\<in>set (objs s). qbytes st \<le> v2InitialWindow) \<and>
         buffered s + int (length p) \<le> v2SessionBufferCap"
  using session_room [of s r p] dlv.always [OF assms(1,2)] assms(3-) by blast

text \<open>C11. Queued bytes are counted exactly: the process-wide counter is the sum over all sessions, and it exceeds
  its cap by at most one payload (65535 bytes) for every session beyond the first that holds queued bytes.\<close>

theorem global_budget:
  assumes "wreach G E W"
  shows "v2GlobalBuffered W = sum_list (map queued (wsess W)) \<and>
    v2GlobalBuffered W \<le> v2GlobalBufferCap + 65535 * int (card {k. k < length (wsess W) \<and> 0 < queued (wsess W ! k)} - 1)"
proof -
  let ?T = "{k. k < length (wsess W) \<and> 0 < queued (wsess W ! k)}"
  have all: "sessOK s" if "s \<in> set (wsess W)" for s using acc.always [OF assms that] .
  have g: "v2GlobalBuffered W = sum_list (map queued (wsess W))" by (rule wreach_global [OF assms])
  also have "\<dots> = (\<Sum>k<length (wsess W). queued (wsess W ! k))"
    by (simp add: sum_list_sum_nth atLeast0LessThan)
  also have "\<dots> = (\<Sum>k\<in>?T. queued (wsess W ! k))"
  proof (intro sum.mono_neutral_right ballI)
    fix k assume "k \<in> {..<length (wsess W)} - ?T"
    then have "k < length (wsess W)" and "\<not> 0 < queued (wsess W ! k)" by auto
    then show "queued (wsess W ! k) = 0" using queued_nonneg all by (meson antisym not_less nth_mem)
  qed auto
  also have "\<dots> \<le> (\<Sum>k\<in>?T. load (wsess W ! k))" by (intro sum_mono) (simp add: load_def)
  finally have le: "v2GlobalBuffered W \<le> (\<Sum>k\<in>?T. load (wsess W ! k))" .
  have "(\<Sum>k\<in>?T. load (wsess W ! k)) \<le> v2GlobalBufferCap + 65535 * int (card ?T - 1)"
  proof (cases "?T = {}")
    case True
    then show ?thesis unfolding True by (simp add: v2GlobalBufferCap_def)
  next
    case False
    moreover have "?T \<subseteq> {..<length (wsess W)}" by auto
    ultimately show ?thesis using wreach_loads [OF assms] unfolding loadsOK_def by blast
  qed
  with le g show ?thesis by linarith
qed

theorem global_budget_witness:
  "\<exists>W. wreach demo_globals demo_env W \<and> v2GlobalBuffered W = 5 \<and> v2GlobalBuffered W = sum_list (map queued (wsess W))"
  using demo_reached global_budget [of demo_globals demo_env] by blast

text \<open>C12. A session counts its queued bytes exactly while it lives, never holds more than its cap, and never has
  more than \<open>v2MaxConcurrentOpens\<close> goroutines opening streams; the semaphore counts them exactly.\<close>

theorem session_limits:
  assumes "wreach G E W" and "s \<in> set (wsess W)"
  shows "queued s \<le> v2SessionBufferCap \<and> (\<not> sclosed s \<longrightarrow> buffered s = queued s) \<and>
         openSem s = length (filter openerThread (threads s)) \<and> openSem s \<le> v2MaxConcurrentOpens"
  using acc.always [OF assms] lim.always [OF assms]
  by (auto simp: sessOK_def countsOK_def limitsOK_def openers_def)

theorem session_limits_witness:
  "\<exists>W s. wreach demo_globals demo_env W \<and> s \<in> set (wsess W) \<and> buffered s = 5 \<and> queued s \<le> v2SessionBufferCap"
proof -
  from demo_reached obtain W s where w: "wreach demo_globals demo_env W" "wsess W = [s]" "buffered s = 5" by blast
  then have "s \<in> set (wsess W)" by simp
  with w session_limits [OF w(1) this] show ?thesis by blast
qed

text \<open>C13. While no stream identifier is used twice, no upstream connection outlives its session: once \<open>closeAll\<close>
  has run and no goroutine is opening a stream any more, every upstream connection is closed.\<close>

theorem teardown_closes_upstreams:
  assumes "wreach G E W" and "s \<in> set (wsess W)" and "distinct (map st_id (objs s))"
    and "sclosed s" and "hd (threads s) = RlExit \<or> hd (threads s) = Finished"
    and "\<not> list_ex openerThread (threads s)" and "st \<in> set (objs s)"
  shows "\<not> uopen st"
proof -
  from assms(7) obtain r where r: "r < length (objs s)" and st: "st = objs s ! r" by (auto simp: in_set_conv_nth)
  have "kept s r" using tear.always [OF assms(1,2)] assms(3) r by (simp add: tidy_def)
  then show ?thesis using assms(4-6) by (auto simp: kept_def st list_ex_iff)
qed

theorem teardown_closes_upstreams_witness:
  "\<exists>W s st. wreach demo_globals demo_env W \<and> s \<in> set (wsess W) \<and> sclosed s \<and> st \<in> set (objs s) \<and> \<not> uopen st"
proof -
  from demo_end_reached obtain W s st where w: "wreach demo_globals demo_env W" "wsess W = [s]" "objs s = [st]"
    "threads s = [Finished, Finished, Finished]" "sclosed s" by blast
  then have "s \<in> set (wsess W)" by simp
  with w teardown_closes_upstreams [OF w(1) this, of st] show ?thesis by auto
qed

text \<open>C8. What a session has written to its connection is the server's hello followed by the frames of its calls of
  \<open>writeStreamFrame\<close>, numbered from 1 (not from 0, as \<open>src/docs/PROTOCOL.md\<close> says) without gaps, cut off only where the
  connection broke; a client that reads them with its own counter recovers exactly the plaintexts, each of them a
  well-formed stream frame.\<close>

theorem session_output_decodes:
  assumes "wreach G E W" and "s \<in> set (wsess W)" and "aead_ok (crypt E)"
  shows "prefix (wout (cout s)) (outgoing (crypt E) s) \<and>
     seqWrite s = 1 + word_of_nat (length (sealed s)) \<and>
     (\<forall>pt\<in>snd ` set (sealed s). \<exists>i t p. splitFrame pt = Some (i, t, p)) \<and>
     (wbreak (cout s) \<noteq> Some 0 \<and> (\<forall>f\<in>set (sealed s). snd (fst f) \<noteq> None) \<longrightarrow>
        decAll (srvDec (crypt E, keyS2C s)) 1 (length (sealed s))
          \<lparr>inbuf = drop (length (hello s)) (wout (cout s)), rend = e\<rparr>
        = (map snd (sealed s), None, \<lparr>inbuf = [], rend = e\<rparr>))"
proof -
  have ok: "wireOK (crypt E) s" by (rule wire.always [OF assms(1,2)])
  then have "\<forall>pt\<in>snd ` set (sealed s). \<exists>i t p. splitFrame pt = Some (i, t, p)"
    using splitFrame_streamFrame by (fastforce simp: wireOK_def)
  with ok wireOK_decodes [OF ok assms(3)] show ?thesis by (simp add: wireOK_def)
qed

theorem session_output_decodes_witness:
  "\<exists>W s. wreach demo_globals demo_env W \<and> s \<in> set (wsess W) \<and>
     decAll (srvDec (demo_crypto, keyS2C s)) 1 1 \<lparr>inbuf = drop (length (hello s)) (wout (cout s)), rend = EOF\<rparr>
       = ([streamFrame 1 v2TypeOpenOK (putBE 4 4194304)], None, \<lparr>inbuf = [], rend = EOF\<rparr>)"
proof -
  from credit_reached obtain W s where w: "wreach demo_globals demo_env W" "wsess W = [s]"
    "wbreak (cout s) = None" "sealed s = [((99, Some (\<lambda>_. 0)), streamFrame 1 6 (putBE 4 4194304))]" by auto
  have "aead_ok (crypt demo_env)" by (simp add: demo_env_def demo_aead_ok)
  with w session_output_decodes [of demo_globals demo_env W s EOF] show ?thesis
    by (intro exI [of _ W] exI [of _ s]) (simp add: demo_env_def v2TypeOpenOK_def)
qed

text \<open>C28. No nonce is used twice under the server's key: until \<open>2 ^ 64\<close> frames have been written, the nonce
  of the next frame differs from the nonces of all earlier ones, also after failed writes.\<close>

theorem nonces_fresh:
  assumes "wreach G E W" and "s \<in> set (wsess W)" and "length (sealed s) < 2 ^ 64" and "k < length (sealed s)"
  shows "frameNonce (1 + word_of_nat k) \<noteq> frameNonce (seqWrite s)"
proof
  assume "frameNonce (1 + word_of_nat k) = frameNonce (seqWrite s)"
  then have "1 + word_of_nat k = seqWrite s" by (rule frameNonce_inj)
  then have "1 + word_of_nat k = (1 + word_of_nat (length (sealed s)) :: u64)"
    using wire.always [OF assms(1,2)] by (simp add: wireOK_def)
  from seq_inj [of k "Suc (length (sealed s))" "length (sealed s)", OF _ _ _ this] assms(3,4) show False by simp
qed

theorem nonces_fresh_witness:
  "\<exists>W s. wreach demo_globals demo_env W \<and> s \<in> set (wsess W) \<and> length (sealed s) = 1 \<and>
     frameNonce (1 + word_of_nat 0) \<noteq> frameNonce (seqWrite s)"
proof -
  from credit_reached obtain W s where w: "wreach demo_globals demo_env W" "wsess W = [s]" "length (sealed s) = 1"
    by blast
  then have "s \<in> set (wsess W)" by simp
  with w nonces_fresh [OF w(1) this, of 0] show ?thesis by auto
qed

end
